(* ===== verification/Xen_Prelude.thy ===== *)
theory Xen_Prelude
  imports Main "HOL-Library.Word"
begin

text \<open>
  The prelude of the development: the machine types of a 64-bit build of the
  hypervisor, the error codes the operations return, the result of code that can stop
  the machine, and the lemmas on words, lists and functions that the components share.
\<close>

unbundle bit_operations_syntax

section \<open>Machine types\<close>

text \<open>
  The hypervisor is modelled as built for x86-64: an \<open>unsigned long\<close> is 64 bits wide,
  and arithmetic on it wraps around.
\<close>

type_synonym u8 = "8 word"
type_synonym u16 = "16 word"
type_synonym u32 = "32 word"
type_synonym ulong = "64 word"

text \<open>Domain identifiers, virtual CPU numbers, event-channel ports and CPU numbers. Ports and virtual
  CPU numbers are signed: the code keeps them in an \<open>int\<close> and tests for negative ones.\<close>

type_synonym domid = int
type_synonym vcpuid = int
type_synonym port = int
type_synonym cpuid = nat

text \<open>Pages of 4 KB.\<close>

definition PAGE_SHIFT :: nat where "PAGE_SHIFT = 12"
definition PAGE_SIZE :: nat where "PAGE_SIZE = 4096"

section \<open>Error codes\<close>

text \<open>
  The codes of \<open>xen/include/xen/errno.h\<close>. An operation returns 0 or a positive value on
  success and the negated code on failure.
\<close>

abbreviation EPERM :: int where "EPERM \<equiv> 1"
abbreviation ENOENT :: int where "ENOENT \<equiv> 2"
abbreviation ESRCH :: int where "ESRCH \<equiv> 3"
abbreviation ENOMEM :: int where "ENOMEM \<equiv> 12"
abbreviation EFAULT :: int where "EFAULT \<equiv> 14"
abbreviation EBUSY :: int where "EBUSY \<equiv> 16"
abbreviation EEXIST :: int where "EEXIST \<equiv> 17"
abbreviation EINVAL :: int where "EINVAL \<equiv> 22"
abbreviation ENOSPC :: int where "ENOSPC \<equiv> 28"
abbreviation ENOSYS :: int where "ENOSYS \<equiv> 38"

section \<open>Code that can stop the machine\<close>

text \<open>
  \<open>BUG()\<close>, \<open>BUG_ON(...)\<close> and a failed \<open>ASSERT(...)\<close> stop the hypervisor. An operation
  with such a check returns an \<open>outcome\<close>: \<open>Done\<close> of its result, or \<open>BUG\<close>.
\<close>

datatype 'a outcome = Done 'a | BUG

primrec bind_outcome :: "'a outcome \<Rightarrow> ('a \<Rightarrow> 'b outcome) \<Rightarrow> 'b outcome" where
  "bind_outcome (Done x) f = f x"
| "bind_outcome BUG f = BUG"

definition bug_on :: "bool \<Rightarrow> 'a outcome \<Rightarrow> 'a outcome" where
  "bug_on c k = (if c then BUG else k)"

lemma bug_on_simps [simp]: "bug_on False k = k" "bug_on True k = BUG"
  by (simp_all add: bug_on_def)

lemma bind_outcome_eq_Done:
  "bind_outcome m f = Done y \<longleftrightarrow> (\<exists>x. m = Done x \<and> f x = Done y)"
  by (cases m) auto

lemma bug_on_eq_Done: "bug_on c k = Done y \<longleftrightarrow> \<not> c \<and> k = Done y"
  by (simp add: bug_on_def)

named_theorems outcome_simps \<open>how an outcome can be a result\<close>

declare bind_outcome_eq_Done [outcome_simps] bug_on_eq_Done [outcome_simps]

section \<open>Words\<close>

named_theorems word_nat \<open>order and successor of words, read as natural numbers\<close>

lemma word_le_unat [word_nat]: "(x::'a::len word) \<le> y \<longleftrightarrow> unat x \<le> unat y"
  by (rule word_le_nat_alt)

lemma word_less_unat [word_nat]: "(x::'a::len word) < y \<longleftrightarrow> unat x < unat y"
  by (rule word_less_nat_alt)

lemma word_eq_unat: "(x::'a::len word) = y \<longleftrightarrow> unat x = unat y"
  by (rule word_unat_eq_iff)

lemma unat_succ_less:
  assumes "(x::'a::len word) < y"
  shows "unat (x + 1) = Suc (unat x)"
proof -
  have "unat y < 2 ^ LENGTH('a)"
    by (rule unsigned_less)
  with assms have "Suc (unat x) < 2 ^ LENGTH('a)"
    unfolding word_less_unat by linarith
  then show ?thesis
    by (simp add: unat_word_ariths)
qed

lemma unat_pred:
  assumes "(0::'a::len word) < x"
  shows "unat (x - 1) = unat x - 1"
  using assms by (simp add: unat_minus_one word_neq_0_conv)

text \<open>Numbers that fit into a signed word, and into an unsigned one.\<close>

lemma sint_small:
  assumes "unat (w :: u32) < 2 ^ 31"
  shows "sint w = int (unat w)"
proof -
  have "int (unat w) < int (2 ^ 31)" using assms by (simp only: of_nat_less_iff)
  then have "uint w < 2 ^ 31" by simp
  moreover have "0 \<le> uint w" by simp
  ultimately have "signed_take_bit 31 (uint w) = uint w" by (intro signed_take_bit_int_eq_self) linarith+
  then show ?thesis by (simp add: sint_uint)
qed

lemma unat_of_int: "n < 2 ^ 64 \<Longrightarrow> unat (of_int (int n) :: ulong) = n"
  by (simp add: unsigned_of_nat take_bit_nat_eq_self_iff)

section \<open>Lists\<close>

text \<open>Removing and inserting one element of a list, as the linked lists of the code do.\<close>

definition remove_nth :: "nat \<Rightarrow> 'a list \<Rightarrow> 'a list" where
  "remove_nth i xs = take i xs @ drop (Suc i) xs"

definition insert_nth :: "nat \<Rightarrow> 'a \<Rightarrow> 'a list \<Rightarrow> 'a list" where
  "insert_nth i x xs = take i xs @ x # drop i xs"

lemma remove_nth_append [simp]: "remove_nth (length xs) (xs @ y # ys) = xs @ ys"
  by (simp add: remove_nth_def)

lemma remove_nth_append_Suc [simp]:
  "remove_nth (Suc (length xs)) (xs @ x # y # ys) = xs @ x # ys"
  by (simp add: remove_nth_def)

lemma insert_nth_append [simp]: "insert_nth (length xs) y (xs @ ys) = xs @ y # ys"
  by (simp add: insert_nth_def)

lemma insert_nth_append_Suc [simp]:
  "insert_nth (Suc (length xs)) y (xs @ x # ys) = xs @ x # y # ys"
  by (simp add: insert_nth_def)

lemma length_remove_nth [simp]:
  "i < length xs \<Longrightarrow> length (remove_nth i xs) = length xs - 1"
  by (simp add: remove_nth_def)

lemma nth_append_Suc [simp]: "(xs @ x # y # ys) ! Suc (length xs) = y"
  by (simp add: nth_append)

section \<open>Invariants of runs\<close>

text \<open>
  A component as its operations: the states it can start in, and the step from a state to the next. What holds at the
  start and is kept by every step holds in every state of a run.
\<close>

locale invariant_steps =
  fixes init :: "'s \<Rightarrow> bool"
    and step :: "'s \<Rightarrow> 's \<Rightarrow> bool"
    and inv :: "'s \<Rightarrow> bool"
  assumes init_inv: "init s \<Longrightarrow> inv s"
    and step_inv: "inv s \<Longrightarrow> step s s' \<Longrightarrow> inv s'"
begin

lemma run_inv:
  assumes "init s" "step\<^sup>*\<^sup>* s s'"
  shows "inv s'"
  using assms(2,1) by (induction rule: rtranclp_induct) (auto intro: init_inv step_inv)

end

end
