(* ===== verification/Rangeset.thy ===== *)
theory Rangeset
  imports Xen_Prelude
begin

text \<open>
  Sets of machine numbers kept as ordered lists of ranges: \<open>xen/common/rangeset.c\<close>, and
  the I/O capabilities of a domain that are built on them (\<open>xen/include/xen/iocap.h\<close>).

  A \<open>struct range\<close> is a record of its two bounds, the linked list of a rangeset is a
  list of such records, and a pointer to a range is the position of that range in the
  list; \<open>NULL\<close> is \<open>None\<close>. Whether \<open>xmalloc\<close> finds memory is an argument of the
  operations that allocate. The lock of the rangeset is held for the whole of every
  operation, so an operation is one step. The operations on a range assert that its bounds are
  in order; the assertion is not a branch of the definitions, which are the build without assertions, but the hypothesis
  \<open>s \<le> e\<close> of the theorems.
\<close>

section \<open>Data\<close>

record range =
  rs :: ulong
  re :: ulong

record rangeset =
  range_list :: "range list"
  rname :: string
  rflags :: u32

section \<open>The linked list of ranges\<close>

text \<open>The highest range that starts at or below \<open>s\<close>.\<close>

fun find_range_from :: "range list \<Rightarrow> ulong \<Rightarrow> nat \<Rightarrow> nat option \<Rightarrow> nat option" where
  "find_range_from [] s i x = x"
| "find_range_from (y # ys) s i x =
     (if rs y > s then x else find_range_from ys s (Suc i) (Some i))"

definition find_range :: "range list \<Rightarrow> ulong \<Rightarrow> nat option" where
  "find_range r s = find_range_from r s 0 None"

definition first_range :: "range list \<Rightarrow> nat option" where
  "first_range r = (if r = [] then None else Some 0)"

definition next_range :: "range list \<Rightarrow> nat \<Rightarrow> nat option" where
  "next_range r x = (if Suc x < length r then Some (Suc x) else None)"

definition insert_range :: "range list \<Rightarrow> nat option \<Rightarrow> range \<Rightarrow> range list" where
  "insert_range r x y = insert_nth (case x of None \<Rightarrow> 0 | Some i \<Rightarrow> Suc i) y r"

definition destroy_range :: "range list \<Rightarrow> nat \<Rightarrow> range list" where
  "destroy_range r x = remove_nth x r"

text \<open>\<open>x->s = v\<close> and \<open>x->e = v\<close>.\<close>

definition set_s :: "range list \<Rightarrow> nat \<Rightarrow> ulong \<Rightarrow> range list" where
  "set_s r x v = r[x := (r ! x)\<lparr>rs := v\<rparr>]"

definition set_e :: "range list \<Rightarrow> nat \<Rightarrow> ulong \<Rightarrow> range list" where
  "set_e r x v = r[x := (r ! x)\<lparr>re := v\<rparr>]"

section \<open>Adding a range\<close>

text \<open>The loop that destroys the ranges after \<open>x\<close> that \<open>x\<close> now covers.\<close>

function absorb :: "range list \<Rightarrow> nat \<Rightarrow> range list" where
  "absorb r x =
     (case next_range r x of
        None \<Rightarrow> r
      | Some y \<Rightarrow> if re (r ! y) > re (r ! x) then r else absorb (destroy_range r y) x)"
  by pat_completeness auto
termination
  by (relation "measure (\<lambda>(r, x). length r)")
     (auto simp: next_range_def destroy_range_def split: if_splits)

declare absorb.simps [simp del]

text \<open>The end of the operation: join \<open>x\<close> with a range that follows it immediately.\<close>

definition join_next :: "range list \<Rightarrow> nat \<Rightarrow> range list" where
  "join_next r x =
     (case next_range r x of
        None \<Rightarrow> r
      | Some y \<Rightarrow>
          if re (r ! x) + 1 = rs (r ! y)
          then destroy_range (set_e r x (re (r ! y))) y
          else r)"

definition add_range_list :: "bool \<Rightarrow> range list \<Rightarrow> ulong \<Rightarrow> ulong \<Rightarrow> int \<times> range list" where
  "add_range_list mem r s e =
     (let x = find_range r s; y = find_range r e in
      if x = y then
        (case x of
           None \<Rightarrow>
             if \<not> mem then (- ENOMEM, r)
             else (0, join_next (insert_range r y \<lparr>rs = s, re = e\<rparr>) 0)
         | Some i \<Rightarrow>
             if re (r ! i) < s \<and> re (r ! i) + 1 \<noteq> s then
               if \<not> mem then (- ENOMEM, r)
               else (0, join_next (insert_range r y \<lparr>rs = s, re = e\<rparr>) (Suc i))
             else if re (r ! i) < e then (0, join_next (set_e r i e) i)
             else (0, join_next r i))
      else
        (let (r1, i) =
           (case x of
              None \<Rightarrow> (set_s r 0 s, 0)
            | Some i \<Rightarrow>
                if re (r ! i) < s \<and> re (r ! i) + 1 \<noteq> s
                then (set_s r (Suc i) s, Suc i)
                else (r, i));
             ye = re (r1 ! the y);
             r2 = set_e r1 i (if ye > e then ye else e)
         in (0, join_next (absorb r2 i) i)))"

definition rangeset_add_range :: "bool \<Rightarrow> rangeset \<Rightarrow> ulong \<Rightarrow> ulong \<Rightarrow> int \<times> rangeset" where
  "rangeset_add_range mem r s e =
     (let (rc, l) = add_range_list mem (range_list r) s e
      in (rc, r\<lparr>range_list := l\<rparr>))"

section \<open>Removing a range\<close>

text \<open>
  The loop \<open>while (x != y)\<close>: destroying the range at \<open>x\<close> moves every later range, \<open>y\<close>
  among them, one position down.
\<close>

fun destroy_until :: "range list \<Rightarrow> nat \<Rightarrow> nat \<Rightarrow> range list" where
  "destroy_until r x 0 = r"
| "destroy_until r x (Suc n) = destroy_until (destroy_range r x) x n"

definition remove_range_list :: "bool \<Rightarrow> range list \<Rightarrow> ulong \<Rightarrow> ulong \<Rightarrow> int \<times> range list" where
  "remove_range_list mem r s e =
     (let x = find_range r s; y = find_range r e in
      if x = y then
        (case x of
           None \<Rightarrow> (0, r)
         | Some i \<Rightarrow>
             let xs = rs (r ! i); xe = re (r ! i) in
             if xe < s then (0, r)
             else if xs < s \<and> xe > e then
               if \<not> mem then (- ENOMEM, r)
               else (0, insert_range (set_e r i (s - 1)) (Some i) \<lparr>rs = e + 1, re = xe\<rparr>)
             else if xs = s \<and> xe \<le> e then (0, destroy_range r i)
             else if xs = s then (0, set_s r i (e + 1))
             else if xe \<le> e then (0, set_e r i (s - 1))
             else (0, r))
      else
        (let i = (case x of None \<Rightarrow> 0 | Some i \<Rightarrow> i);
             j = the y;
             (r1, i1) = (if rs (r ! i) < s then (set_e r i (s - 1), Suc i) else (r, i));
             r2 = destroy_until r1 i1 (j - i1);
             r3 = set_s r2 i1 (e + 1)
         in (0, if rs (r3 ! i1) > re (r3 ! i1) then destroy_range r3 i1 else r3)))"

definition rangeset_remove_range ::
    "bool \<Rightarrow> rangeset \<Rightarrow> ulong \<Rightarrow> ulong \<Rightarrow> int \<times> rangeset" where
  "rangeset_remove_range mem r s e =
     (let (rc, l) = remove_range_list mem (range_list r) s e
      in (rc, r\<lparr>range_list := l\<rparr>))"

section \<open>Queries\<close>

definition rangeset_contains_range :: "rangeset \<Rightarrow> ulong \<Rightarrow> ulong \<Rightarrow> bool" where
  "rangeset_contains_range r s e =
     (case find_range (range_list r) s of
        None \<Rightarrow> False
      | Some x \<Rightarrow> re (range_list r ! x) \<ge> e)"

definition rangeset_add_singleton :: "bool \<Rightarrow> rangeset \<Rightarrow> ulong \<Rightarrow> int \<times> rangeset" where
  "rangeset_add_singleton mem r s = rangeset_add_range mem r s s"

definition rangeset_remove_singleton :: "bool \<Rightarrow> rangeset \<Rightarrow> ulong \<Rightarrow> int \<times> rangeset" where
  "rangeset_remove_singleton mem r s = rangeset_remove_range mem r s s"

definition rangeset_contains_singleton :: "rangeset \<Rightarrow> ulong \<Rightarrow> bool" where
  "rangeset_contains_singleton r s = rangeset_contains_range r s s"

definition rangeset_is_empty :: "rangeset option \<Rightarrow> bool" where
  "rangeset_is_empty r =
     (case r of None \<Rightarrow> True | Some r' \<Rightarrow> range_list r' = [])"

section \<open>Creating and destroying rangesets\<close>

text \<open>
  The rangesets of the machine: the live ones by address, the \<open>domain\<close> field of each, and
  the list \<open>rangesets\<close> of every domain. The address \<open>xmalloc\<close> returns is an argument,
  \<open>None\<close> when there is no memory.
\<close>

record rs_store =
  rs_heap :: "nat \<Rightarrow> rangeset option"
  rs_domain :: "nat \<Rightarrow> domid option"
  rangesets :: "domid \<Rightarrow> nat list"

definition rangeset_new ::
    "rs_store \<Rightarrow> nat option \<Rightarrow> domid option \<Rightarrow> string option \<Rightarrow> u32 \<Rightarrow> (rs_store \<times> nat option) outcome" where
  "rangeset_new st addr d name flags =
     (case addr of
        None \<Rightarrow> Done (st, None)
      | Some r \<Rightarrow>
          bug_on (flags AND NOT 1 \<noteq> 0)
            (let rset = \<lparr>range_list = [],
                         rname = (case name of Some n \<Rightarrow> take 31 n | None \<Rightarrow> ''(no name)''),
                         rflags = flags\<rparr>;
                 st1 = st\<lparr>rs_heap := (rs_heap st)(r := Some rset),
                          rs_domain := (rs_domain st)(r := d)\<rparr>;
                 st2 = (case d of
                          None \<Rightarrow> st1
                        | Some d' \<Rightarrow> st1\<lparr>rangesets := (rangesets st1)(d' := r # rangesets st1 d')\<rparr>)
             in Done (st2, Some r)))"

definition rangeset_destroy :: "rs_store \<Rightarrow> nat option \<Rightarrow> rs_store" where
  "rangeset_destroy st r =
     (case r of
        None \<Rightarrow> st
      | Some r' \<Rightarrow>
          let st1 = (case rs_domain st r' of
                       None \<Rightarrow> st
                     | Some d \<Rightarrow> st\<lparr>rangesets := (rangesets st)(d := remove1 r' (rangesets st d))\<rparr>)
          in st1\<lparr>rs_heap := (rs_heap st1)(r' := None)\<rparr>)"

definition rangeset_domain_initialise :: "rs_store \<Rightarrow> domid \<Rightarrow> rs_store" where
  "rangeset_domain_initialise st d = st\<lparr>rangesets := (rangesets st)(d := [])\<rparr>"

text \<open>One turn of the loop of \<open>rangeset_domain_destroy\<close> on the first rangeset of the list.\<close>

definition destroy_first :: "rs_store \<Rightarrow> domid \<Rightarrow> rs_store" where
  "destroy_first st d =
     (let r = hd (rangesets st d);
          st1 = st\<lparr>rs_domain := (rs_domain st)(r := None),
                   rangesets := (rangesets st)(d := tl (rangesets st d))\<rparr>
      in rangeset_destroy st1 (Some r))"

lemma rangesets_destroy_first [simp]:
  "rangesets (destroy_first st d) d = tl (rangesets st d)"
  by (simp add: destroy_first_def rangeset_destroy_def Let_def)

function rangeset_domain_destroy :: "rs_store \<Rightarrow> domid \<Rightarrow> rs_store outcome" where
  "rangeset_domain_destroy st d =
     (if rangesets st d = [] then Done st
      else bug_on (rs_domain st (hd (rangesets st d)) \<noteq> Some d)
             (rangeset_domain_destroy (destroy_first st d) d))"
  by pat_completeness auto
termination
  by (relation "measure (\<lambda>(st, d). length (rangesets st d))") auto

declare rangeset_domain_destroy.simps [simp del]

section \<open>I/O capabilities\<close>

text \<open>The capabilities of a domain, \<open>struct domain\<close>'s fields \<open>iomem_caps\<close> and \<open>irq_caps\<close>.\<close>

record iocap =
  iomem_caps :: rangeset
  irq_caps :: rangeset

definition iomem_permit_access :: "bool \<Rightarrow> 'a iocap_scheme \<Rightarrow> ulong \<Rightarrow> ulong \<Rightarrow> int \<times> 'a iocap_scheme" where
  "iomem_permit_access mem d s e =
     (let (rc, r) = rangeset_add_range mem (iomem_caps d) s e in (rc, d\<lparr>iomem_caps := r\<rparr>))"

definition iomem_deny_access :: "bool \<Rightarrow> 'a iocap_scheme \<Rightarrow> ulong \<Rightarrow> ulong \<Rightarrow> int \<times> 'a iocap_scheme" where
  "iomem_deny_access mem d s e =
     (let (rc, r) = rangeset_remove_range mem (iomem_caps d) s e in (rc, d\<lparr>iomem_caps := r\<rparr>))"

definition iomem_access_permitted :: "'a iocap_scheme \<Rightarrow> ulong \<Rightarrow> ulong \<Rightarrow> bool" where
  "iomem_access_permitted d s e = rangeset_contains_range (iomem_caps d) s e"

definition irq_permit_access :: "bool \<Rightarrow> 'a iocap_scheme \<Rightarrow> ulong \<Rightarrow> int \<times> 'a iocap_scheme" where
  "irq_permit_access mem d i =
     (let (rc, r) = rangeset_add_singleton mem (irq_caps d) i in (rc, d\<lparr>irq_caps := r\<rparr>))"

definition irq_deny_access :: "bool \<Rightarrow> 'a iocap_scheme \<Rightarrow> ulong \<Rightarrow> int \<times> 'a iocap_scheme" where
  "irq_deny_access mem d i =
     (let (rc, r) = rangeset_remove_singleton mem (irq_caps d) i in (rc, d\<lparr>irq_caps := r\<rparr>))"

definition irqs_permit_access :: "bool \<Rightarrow> 'a iocap_scheme \<Rightarrow> ulong \<Rightarrow> ulong \<Rightarrow> int \<times> 'a iocap_scheme" where
  "irqs_permit_access mem d s e =
     (let (rc, r) = rangeset_add_range mem (irq_caps d) s e in (rc, d\<lparr>irq_caps := r\<rparr>))"

definition irqs_deny_access :: "bool \<Rightarrow> 'a iocap_scheme \<Rightarrow> ulong \<Rightarrow> ulong \<Rightarrow> int \<times> 'a iocap_scheme" where
  "irqs_deny_access mem d s e =
     (let (rc, r) = rangeset_remove_range mem (irq_caps d) s e in (rc, d\<lparr>irq_caps := r\<rparr>))"

definition irq_access_permitted :: "'a iocap_scheme \<Rightarrow> ulong \<Rightarrow> bool" where
  "irq_access_permitted d i = rangeset_contains_singleton (irq_caps d) i"

definition multipage_allocation_permitted :: "'a iocap_scheme \<Rightarrow> bool" where
  "multipage_allocation_permitted d = (\<not> rangeset_is_empty (Some (iomem_caps d)))"

section \<open>The invariant and the set a rangeset stands for\<close>

text \<open>
  Ranges are not empty, and each starts more than one past the end of the range before it:
  neighbouring ranges are always joined.
\<close>

definition wf_ranges :: "range list \<Rightarrow> bool" where
  "wf_ranges r \<longleftrightarrow>
     (\<forall>x \<in> set r. rs x \<le> re x) \<and> sorted_wrt (\<lambda>x y. unat (re x) + 1 < unat (rs y)) r"

definition ranges_set :: "range list \<Rightarrow> ulong set" where
  "ranges_set r = (\<Union>x \<in> set r. {rs x..re x})"

lemma ranges_set_simps [simp]:
  "ranges_set [] = {}"
  "ranges_set (x # r) = {rs x..re x} \<union> ranges_set r"
  "ranges_set (r @ r') = ranges_set r \<union> ranges_set r'"
  by (auto simp: ranges_set_def)

lemma wf_ranges_Nil [simp]: "wf_ranges []"
  by (simp add: wf_ranges_def)

lemma wf_ranges_Cons:
  "wf_ranges (x # r) \<longleftrightarrow>
     rs x \<le> re x \<and> (\<forall>y \<in> set r. unat (re x) + 1 < unat (rs y)) \<and> wf_ranges r"
  by (auto simp: wf_ranges_def)

lemma wf_ranges_append:
  "wf_ranges (r @ r') \<longleftrightarrow>
     wf_ranges r \<and> wf_ranges r' \<and> (\<forall>x \<in> set r. \<forall>y \<in> set r'. unat (re x) + 1 < unat (rs y))"
  by (auto simp: wf_ranges_def sorted_wrt_append)

lemmas wf_ranges_iff = wf_ranges_Cons wf_ranges_append

subsection \<open>Finding a range\<close>

lemma find_range_from_takeWhile:
  "find_range_from r s i x =
     (let k = length (takeWhile (\<lambda>y. rs y \<le> s) r) in if k = 0 then x else Some (i + k - 1))"
  by (induction r s i x rule: find_range_from.induct) (auto simp: Let_def not_less)

lemma find_range_append:
  assumes "\<forall>y \<in> set a. rs y \<le> s" and "\<forall>y \<in> set b. s < rs y"
  shows "find_range (a @ b) s = (if a = [] then None else Some (length a - 1))"
proof -
  have "takeWhile (\<lambda>y. rs y \<le> s) (a @ b) = a"
    using assms by (cases b) (auto simp: takeWhile_append not_le)
  then show ?thesis
    by (simp add: find_range_def find_range_from_takeWhile)
qed

lemma wf_ranges_rs_mono:
  assumes "wf_ranges (x # r)" and "y \<in> set r"
  shows "rs x < rs y"
  using assms by (fastforce simp: wf_ranges_Cons word_nat)

lemma wf_ranges_split:
  assumes "wf_ranges r"
  obtains a b where "r = a @ b" "\<forall>y \<in> set a. rs y \<le> s" "\<forall>y \<in> set b. s < rs y"
proof -
  let ?P = "\<lambda>y. rs y \<le> s"
  have "\<forall>y \<in> set (dropWhile ?P r). s < rs y"
    using assms
  proof (induction r)
    case (Cons x r)
    show ?case
    proof (cases "rs x \<le> s")
      case True
      with Cons show ?thesis by (simp add: wf_ranges_Cons)
    next
      case False
      with wf_ranges_rs_mono [OF Cons.prems] show ?thesis
        by (auto simp: not_le intro: less_trans)
    qed
  qed simp
  moreover have "\<forall>y \<in> set (takeWhile ?P r). rs y \<le> s"
    by (meson set_takeWhileD)
  ultimately show ?thesis
    using that [of "takeWhile ?P r" "dropWhile ?P r"] by simp
qed

text \<open>The list around the bounds of an operation.\<close>

lemma wf_ranges_split2:
  assumes "wf_ranges r" and "s \<le> e"
  obtains a m c where "r = a @ m @ c"
    "\<forall>y \<in> set a. rs y \<le> s" "\<forall>y \<in> set m. s < rs y \<and> rs y \<le> e" "\<forall>y \<in> set c. e < rs y"
    "find_range r s = (if a = [] then None else Some (length a - 1))"
    "find_range r e = (if a @ m = [] then None else Some (length (a @ m) - 1))"
proof -
  obtain a b where ab: "r = a @ b" "\<forall>y \<in> set a. rs y \<le> s" "\<forall>y \<in> set b. s < rs y"
    using wf_ranges_split [OF assms(1)] by blast
  moreover from ab assms(1) have "wf_ranges b" by (simp add: wf_ranges_append)
  ultimately obtain m c where mc: "b = m @ c" "\<forall>y \<in> set m. rs y \<le> e" "\<forall>y \<in> set c. e < rs y"
    using wf_ranges_split [of b e] by blast
  show ?thesis
  proof (rule that [of a m c])
    show "find_range r s = (if a = [] then None else Some (length a - 1))"
      using find_range_append [of a s "m @ c"] ab mc by auto
    show "find_range r e = (if a @ m = [] then None else Some (length (a @ m) - 1))"
      using find_range_append [of "a @ m" e c] ab mc assms(2) by force
  qed (use ab mc in auto)
qed

subsection \<open>Adding\<close>

lemma next_range_append [simp]:
  "next_range (p @ x # c) (length p) = (if c = [] then None else Some (Suc (length p)))"
  by (auto simp: next_range_def neq_Nil_conv)

lemma set_s_append [simp]: "set_s (p @ x # c) (length p) v = p @ x\<lparr>rs := v\<rparr> # c"
  by (simp add: set_s_def)

lemma set_e_append [simp]: "set_e (p @ x # c) (length p) v = p @ x\<lparr>re := v\<rparr> # c"
  by (simp add: set_e_def)

lemma absorb_append:
  "absorb (p @ x # c) (length p) = p @ x # dropWhile (\<lambda>y. re y \<le> re x) c"
proof (induction c)
  case Nil
  then show ?case by (subst absorb.simps) simp
next
  case (Cons y c)
  then show ?case
    by (subst absorb.simps) (simp add: destroy_range_def not_less)
qed

lemma join_next_append:
  "join_next (p @ x # c) (length p) =
     (case c of [] \<Rightarrow> p @ [x]
      | y # c' \<Rightarrow> if re x + 1 = rs y then p @ x\<lparr>re := re y\<rparr> # c' else p @ x # c)"
  by (auto simp: join_next_def destroy_range_def split: list.split)

lemma insert_range_None [simp]: "insert_range c None y = y # c"
  by (simp add: insert_range_def insert_nth_def)

lemma insert_range_Some [simp]:
  "insert_range (p @ x # c) (Some (length p)) y = p @ x # y # c"
  by (simp add: insert_range_def)

text \<open>A range placed between lower and higher ranges, before it is joined with its successor.\<close>

definition placed :: "range list \<Rightarrow> range \<Rightarrow> range list \<Rightarrow> bool" where
  "placed p x c \<longleftrightarrow>
     wf_ranges p \<and> wf_ranges c \<and> rs x \<le> re x \<and>
     (\<forall>y \<in> set p. unat (re y) + 1 < unat (rs x)) \<and> (\<forall>y \<in> set c. re x < rs y)"

lemma join_next_placed:
  assumes "placed p x c"
  shows "wf_ranges (join_next (p @ x # c) (length p))"
    and "ranges_set (join_next (p @ x # c) (length p)) = ranges_set (p @ x # c)"
proof -
  show "wf_ranges (join_next (p @ x # c) (length p))"
  proof (cases c)
    case Nil
    with assms show ?thesis
      by (auto simp: join_next_append placed_def wf_ranges_iff)
  next
    case (Cons y c')
    have x: "re x < rs y" "rs y \<le> re y" using assms Cons by (auto simp: placed_def wf_ranges_iff)
    with unat_succ_less have "unat (re x + 1) = Suc (unat (re x))" by blast
    with assms Cons x show ?thesis
      by (fastforce simp: join_next_append placed_def wf_ranges_iff word_nat word_eq_unat)
  qed
  show "ranges_set (join_next (p @ x # c) (length p)) = ranges_set (p @ x # c)"
  proof (cases c)
    case Nil
    then show ?thesis by (simp add: join_next_append)
  next
    case (Cons y c')
    have x: "re x < rs y" "rs y \<le> re y" "rs x \<le> re x"
      using assms Cons by (auto simp: placed_def wf_ranges_iff)
    with unat_succ_less have "unat (re x + 1) = Suc (unat (re x))" by blast
    with x have "re x + 1 = rs y \<Longrightarrow> {rs x..re y} = {rs x..re x} \<union> {rs y..re y}"
      by (auto simp: word_nat word_eq_unat)
    with Cons show ?thesis by (auto simp: join_next_append)
  qed
qed

lemma wf_ranges_snocD:
  assumes "wf_ranges (a @ [x] @ c)"
  shows "rs x \<le> re x" "wf_ranges a" "wf_ranges c"
    "\<forall>y \<in> set a. unat (re y) + 1 < unat (rs x)" "\<forall>y \<in> set c. unat (re x) + 1 < unat (rs y)"
  using assms by (auto simp: wf_ranges_iff)

lemma add_range_same:
  assumes wf: "wf_ranges (a @ c)" and se: "s \<le> e" and mem
    and a: "\<forall>y \<in> set a. rs y \<le> s" and c: "\<forall>y \<in> set c. e < rs y"
    and fs: "find_range (a @ c) s = (if a = [] then None else Some (length a - 1))"
    and fe: "find_range (a @ c) e = (if a = [] then None else Some (length a - 1))"
  shows "\<exists>p x. add_range_list mem (a @ c) s e = (0, join_next (p @ x # c) (length p)) \<and>
    placed p x c \<and> ranges_set (p @ x # c) = ranges_set (a @ c) \<union> {s..e}"
proof (cases a rule: rev_cases)
  case Nil
  with assms show ?thesis
    by (intro exI [of _ "[]"] exI [of _ "\<lparr>rs = s, re = e\<rparr>"])
       (auto simp: add_range_list_def placed_def)
next
  case (snoc a' x)
  with wf have w: "rs x \<le> re x" "wf_ranges a'" "wf_ranges c"
    "\<forall>y \<in> set a'. unat (re y) + 1 < unat (rs x)" "\<forall>y \<in> set c. unat (re x) + 1 < unat (rs y)"
    using wf_ranges_snocD [of a' x c] by auto
  from a snoc have xs: "rs x \<le> s" by simp
  consider (gap) "re x < s" "re x + 1 \<noteq> s" | (extend) "re x < e" "\<not> (re x < s \<and> re x + 1 \<noteq> s)"
    | (inside) "\<not> re x < e" by blast
  then show ?thesis
  proof cases
    case gap
    then have "unat (re x) + 1 < unat s"
      using unat_succ_less [of "re x" s] by (auto simp: word_nat word_eq_unat)
    moreover from this w have "wf_ranges (a' @ [x])"
      by (auto simp: wf_ranges_iff)
    ultimately have "placed (a' @ [x]) \<lparr>rs = s, re = e\<rparr> c"
      using w xs se c by (force simp: placed_def word_nat)
    with snoc gap fs fe \<open>mem\<close> show ?thesis
      by (intro exI [of _ "a' @ [x]"] exI [of _ "\<lparr>rs = s, re = e\<rparr>"])
         (auto simp: add_range_list_def)
  next
    case extend
    then have ext: "unat s \<le> unat (re x) + 1"
      using unat_succ_less [of "re x" s] by (auto simp: word_nat word_eq_unat)
    with w xs se c have "placed a' (x\<lparr>re := e\<rparr>) c"
      by (auto simp: placed_def word_nat)
    moreover have "{rs x..e} = {rs x..re x} \<union> {s..e}"
      using ext xs w(1) extend(1) by (auto simp: word_nat)
    ultimately show ?thesis
      using snoc extend fs fe
      by (intro exI [of _ "a'"] exI [of _ "x\<lparr>re := e\<rparr>"])
         (auto simp: add_range_list_def)
  next
    case inside
    with w xs se c have "placed a' x c"
      by (fastforce simp: placed_def word_nat)
    moreover have "{s..e} \<subseteq> {rs x..re x}"
      using inside xs by (auto simp: word_nat)
    moreover have "\<not> re x < s"
      using inside se by (auto simp: word_nat)
    ultimately show ?thesis
      using snoc inside fs fe
      by (intro exI [of _ "a'"] exI [of _ "x"])
         (auto simp: add_range_list_def)
  qed
qed

lemma wf_ranges_re_le_last:
  assumes "wf_ranges m" and "y \<in> set m"
  shows "re y \<le> re (last m)"
  using assms
  by (cases m rule: rev_cases) (fastforce simp: wf_ranges_iff word_nat)+

text \<open>The ranges of \<open>m\<close> start within the new range; its end covers all of them.\<close>

lemma absorb_covered:
  assumes wf: "wf_ranges (m @ c)" and m: "m \<noteq> []" and c: "\<forall>y \<in> set c. e < rs y"
    and ex: "re x = (if re (last m) > e then re (last m) else e)"
  shows "absorb (p @ x # m @ c) (length p) = p @ x # c"
    and "absorb (p @ x # tl m @ c) (length p) = p @ x # c"
    and "\<forall>y \<in> set c. re x < rs y"
proof -
  have "re x < rs y \<and> rs y \<le> re y" if "y \<in> set c" for y
  proof -
    from m have "last m \<in> set m" by simp
    with wf that have "unat (re (last m)) + 1 < unat (rs y)"
      by (auto simp: wf_ranges_append)
    moreover from wf that have "rs y \<le> re y"
      by (simp add: wf_ranges_def)
    ultimately show ?thesis using c that ex by (auto simp: word_nat)
  qed
  then show c1: "\<forall>y \<in> set c. re x < rs y" by blast
  have "re y \<le> re x" if "y \<in> set m" for y
    using wf_ranges_re_le_last [of m y] wf that ex by (auto simp: wf_ranges_append word_nat)
  moreover have "dropWhile (\<lambda>y. re y \<le> re x) c = c"
  proof (cases c)
    case (Cons y c')
    with \<open>\<And>y. y \<in> set c \<Longrightarrow> re x < rs y \<and> rs y \<le> re y\<close> have "\<not> re y \<le> re x"
      by (force simp: word_nat)
    with Cons show ?thesis by simp
  qed simp
  moreover have "set (tl m) \<subseteq> set m" by (cases m) auto
  ultimately show "absorb (p @ x # m @ c) (length p) = p @ x # c"
    "absorb (p @ x # tl m @ c) (length p) = p @ x # c"
    by (auto simp: absorb_append dropWhile_append subset_iff)
qed

lemma ranges_set_bounds:
  assumes "wf_ranges m" and "m \<noteq> []" and "\<forall>y \<in> set m. s \<le> rs y" 
    and "E = (if re (last m) > e then re (last m) else e)"
    and "\<forall>y \<in> set m. rs y \<le> e"
  shows "{s..E} = ranges_set m \<union> {s..e}"
proof -
  have "re y \<le> E" if "y \<in> set m" for y
    using wf_ranges_re_le_last [of m y] assms that by (auto simp: word_nat)
  then have "ranges_set m \<union> {s..e} \<subseteq> {s..E}"
    using assms(3,4) by (fastforce simp: ranges_set_def word_nat)
  moreover have "last m \<in> set m" using assms(2) by simp
  then have "v \<in> ranges_set m" if "e < v" "v \<le> E" for v
    using assms(4,5) that by (auto simp: ranges_set_def word_nat split: if_splits intro!: bexI)
  then have "{s..E} \<subseteq> ranges_set m \<union> {s..e}"
    by (auto simp: not_le)
  ultimately show ?thesis by blast
qed

lemma add_range_across:
  assumes wf: "wf_ranges (a @ m @ c)" and se: "s \<le> e" and m: "m \<noteq> []"
    and a: "\<forall>y \<in> set a. rs y \<le> s" and ms: "\<forall>y \<in> set m. s < rs y \<and> rs y \<le> e"
    and c: "\<forall>y \<in> set c. e < rs y"
    and fs: "find_range (a @ m @ c) s = (if a = [] then None else Some (length a - 1))"
    and fe: "find_range (a @ m @ c) e = Some (length (a @ m) - 1)"
  shows "\<exists>p x. add_range_list mem (a @ m @ c) s e = (0, join_next (p @ x # c) (length p)) \<and>
    placed p x c \<and> ranges_set (p @ x # c) = ranges_set (a @ m @ c) \<union> {s..e}"
proof -
  obtain h t where h: "m = h # t" using m by (cases m) auto
  define E where "E = (if re (last m) > e then re (last m) else e)"
  have wfm: "wf_ranges m" "wf_ranges (m @ c)" "wf_ranges c" "wf_ranges a"
    using wf by (auto simp: wf_ranges_append)
  have E: "{s..E} = ranges_set m \<union> {s..e}"
    using ranges_set_bounds [OF wfm(1) m _ E_def] ms by (force simp: word_nat)
  have cE: "\<forall>y \<in> set c. E < rs y"
    using absorb_covered(3) [OF wfm(2) m c, of "\<lparr>rs = s, re = E\<rparr>"] E_def by simp
  have sE: "s \<le> E" using se E_def by (auto simp: word_nat)
  have last_re: "re ((a @ h\<lparr>rs := s\<rparr> # t @ c) ! (length (a @ m) - 1)) = re (last m)"
  proof (cases t rule: rev_cases)
    case (snoc t' z)
    then show ?thesis by (simp add: h nth_append nth_Cons')
  qed (simp add: h nth_append)
  have last_re': "re ((a @ m @ c) ! (length (a @ m) - 1)) = re (last m)"
  proof (cases m rule: rev_cases)
    case (snoc t' z)
    then show ?thesis by (simp add: nth_append)
  qed (simp add: h)
  consider (new) "a = [] \<or> re (last a) < s \<and> re (last a) + 1 \<noteq> s"
    | (old) "a \<noteq> []" "\<not> (re (last a) < s \<and> re (last a) + 1 \<noteq> s)" by blast
  then show ?thesis
  proof cases
    case new
    define x where "x = h\<lparr>rs := s, re := E\<rparr>"
    have "absorb (a @ x # t @ c) (length a) = a @ x # c"
      using absorb_covered(2) [OF wfm(2) m c, of x a] by (simp add: x_def E_def h)
    moreover have "placed a x c"
    proof -
      have "unat (re y) + 1 < unat s" if "y \<in> set a" for y
      proof -
        have "unat (re (last a)) + 1 < unat s" if "a \<noteq> []"
          using new that unat_succ_less [of "re (last a)" s] by (auto simp: word_nat word_eq_unat)
        moreover have "re y \<le> re (last a)"
          using wf_ranges_re_le_last [OF wfm(4) that] .
        ultimately show ?thesis using that by (fastforce simp: word_nat)
      qed
      with wfm cE sE show ?thesis by (simp add: placed_def x_def)
    qed
    moreover have "add_range_list mem (a @ m @ c) s e = (0, join_next (absorb (a @ x # t @ c) (length a)) (length a))"
    proof (cases a rule: rev_cases)
      case Nil
      with fs fe m last_re show ?thesis
        by (simp add: add_range_list_def h x_def E_def set_s_def set_e_def)
    next
      case (snoc a' z)
      with new fs fe m last_re show ?thesis
        by (simp add: add_range_list_def h x_def E_def set_s_def set_e_def nth_append list_update_append)
    qed
    ultimately show ?thesis
      using E by (intro exI [of _ a] exI [of _ x]) (auto simp: x_def)
  next
    case old
    then obtain a' z where z: "a = a' @ [z]" by (cases a rule: rev_cases) auto
    define x where "x = z\<lparr>re := E\<rparr>"
    have w: "rs z \<le> re z" "wf_ranges a'" "\<forall>y \<in> set a'. unat (re y) + 1 < unat (rs z)"
      "\<forall>y \<in> set m. unat (re z) + 1 < unat (rs y)"
      using wf by (auto simp: z wf_ranges_iff)
    have "absorb (a' @ x # m @ c) (length a') = a' @ x # c"
      using absorb_covered(1) [OF wfm(2) m c, of x a'] by (simp add: x_def E_def)
    moreover have "rs z \<le> s" using a z by simp
    moreover from this have "placed a' x c"
      using w cE sE wfm by (auto simp: placed_def x_def word_nat)
    moreover have "add_range_list mem (a @ m @ c) s e = (0, join_next (absorb (a' @ x # m @ c) (length a')) (length a'))"
      using old fs fe m last_re' 
      by (auto simp add: z add_range_list_def x_def E_def nth_append)
    moreover have "{rs z..E} = {rs z..re z} \<union> {s..E}"
    proof -
      have "unat s \<le> unat (re z) + 1"
        using old z unat_succ_less [of "re z" s] by (auto simp: word_nat word_eq_unat)
      moreover have "re z \<le> E"
        using w(4) m h ms E_def wf_ranges_re_le_last[OF wfm(1)] wfm by (force simp: word_nat)
      ultimately show ?thesis using \<open>rs z \<le> s\<close> by (auto simp: word_nat)
    qed
    ultimately show ?thesis
      using E by (intro exI [of _ a'] exI [of _ x]) (auto simp: x_def z)
  qed
qed

lemma add_range_list_cases:
  assumes "wf_ranges r" and "s \<le> e"
  obtains (added) p x c where "add_range_list mem r s e = (0, join_next (p @ x # c) (length p))"
      "placed p x c" "ranges_set (p @ x # c) = ranges_set r \<union> {s..e}"
    | (nomem) "\<not> mem" "add_range_list mem r s e = (- ENOMEM, r)"
proof -
  obtain a m c where r: "r = a @ m @ c"
    "\<forall>y \<in> set a. rs y \<le> s" "\<forall>y \<in> set m. s < rs y \<and> rs y \<le> e" "\<forall>y \<in> set c. e < rs y"
    "find_range r s = (if a = [] then None else Some (length a - 1))"
    "find_range r e = (if a @ m = [] then None else Some (length (a @ m) - 1))"
    using wf_ranges_split2 [OF assms] by blast
  show ?thesis
  proof (cases "m = []")
    case True
    have "add_range_list mem r s e = add_range_list True r s e \<or>
          \<not> mem \<and> add_range_list mem r s e = (- ENOMEM, r)"
      by (cases mem) (auto simp: add_range_list_def Let_def split: option.splits)
    moreover have "\<exists>p x. add_range_list True r s e = (0, join_next (p @ x # c) (length p)) \<and>
        placed p x c \<and> ranges_set (p @ x # c) = ranges_set r \<union> {s..e}"
      using add_range_same [of a c s e True] True r assms by simp
    ultimately show ?thesis using added nomem by metis
  next
    case False
    then have "\<exists>p x. add_range_list mem r s e = (0, join_next (p @ x # c) (length p)) \<and>
        placed p x c \<and> ranges_set (p @ x # c) = ranges_set r \<union> {s..e}"
      using add_range_across [of a m c s e mem] r assms by simp
    then show ?thesis using added by metis
  qed
qed

lemma add_range_list_correct:
  assumes "wf_ranges r" and "s \<le> e" and "add_range_list mem r s e = (rc, r')"
  shows "wf_ranges r'"
    and "rc = 0 \<and> ranges_set r' = ranges_set r \<union> {s..e} \<or> rc = - ENOMEM \<and> \<not> mem \<and> r' = r"
proof -
  show "wf_ranges r'"
    by (rule add_range_list_cases [OF assms(1,2), of mem])
       (use assms join_next_placed in auto)
  show "rc = 0 \<and> ranges_set r' = ranges_set r \<union> {s..e} \<or> rc = - ENOMEM \<and> \<not> mem \<and> r' = r"
    by (rule add_range_list_cases [OF assms(1,2), of mem])
       (use assms(3) join_next_placed in auto)
qed

subsection \<open>Queries\<close>

lemma find_range_member:
  assumes wf: "wf_ranges r"
  shows "(case find_range r s of None \<Rightarrow> False | Some x \<Rightarrow> e \<le> re (r ! x)) \<and> s \<le> e
     \<longleftrightarrow> s \<le> e \<and> {s..e} \<subseteq> ranges_set r"
proof -
  obtain a b where r: "r = a @ b" "\<forall>y \<in> set a. rs y \<le> s" "\<forall>y \<in> set b. s < rs y"
    using wf_ranges_split [OF wf] by blast
  have fr: "find_range r s = (if a = [] then None else Some (length a - 1))"
    using find_range_append r by auto
  show ?thesis
  proof (cases a rule: rev_cases)
    case Nil
    with r fr show ?thesis by (fastforce simp: ranges_set_def word_nat)
  next
    case (snoc a' x)
    have w: "\<forall>y \<in> set a'. unat (re y) + 1 < unat (rs x)" "\<forall>y \<in> set b. unat (re x) + 1 < unat (rs y)"
      using wf r snoc by (auto simp: wf_ranges_iff)
    have "e \<le> re x" if "s \<le> e" "{s..e} \<subseteq> ranges_set r"
    proof (rule ccontr)
      assume "\<not> e \<le> re x"
      define v where "v = (if re x < s then s else re x + 1)"
      have "unat (re x + 1) = Suc (unat (re x))"
        using unat_succ_less [of "re x" e] \<open>\<not> e \<le> re x\<close> by auto
      with \<open>\<not> e \<le> re x\<close> that have v: "s \<le> v" "v \<le> e" "re x < v" "v = s \<or> unat v = Suc (unat (re x))"
        by (auto simp: v_def word_nat)
      with that obtain y where y: "y \<in> set r" "rs y \<le> v" "v \<le> re y"
        by (force simp: ranges_set_def)
      from y r snoc consider "y \<in> set a'" | "y = x" | "y \<in> set b" by auto
      then show False
      proof cases
        case 1
        with w y v r snoc have "unat (re y) < unat (rs x)" "rs x \<le> s" by fastforce+
        with y v show ?thesis by (auto simp: word_nat)
      next
        case 2
        with y v show ?thesis by (auto simp: word_nat)
      next
        case 3
        with w r have "unat (re x) + 1 < unat (rs y)" "s < rs y" by auto
        with y v show ?thesis by (auto simp: word_nat)
      qed
    qed
    moreover have "{s..e} \<subseteq> ranges_set r" if "e \<le> re x"
      using that r snoc by (force simp: ranges_set_def word_nat)
    ultimately show ?thesis using snoc fr r by (auto simp: nth_append)
  qed
qed

subsection \<open>Removing\<close>

lemma destroy_until_append: "destroy_until (p @ q @ c) (length p) (length q) = p @ c"
  by (induction q) (simp_all add: destroy_range_def)

text \<open>What removing leaves of the last range that starts within the bounds.\<close>

definition cut_head :: "ulong \<Rightarrow> range \<Rightarrow> range list" where
  "cut_head e y = (if e + 1 > re y then [] else [y\<lparr>rs := e + 1\<rparr>])"

lemma remove_range_across:
  assumes wf: "wf_ranges (a @ m @ c)" and m: "m \<noteq> []"
    and ms: "\<forall>y \<in> set m. s < rs y \<and> rs y \<le> e"
    and fs: "find_range (a @ m @ c) s = (if a = [] then None else Some (length a - 1))"
    and fe: "find_range (a @ m @ c) e = Some (length (a @ m) - 1)"
  shows "remove_range_list mem (a @ m @ c) s e =
    (0, (if a = [] then [] else if rs (last a) < s then butlast a @ [(last a)\<lparr>re := s - 1\<rparr>]
         else butlast a) @ cut_head e (last m) @ c)"
proof -
  obtain m' y where y: "m = m' @ [y]" using m by (cases m rule: rev_cases) auto
  show ?thesis
  proof (cases a rule: rev_cases)
    case Nil
    have "\<not> rs ((m @ c) ! 0) < s" using ms m by (cases m) (auto simp: word_nat)
    with fs fe m Nil y destroy_until_append [of "[]" m' "y # c"] show ?thesis
      by (simp add: remove_range_list_def set_s_def cut_head_def destroy_range_def remove_nth_def Let_def)
  next
    case (snoc a' z)
    have du1: "destroy_until (a' @ z\<lparr>re := s - 1\<rparr> # m' @ y # c) (Suc (length a')) (length m') =
      a' @ z\<lparr>re := s - 1\<rparr> # y # c"
      using destroy_until_append [of "a' @ [z\<lparr>re := s - 1\<rparr>]" m' "y # c"] by simp
    have du2: "destroy_until (a' @ z # m' @ y # c) (length a') (Suc (length m')) = a' @ y # c"
      using destroy_until_append [of a' "z # m'" "y # c"] by simp
    show ?thesis
    proof (cases "rs z < s")
      case True
      with fs fe m snoc y du1 show ?thesis
        by (simp add: remove_range_list_def set_s_def cut_head_def destroy_range_def remove_nth_def
            nth_append list_update_append)
    next
      case False
      with fs fe m snoc y du2 show ?thesis
        by (simp add: remove_range_list_def set_s_def cut_head_def destroy_range_def remove_nth_def
            nth_append list_update_append)
    qed
  qed
qed

text \<open>
  The numbers between the range below \<open>s\<close> and \<open>s\<close> itself, when a later range starts
  within the bounds.
\<close>

definition gap_below :: "range list \<Rightarrow> ulong \<Rightarrow> ulong \<Rightarrow> ulong set" where
  "gap_below r s e =
     (case find_range r s of
        None \<Rightarrow> {}
      | Some i \<Rightarrow>
          if find_range r s \<noteq> find_range r e \<and> rs (r ! i) < s
          then {v. re (r ! i) < v \<and> v < s} else {})"

text \<open>No number of the ranges around an operation lies within its bounds.\<close>

lemma ranges_set_above:
  assumes "wf_ranges c" and "\<forall>y \<in> set c. (e::ulong) < rs y"
  shows "ranges_set c - {s..e} = ranges_set c"
  using assms by (fastforce simp: ranges_set_def word_nat)

lemma ranges_set_below:
  assumes "\<forall>y \<in> set a. re y < s"
  shows "ranges_set a - {s..e} = ranges_set a"
  using assms by (fastforce simp: ranges_set_def word_nat)

text \<open>Ranges within the bounds of a range can take its place.\<close>

lemma wf_ranges_replace:
  assumes "wf_ranges (a @ x # c)" and "wf_ranges m"
    and "\<forall>y \<in> set m. rs x \<le> rs y \<and> re y \<le> re x"
  shows "wf_ranges (a @ m @ c)"
proof -
  have "unat (re y) + 1 < unat (rs z)" if "y \<in> set a" "z \<in> set m" for y z
  proof -
    from assms that have "unat (re y) + 1 < unat (rs x)" "unat (rs x) \<le> unat (rs z)"
      by (auto simp: wf_ranges_iff word_nat)
    then show ?thesis by linarith
  qed
  moreover have "unat (re y) + 1 < unat (rs z)" if "y \<in> set m" "z \<in> set c" for y z
  proof -
    from assms that have "unat (re x) + 1 < unat (rs z)" "unat (re y) \<le> unat (re x)"
      by (auto simp: wf_ranges_iff word_nat)
    then show ?thesis by linarith
  qed
  ultimately show ?thesis using assms by (auto simp: wf_ranges_iff)
qed

lemma remove_range_same:
  assumes wf: "wf_ranges (a @ c)" and se: "s \<le> e"
    and a: "\<forall>y \<in> set a. rs y \<le> s" and c: "\<forall>y \<in> set c. e < rs y"
    and fs: "find_range (a @ c) s = (if a = [] then None else Some (length a - 1))"
    and fe: "find_range (a @ c) e = (if a = [] then None else Some (length a - 1))"
    and res: "remove_range_list mem (a @ c) s e = (rc, r')"
  shows "rc = - ENOMEM \<and> \<not> mem \<and> r' = a @ c \<or>
    rc = 0 \<and> wf_ranges r' \<and> ranges_set r' = ranges_set (a @ c) - {s..e}"
proof (cases a rule: rev_cases)
  case Nil
  with assms ranges_set_above [of c e s] show ?thesis
    by (auto simp: remove_range_list_def)
next
  case (snoc a' x)
  with wf have w: "rs x \<le> re x" "wf_ranges a'" "wf_ranges c"
    "\<forall>y \<in> set a'. unat (re y) + 1 < unat (rs x)" "\<forall>y \<in> set c. unat (re x) + 1 < unat (rs y)"
    using wf_ranges_snocD [of a' x c] by auto
  from a snoc have xs: "rs x \<le> s" by simp
  have C: "ranges_set c - {s..e} = ranges_set c"
    using ranges_set_above [OF w(3) c] .
  have A: "ranges_set a' - {s..e} = ranges_set a'"
    using ranges_set_below [of a' s e] w(4) xs by (force simp: word_nat)
  have set_eq: "ranges_set (a @ c) - {s..e} = ranges_set a' \<union> ({rs x..re x} - {s..e}) \<union> ranges_set c"
    using A C snoc by auto
  have fs': "find_range (a' @ x # c) s = Some (length a')" "find_range (a' @ x # c) e = Some (length a')"
    using fs fe snoc by simp_all
  consider (outside) "re x < s" | (split) "\<not> re x < s" "rs x < s" "e < re x"
    | (all) "rs x = s" "re x \<le> e" | (head) "rs x = s" "e < re x" | (tail) "rs x < s" "re x \<le> e" "\<not> re x < s"
    using xs by (metis order_le_less not_le)
  then show ?thesis
  proof cases
    case outside
    then have D: "{rs x..re x} - {s..e} = {rs x..re x}" by auto
    have "remove_range_list mem (a @ c) s e = (0, a @ c)"
      using outside snoc fs' by (simp add: remove_range_list_def)
    with res have "rc = 0" "r' = a' @ x # c" using snoc by simp_all
    then show ?thesis unfolding set_eq D using wf snoc by (simp add: Un_assoc)
  next
    case split
    then have nat: "unat (e + 1) = Suc (unat e)" "unat (s - 1) = unat s - 1" "0 < unat s"
      using unat_succ_less [of e "re x"] unat_pred [of s] by (auto simp: word_nat)
    have "{rs x..re x} - {s..e} = {rs x..s - 1} \<union> {e + 1..re x}"
      using split se nat by (auto simp: word_nat)
    moreover have "wf_ranges (a' @ [x\<lparr>re := s - 1\<rparr>, \<lparr>rs = e + 1, re = re x\<rparr>] @ c)"
      by (rule wf_ranges_replace [of a' x]) (use wf snoc split nat se in \<open>auto simp: wf_ranges_Cons word_nat\<close>)
    moreover have "remove_range_list mem (a @ c) s e = (if mem
      then (0, a' @ [x\<lparr>re := s - 1\<rparr>, \<lparr>rs = e + 1, re = re x\<rparr>] @ c) else (- ENOMEM, a @ c))"
      using split snoc fs' by (simp add: remove_range_list_def)
    moreover from this res have "mem \<Longrightarrow> rc = 0" "\<not> mem \<Longrightarrow> rc = - ENOMEM \<and> r' = a @ c"
      "mem \<Longrightarrow> r' = a' @ [x\<lparr>re := s - 1\<rparr>, \<lparr>rs = e + 1, re = re x\<rparr>] @ c"
      by simp_all
    ultimately show ?thesis
      unfolding set_eq by (cases mem) (simp_all add: Un_assoc)
  next
    case all
    then have D: "{rs x..re x} - {s..e} = {}" by auto
    have "wf_ranges (a' @ [] @ c)"
      by (rule wf_ranges_replace [of a' x]) (use wf snoc in auto)
    moreover have "\<not> re x < s" using all w by auto
    then have "remove_range_list mem (a @ c) s e = (0, a' @ [] @ c)"
      using all snoc fs' by (simp add: remove_range_list_def destroy_range_def)
    ultimately show ?thesis unfolding set_eq D using res by simp
  next
    case head
    then have nat: "unat (e + 1) = Suc (unat e)"
      using unat_succ_less [of e "re x"] by auto
    have "{rs x..re x} - {s..e} = {e + 1..re x}"
      using head se nat by (auto simp: word_nat)
    moreover have "wf_ranges (a' @ [x\<lparr>rs := e + 1\<rparr>] @ c)"
      by (rule wf_ranges_replace [of a' x]) (use wf snoc head nat se in \<open>auto simp: wf_ranges_Cons word_nat\<close>)
    moreover have "\<not> re x < s" "\<not> re x \<le> e" using head w by auto
    then have "remove_range_list mem (a @ c) s e = (0, a' @ [x\<lparr>rs := e + 1\<rparr>] @ c)"
      using head snoc fs' by (simp add: remove_range_list_def)
    ultimately show ?thesis using set_eq res by (simp add: Un_assoc)
  next
    case tail
    then have nat: "unat (s - 1) = unat s - 1" "0 < unat s"
      using unat_pred [of s] by (auto simp: word_nat)
    have "{rs x..re x} - {s..e} = {rs x..s - 1}"
      using tail se nat by (auto simp: word_nat)
    moreover have "wf_ranges (a' @ [x\<lparr>re := s - 1\<rparr>] @ c)"
      by (rule wf_ranges_replace [of a' x]) (use wf snoc tail nat se in \<open>auto simp: wf_ranges_Cons word_nat\<close>)
    moreover have "\<not> e < re x" "rs x \<noteq> s" using tail by auto
    then have "remove_range_list mem (a @ c) s e = (0, a' @ [x\<lparr>re := s - 1\<rparr>] @ c)"
      using tail snoc fs' by (simp add: remove_range_list_def)
    ultimately show ?thesis using set_eq res by (simp add: Un_assoc)
  qed
qed

text \<open>The ranges below the bounds, with the last of them cut off or stretched to \<open>s - 1\<close>.\<close>

lemma truncate_cut:
  assumes wf: "wf_ranges (a @ [x])" and xs: "rs x < s" and se: "s \<le> e" and xe: "re x \<le> e"
  shows "wf_ranges (a @ [x\<lparr>re := s - 1\<rparr>])" and "\<forall>y \<in> set (a @ [x\<lparr>re := s - 1\<rparr>]). re y < s"
    and "ranges_set (a @ [x\<lparr>re := s - 1\<rparr>]) =
      (ranges_set (a @ [x]) - {s..e}) \<union> {v. re x < v \<and> v < s}"
proof -
  have nat: "unat (s - 1) = unat s - 1" "0 < unat s"
    using unat_pred [of s] xs by (auto simp: word_nat)
  show "wf_ranges (a @ [x\<lparr>re := s - 1\<rparr>])"
    using wf xs nat by (auto simp: wf_ranges_iff word_nat)
  show b: "\<forall>y \<in> set (a @ [x\<lparr>re := s - 1\<rparr>]). re y < s"
    using wf xs nat by (force simp: wf_ranges_iff word_nat)
  then have "ranges_set a - {s..e} = ranges_set a"
    using ranges_set_below [of a s e] by simp
  moreover have "{rs x..s - 1} = ({rs x..re x} - {s..e}) \<union> {v. re x < v \<and> v < s}"
    using wf xs nat xe by (auto simp: wf_ranges_iff word_nat)
  ultimately show "ranges_set (a @ [x\<lparr>re := s - 1\<rparr>]) =
      (ranges_set (a @ [x]) - {s..e}) \<union> {v. re x < v \<and> v < s}"
    by auto
qed

lemma truncate_drop:
  assumes wf: "wf_ranges (a @ [x])" and xs: "rs x = s" and xe: "re x \<le> e"
  shows "wf_ranges a" and "\<forall>y \<in> set a. re y < s"
    and "ranges_set a = ranges_set (a @ [x]) - {s..e}"
proof -
  show "wf_ranges a" using wf by (simp add: wf_ranges_append)
  show "\<forall>y \<in> set a. re y < s"
    using wf xs by (force simp: wf_ranges_iff word_nat)
  then have "ranges_set a - {s..e} = ranges_set a"
    by (rule ranges_set_below)
  moreover have D: "{rs x..re x} - {s..e} = {}"
    using xs xe by auto
  ultimately show "ranges_set a = ranges_set (a @ [x]) - {s..e}"
    unfolding ranges_set_simps Un_Diff D by simp
qed

lemma remove_range_correct:
  assumes wf: "wf_ranges r" and se: "s \<le> e"
    and top: "e \<noteq> - 1 \<or> find_range r s = find_range r e"
    and res: "remove_range_list mem r s e = (rc, r')"
  shows "rc = - ENOMEM \<and> \<not> mem \<and> r' = r \<or>
    rc = 0 \<and> wf_ranges r' \<and> ranges_set r' = (ranges_set r - {s..e}) \<union> gap_below r s e"
proof -
  obtain a m c where r: "r = a @ m @ c"
    and a: "\<forall>y \<in> set a. rs y \<le> s" and ms: "\<forall>y \<in> set m. s < rs y \<and> rs y \<le> e"
    and c: "\<forall>y \<in> set c. e < rs y"
    and fs: "find_range r s = (if a = [] then None else Some (length a - 1))"
    and fe: "find_range r e = (if a @ m = [] then None else Some (length (a @ m) - 1))"
    using wf_ranges_split2 [OF wf se] by blast
  show ?thesis
  proof (cases "m = []")
    case True
    then have "find_range r s = find_range r e" using fs fe by simp
    then have "gap_below r s e = {}" by (simp add: gap_below_def split: option.split)
    moreover have "rc = - ENOMEM \<and> \<not> mem \<and> r' = a @ c \<or>
      rc = 0 \<and> wf_ranges r' \<and> ranges_set r' = ranges_set (a @ c) - {s..e}"
      using remove_range_same [of a c s e mem rc r'] True a c fs fe wf se res r by simp
    ultimately show ?thesis using r True by simp
  next
    case False
    then obtain m' y where y: "m = m' @ [y]" by (cases m rule: rev_cases) auto
    have ne: "find_range r s \<noteq> find_range r e" using False fs fe by (cases a) (auto simp: y)
    with top have e1: "unat (e + 1) = Suc (unat e)"
      using unat_succ_less [of e "- 1"] by (metis order_le_imp_less_or_eq word_n1_ge)
    define h where "h = (if a = [] then [] else if rs (last a) < s
      then butlast a @ [(last a)\<lparr>re := s - 1\<rparr>] else butlast a)"
    have res': "rc = 0" "r' = h @ cut_head e y @ c"
      using remove_range_across [of a m c s e mem] wf False ms fs fe res r
      by (simp_all add: h_def y)
    have wfs: "wf_ranges a" "wf_ranges m'" "wf_ranges c" "rs y \<le> re y"
      "\<forall>z \<in> set c. unat (re y) + 1 < unat (rs z)" "\<forall>z \<in> set m'. unat (re z) + 1 < unat (rs y)"
      using wf r by (auto simp: y wf_ranges_iff)
    have ys: "s < rs y" "rs y \<le> e" using ms y by auto
    have M: "ranges_set m' \<subseteq> {s..e}"
      using ms wfs(6) ys by (fastforce simp: y ranges_set_def word_nat)
    have Y: "ranges_set (cut_head e y) = {rs y..re y} - {s..e}" "wf_ranges (cut_head e y)"
      using e1 ys wfs(4) by (auto simp: cut_head_def word_nat wf_ranges_iff)
    have C: "ranges_set c - {s..e} = ranges_set c"
      by (rule ranges_set_above [OF wfs(3) c])
    have H: "wf_ranges h \<and> (\<forall>x \<in> set h. re x < s) \<and>
      ranges_set h = (ranges_set a - {s..e}) \<union> gap_below r s e"
    proof (cases a rule: rev_cases)
      case Nil
      then show ?thesis using fs by (simp add: h_def gap_below_def)
    next
      case (snoc a' x)
      have wfx: "wf_ranges (a' @ [x])" using wfs(1) snoc by simp
      have xe: "re x \<le> e"
        using wf r ys snoc by (auto simp: y wf_ranges_iff word_nat)
      have fx: "find_range r s = Some (length a')" "r ! length a' = x"
        using fs r snoc by simp_all
      show ?thesis
      proof (cases "rs x < s")
        case True
        with truncate_cut [OF wfx True se xe] fx ne show ?thesis
          by (simp add: h_def snoc gap_below_def)
      next
        case False
        with a snoc have "rs x = s" by auto
        with truncate_drop [OF wfx this xe] fx ne show ?thesis
          by (simp add: h_def snoc gap_below_def)
      qed
    qed
    have "wf_ranges (h @ cut_head e y @ c)"
    proof -
      have "unat (re x) + 1 < unat (rs z)" if "x \<in> set h" "e < rs z" for x z
        using H that se by (force simp: word_nat)
      moreover have "\<forall>z \<in> set (cut_head e y). e < rs z \<and> (\<forall>w \<in> set c. unat (re z) + 1 < unat (rs w))"
        using e1 wfs(5) by (auto simp: cut_head_def word_nat)
      ultimately show ?thesis
        using H Y(2) wfs(3) c by (auto simp: wf_ranges_append)
    qed
    then have "wf_ranges r'" using res' by simp
    moreover have "ranges_set r' = (ranges_set r - {s..e}) \<union> gap_below r s e"
      using res' r y M Y(1) C H by auto
    ultimately show ?thesis using res' by simp
  qed
qed

section \<open>The interface the I/O capabilities rely on\<close>

text \<open>
  A capability store holds a set of numbers; \<open>grant\<close> adds an interval or fails without an
  effect, and \<open>permitted\<close> decides whether an interval is covered.
\<close>

locale range_capability =
  fixes invar :: "'c \<Rightarrow> bool"
    and carrier :: "'c \<Rightarrow> ulong set"
    and grant :: "'c \<Rightarrow> ulong \<Rightarrow> ulong \<Rightarrow> int \<times> 'c"
    and permitted :: "'c \<Rightarrow> ulong \<Rightarrow> ulong \<Rightarrow> bool"
  assumes grant_invar: "invar c \<Longrightarrow> s \<le> e \<Longrightarrow> grant c s e = (rc, c') \<Longrightarrow> invar c'"
    and grant_ok: "invar c \<Longrightarrow> s \<le> e \<Longrightarrow> grant c s e = (0, c') \<Longrightarrow> carrier c' = carrier c \<union> {s..e}"
    and grant_fail: "invar c \<Longrightarrow> s \<le> e \<Longrightarrow> grant c s e = (rc, c') \<Longrightarrow> rc \<noteq> 0 \<Longrightarrow> c' = c"
    and permitted_iff: "invar c \<Longrightarrow> s \<le> e \<Longrightarrow> permitted c s e \<longleftrightarrow> {s..e} \<subseteq> carrier c"
begin

lemma grant_carrier:
  assumes "invar c" "s \<le> e" "grant c s e = (rc, c')"
  shows "carrier c' = (if rc = 0 then carrier c \<union> {s..e} else carrier c)"
proof (cases "rc = 0")
  case True
  with assms show ?thesis using grant_ok [of c s e c'] by simp
next
  case False
  with assms show ?thesis using grant_fail [of c s e rc c'] by simp
qed

lemma granted_permitted:
  assumes "invar c" "s \<le> e" "grant c s e = (0, c')" "s \<le> a" "a \<le> b" "b \<le> e"
  shows "permitted c' a b"
proof -
  have "{a..b} \<subseteq> {s..e}" using assms(4,6) by simp
  then show ?thesis
    using grant_ok [OF assms(1-3)] permitted_iff [OF grant_invar [OF assms(1-3)] assms(5)] by blast
qed

lemma grant_keeps_permitted:
  assumes "invar c" "s \<le> e" "grant c s e = (rc, c')" "a \<le> b" "permitted c a b"
  shows "permitted c' a b"
proof -
  have "{a..b} \<subseteq> carrier c" using permitted_iff [OF assms(1,4)] assms(5) by simp
  then have "{a..b} \<subseteq> carrier c'" using grant_carrier [OF assms(1-3)] by auto
  then show ?thesis using permitted_iff [OF grant_invar [OF assms(1-3)] assms(4)] by simp
qed

lemma grant_frame:
  assumes "invar c" "s \<le> e" "grant c s e = (rc, c')" "a \<le> b" "b < s \<or> e < a"
  shows "permitted c' a b \<longleftrightarrow> permitted c a b"
proof -
  have "x \<notin> {s..e}" if "x \<in> {a..b}" for x using assms(5) that by auto
  then have "{a..b} \<subseteq> C \<union> {s..e} \<longleftrightarrow> {a..b} \<subseteq> C" for C by blast
  then have "{a..b} \<subseteq> carrier c' \<longleftrightarrow> {a..b} \<subseteq> carrier c"
    unfolding grant_carrier [OF assms(1-3)] by (cases "rc = 0") simp_all
  then show ?thesis
    using permitted_iff [OF grant_invar [OF assms(1-3)] assms(4)] permitted_iff [OF assms(1,4)] by simp
qed

end

abbreviation rangeset_invar :: "rangeset \<Rightarrow> bool" where
  "rangeset_invar r \<equiv> wf_ranges (range_list r)"

abbreviation rangeset_set :: "rangeset \<Rightarrow> ulong set" where
  "rangeset_set r \<equiv> ranges_set (range_list r)"

lemma add_range_rangeset:
  assumes "rangeset_invar r" and "s \<le> e" and "rangeset_add_range mem r s e = (rc, r')"
  shows "rangeset_invar r' \<and>
    (rc = 0 \<and> rangeset_set r' = rangeset_set r \<union> {s..e} \<or> rc = - ENOMEM \<and> \<not> mem \<and> r' = r)"
proof -
  obtain l where l: "add_range_list mem (range_list r) s e = (rc, l)" "r' = r\<lparr>range_list := l\<rparr>"
    using assms(3) by (auto simp: rangeset_add_range_def split: prod.splits)
  from add_range_list_correct [OF assms(1,2) l(1)] l(2) show ?thesis by auto
qed

lemma contains_range_rangeset:
  assumes "rangeset_invar r" and "s \<le> e"
  shows "rangeset_contains_range r s e \<longleftrightarrow> {s..e} \<subseteq> rangeset_set r"
  using find_range_member [OF assms(1), where s = s and e = e] assms(2)
  by (simp add: rangeset_contains_range_def)

interpretation caps: range_capability rangeset_invar rangeset_set
    "rangeset_add_range mem" rangeset_contains_range for mem
proof
  fix c and s e :: ulong and rc c'
  assume a: "rangeset_invar c" "s \<le> e"
  then show "rangeset_contains_range c s e \<longleftrightarrow> {s..e} \<subseteq> rangeset_set c"
    by (rule contains_range_rangeset)
  show "rangeset_set c' = rangeset_set c \<union> {s..e}" if "rangeset_add_range mem c s e = (0, c')"
    using add_range_rangeset [OF a that] by simp
  assume g: "rangeset_add_range mem c s e = (rc, c')"
  show "rangeset_invar c'" using add_range_rangeset [OF a g] by simp
  show "c' = c" if "rc \<noteq> 0"
    using add_range_rangeset [OF a g] that by auto
qed

lemma remove_range_rangeset:
  assumes "rangeset_invar r" and "s \<le> e"
    and "e \<noteq> - 1 \<or> find_range (range_list r) s = find_range (range_list r) e"
    and "rangeset_remove_range mem r s e = (rc, r')"
  shows "rc = - ENOMEM \<and> \<not> mem \<and> r' = r \<or>
    rc = 0 \<and> rangeset_invar r' \<and>
    rangeset_set r' = (rangeset_set r - {s..e}) \<union> gap_below (range_list r) s e"
proof -
  obtain l where l: "remove_range_list mem (range_list r) s e = (rc, l)" "r' = r\<lparr>range_list := l\<rparr>"
    using assms(4) by (auto simp: rangeset_remove_range_def split: prod.splits)
  from remove_range_correct [OF assms(1-3) l(1)] l(2) show ?thesis by auto
qed

text \<open>There is no gap to fill when the first number, or the number before it, is a member.\<close>

lemma gap_below_member:
  assumes wf: "wf_ranges r" and mem: "s \<in> ranges_set r \<or> s - 1 \<in> ranges_set r"
  shows "gap_below r s e = {}"
proof -
  obtain a b where r: "r = a @ b" "\<forall>y \<in> set a. rs y \<le> s" "\<forall>y \<in> set b. s < rs y"
    using wf_ranges_split [OF wf] by blast
  have fr: "find_range r s = (if a = [] then None else Some (length a - 1))"
    using find_range_append r by auto
  show ?thesis
  proof (cases a rule: rev_cases)
    case Nil
    with fr show ?thesis by (simp add: gap_below_def)
  next
    case (snoc a' x)
    have "unat s \<le> unat (re x) + 1" if "rs x < s"
    proof -
      have s1: "unat (s - 1) = unat s - 1" "0 < unat s"
        using unat_pred [of s] that by (auto simp: word_nat)
      obtain v y where y: "y \<in> set r" "rs y \<le> v" "v \<le> re y" "v = s \<or> v = s - 1"
        using mem by (auto simp: ranges_set_def)
      have "rs y \<le> s" using y(2,4) s1 by (auto simp: word_nat)
      then have "y \<notin> set b" using r(3) by auto
      moreover have "re y \<le> re x" if "y \<in> set a"
      proof -
        have "wf_ranges a" using wf r by (simp add: wf_ranges_append)
        from wf_ranges_re_le_last [OF this that] snoc show ?thesis by simp
      qed
      ultimately have "v \<le> re x" using y r by (auto intro: order_trans)
      with y(4) s1 show ?thesis by (auto simp: word_nat)
    qed
    then have "rs x < s \<Longrightarrow> {v. re x < v \<and> v < s} = {}"
      by (auto simp: word_nat)
    with fr snoc r show ?thesis by (simp add: gap_below_def)
  qed
qed

subsection \<open>Lists of rangesets\<close>

text \<open>The list of a domain holds, once each, the live rangesets that point back to it.\<close>

definition rs_store_inv :: "rs_store \<Rightarrow> bool" where
  "rs_store_inv st \<longleftrightarrow>
     (\<forall>d. distinct (rangesets st d) \<and>
          set (rangesets st d) = {r. rs_heap st r \<noteq> None \<and> rs_domain st r = Some d})"

lemma rangeset_new_inv:
  assumes inv: "rs_store_inv st" and fresh: "\<forall>r. addr = Some r \<longrightarrow> rs_heap st r = None"
    and "rangeset_new st addr d name flags = Done (st', a)"
  shows "rs_store_inv st'"
  using assms
  by (auto simp: rangeset_new_def rs_store_inv_def Let_def outcome_simps split: option.splits if_splits)

lemma rangeset_destroy_inv:
  assumes inv: "rs_store_inv st" and "\<forall>r'. r = Some r' \<longrightarrow> rs_heap st r' \<noteq> None"
  shows "rs_store_inv (rangeset_destroy st r)"
  using assms
  by (auto simp: rangeset_destroy_def rs_store_inv_def Let_def split: option.splits if_splits)

lemma destroy_first_inv:
  assumes inv: "rs_store_inv st" and l: "rangesets st d = r # rest"
  shows "rs_store_inv (destroy_first st d)"
    and "rs_heap (destroy_first st d) = (rs_heap st)(r := None)"
    and "rs_domain (destroy_first st d) = (rs_domain st)(r := None)"
    and "d' \<noteq> d \<Longrightarrow> rangesets (destroy_first st d) d' = rangesets st d'"
proof -
  from inv l have d: "distinct (r # rest)" "set (r # rest) = {r. rs_heap st r \<noteq> None \<and> rs_domain st r = Some d}"
    unfolding rs_store_inv_def by metis+
  then have rest: "set rest = {x. rs_heap st x \<noteq> None \<and> rs_domain st x = Some d \<and> x \<noteq> r}"
    and r: "rs_domain st r = Some d" by auto
  show "rs_store_inv (destroy_first st d)"
    using inv rest r d l unfolding rs_store_inv_def
    by (auto simp: destroy_first_def rangeset_destroy_def)
  show "rs_heap (destroy_first st d) = (rs_heap st)(r := None)"
    "rs_domain (destroy_first st d) = (rs_domain st)(r := None)"
    "d' \<noteq> d \<Longrightarrow> rangesets (destroy_first st d) d' = rangesets st d'"
    using l by (simp_all add: destroy_first_def rangeset_destroy_def)
qed

lemma rangeset_domain_destroy_all:
  assumes "rs_store_inv st"
  shows "\<exists>st'. rangeset_domain_destroy st d = Done st' \<and> rs_store_inv st' \<and> rangesets st' d = [] \<and>
    (\<forall>r. rs_heap st' r = (if r \<in> set (rangesets st d) then None else rs_heap st r))"
  using assms
proof (induction "rangesets st d" arbitrary: st)
  case Nil
  then show ?case by (subst rangeset_domain_destroy.simps) auto
next
  case (Cons r rest)
  note f = destroy_first_inv [OF Cons.prems Cons.hyps(2) [symmetric]]
  have "rs_domain st r = Some d"
    using Cons.prems Cons.hyps(2) unfolding rs_store_inv_def
    by (metis (mono_tags, lifting) list.set_intros(1) mem_Collect_eq)
  moreover have "rangesets (destroy_first st d) d = rest" using Cons.hyps(2) [symmetric] by simp
  moreover from Cons.hyps(1) [OF this [symmetric] f(1)] this f(2) obtain st' where
    "rangeset_domain_destroy (destroy_first st d) d = Done st'" "rs_store_inv st'" "rangesets st' d = []"
    "\<forall>x. rs_heap st' x = (if x \<in> set rest then None else ((rs_heap st)(r := None)) x)"
    by auto
  ultimately show ?case
    using Cons.hyps(2) [symmetric]
    by (subst rangeset_domain_destroy.simps) auto
qed

section \<open>Properties\<close>

text \<open>C3: Adding a range keeps the ranges ordered, apart and joined, and adds exactly the
  numbers from \<open>s\<close> to \<open>e\<close>; only when a new range is needed and there is no memory does it
  return \<open>-ENOMEM\<close>, and then it changes nothing.\<close>

theorem rangeset_add_range_correct:
  assumes "rangeset_invar r" and "s \<le> e" and "rangeset_add_range mem r s e = (rc, r')"
  shows "rangeset_invar r' \<and>
    (rc = 0 \<and> rangeset_set r' = rangeset_set r \<union> {s..e} \<or> rc = - ENOMEM \<and> \<not> mem \<and> r' = r)"
  using assms by (rule add_range_rangeset)

definition sample_rangeset :: rangeset where
  "sample_rangeset = \<lparr>range_list = [\<lparr>rs = 0, re = 1\<rparr>, \<lparr>rs = 10, re = 20\<rparr>, \<lparr>rs = 30, re = 31\<rparr>],
     rname = ''sample'', rflags = 0\<rparr>"

lemma sample_rangeset_invar: "rangeset_invar sample_rangeset"
  by (simp add: sample_rangeset_def wf_ranges_def)

theorem rangeset_add_range_correct_witness:
  "rangeset_invar sample_rangeset \<and> (5::ulong) \<le> 12 \<and>
   rangeset_add_range True sample_rangeset 5 12 =
     (0, sample_rangeset\<lparr>range_list := [\<lparr>rs = 0, re = 1\<rparr>, \<lparr>rs = 5, re = 20\<rparr>, \<lparr>rs = 30, re = 31\<rparr>]\<rparr>) \<and>
   rangeset_set (snd (rangeset_add_range True sample_rangeset 5 12)) =
     rangeset_set sample_rangeset \<union> {5..12}"
proof -
  have eq: "rangeset_add_range True sample_rangeset 5 12 =
     (0, sample_rangeset\<lparr>range_list := [\<lparr>rs = 0, re = 1\<rparr>, \<lparr>rs = 5, re = 20\<rparr>, \<lparr>rs = 30, re = 31\<rparr>]\<rparr>)"
    by code_simp
  show ?thesis
    using rangeset_add_range_correct [OF sample_rangeset_invar _ eq] eq sample_rangeset_invar by simp
qed

text \<open>C13: A query for the range from \<open>s\<close> to \<open>e\<close> is true exactly when every number of it is
  in the set: looking at one range is enough, because neighbouring ranges are joined.\<close>

theorem rangeset_contains_range_iff:
  assumes "rangeset_invar r" and "s \<le> e"
  shows "rangeset_contains_range r s e \<longleftrightarrow> {s..e} \<subseteq> rangeset_set r"
  using assms by (rule contains_range_rangeset)

theorem rangeset_contains_range_iff_witness:
  "(11::ulong) \<le> 19 \<and> rangeset_contains_range sample_rangeset 11 19 \<and>
   {11..19} \<subseteq> rangeset_set sample_rangeset"
proof -
  have "rangeset_contains_range sample_rangeset 11 19" by code_simp
  with rangeset_contains_range_iff [OF sample_rangeset_invar, of 11 19] show ?thesis by simp
qed

text \<open>C16: Removing the range from \<open>s\<close> to \<open>e\<close> removes exactly its numbers and keeps the
  ranges in order, when one range decides the whole request, or when the request starts at
  or right after a member and does not reach the highest machine number. Only when a range
  must be split and there is no memory does it return \<open>-ENOMEM\<close>, changing nothing.\<close>

theorem rangeset_remove_range_exact:
  assumes "rangeset_invar r" and "s \<le> e"
    and "find_range (range_list r) s = find_range (range_list r) e \<or>
         e \<noteq> - 1 \<and> (s \<in> rangeset_set r \<or> s - 1 \<in> rangeset_set r)"
    and "rangeset_remove_range mem r s e = (rc, r')"
  shows "rc = 0 \<and> rangeset_invar r' \<and> rangeset_set r' = rangeset_set r - {s..e} \<or>
    rc = - ENOMEM \<and> \<not> mem \<and> r' = r"
proof -
  have "gap_below (range_list r) s e = {}"
  proof (cases "find_range (range_list r) s = find_range (range_list r) e")
    case True
    then show ?thesis by (simp add: gap_below_def split: option.split)
  next
    case False
    with assms(3) show ?thesis by (intro gap_below_member [OF assms(1)]) blast
  qed
  with remove_range_rangeset [OF assms(1,2) _ assms(4)] assms(3) show ?thesis by auto
qed

theorem rangeset_remove_range_exact_witness:
  "rangeset_set (snd (rangeset_remove_range True sample_rangeset 15 30)) =
     rangeset_set sample_rangeset - {15..30} \<and>
   range_list (snd (rangeset_remove_range True sample_rangeset 15 30)) =
     [\<lparr>rs = 0, re = 1\<rparr>, \<lparr>rs = 10, re = 14\<rparr>, \<lparr>rs = 31, re = 31\<rparr>]"
proof -
  have eq: "rangeset_remove_range True sample_rangeset 15 30 =
     (0, sample_rangeset\<lparr>range_list := [\<lparr>rs = 0, re = 1\<rparr>, \<lparr>rs = 10, re = 14\<rparr>, \<lparr>rs = 31, re = 31\<rparr>]\<rparr>)"
    by code_simp
  have "(15::ulong) \<in> rangeset_set sample_rangeset"
    by (simp add: sample_rangeset_def)
  then show ?thesis
    using rangeset_remove_range_exact [OF sample_rangeset_invar _ _ eq] eq by simp
qed

text \<open>C17: Removing a single number always removes exactly that number.\<close>

theorem rangeset_remove_singleton_exact:
  assumes "rangeset_invar r" and "rangeset_remove_singleton mem r s = (rc, r')"
  shows "rc = 0 \<and> rangeset_invar r' \<and> rangeset_set r' = rangeset_set r - {s} \<or>
    rc = - ENOMEM \<and> \<not> mem \<and> r' = r"
proof -
  have "rangeset_remove_range mem r s s = (rc, r')"
    using assms(2) by (simp add: rangeset_remove_singleton_def)
  then have "rc = - ENOMEM \<and> \<not> mem \<and> r' = r \<or>
    rc = 0 \<and> rangeset_invar r' \<and>
    rangeset_set r' = (rangeset_set r - {s..s}) \<union> gap_below (range_list r) s s"
    by (intro remove_range_rangeset [OF assms(1)]) simp_all
  moreover have "gap_below (range_list r) s s = {}"
    by (simp add: gap_below_def split: option.split)
  ultimately show ?thesis by auto
qed

theorem rangeset_remove_singleton_exact_witness:
  "rangeset_set (snd (rangeset_remove_singleton True sample_rangeset 12)) =
     rangeset_set sample_rangeset - {12}"
proof -
  have eq: "rangeset_remove_singleton True sample_rangeset 12 =
     (0, sample_rangeset\<lparr>range_list := [\<lparr>rs = 0, re = 1\<rparr>, \<lparr>rs = 10, re = 11\<rparr>, \<lparr>rs = 13, re = 20\<rparr>,
       \<lparr>rs = 30, re = 31\<rparr>]\<rparr>)"
    by code_simp
  show ?thesis
    using rangeset_remove_singleton_exact [OF sample_rangeset_invar eq] eq by simp
qed

text \<open>A number above the highest range that starts below \<open>s\<close>, and below \<open>s\<close>, is not a member.\<close>

lemma gap_not_member:
  assumes wf: "wf_ranges r" and i: "find_range r s = Some i" and v: "re (r ! i) < v" "v < s"
  shows "v \<notin> ranges_set r" and "rs (r ! i) < s"
proof -
  obtain a b where r: "r = a @ b" "\<forall>y \<in> set a. rs y \<le> s" "\<forall>y \<in> set b. s < rs y"
    using wf_ranges_split [OF wf] by blast
  have fr: "find_range r s = (if a = [] then None else Some (length a - 1))"
    using find_range_append r by auto
  with i obtain a' x where a: "a = a' @ [x]" by (cases a rule: rev_cases) auto
  with fr i have "i = length a'" by simp
  then have x: "r ! i = x" by (simp add: r a)
  have wa: "wf_ranges a" using wf r by (simp add: wf_ranges_append)
  have "v \<notin> {rs y..re y}" if "y \<in> set r" for y
  proof (cases "y \<in> set a")
    case True
    then show ?thesis using wf_ranges_re_le_last [OF wa True] a x v by (auto simp: word_nat)
  next
    case False
    then show ?thesis using that r v by (auto simp: word_nat)
  qed
  then show "v \<notin> ranges_set r" by (auto simp: ranges_set_def)
  show "rs (r ! i) < s"
    using wa a x v by (auto simp: wf_ranges_iff word_nat)
qed

text \<open>C18: Where the request starts in a gap above some range, a later range starts within it, and it does not reach the highest machine number, removal adds
  numbers: every number of the gap below \<open>s\<close> is a member afterwards, though it was not
  before. The bound of the lower range is set to \<open>s - 1\<close> without looking at where it was.\<close>

theorem rangeset_remove_range_fills_gap:
  assumes "rangeset_invar r" and "s \<le> e" and "e \<noteq> - 1"
    and "find_range (range_list r) s = Some i" and "find_range (range_list r) e \<noteq> Some i"
    and "re (range_list r ! i) < v" and "v < s"
    and "rangeset_remove_range mem r s e = (rc, r')"
  shows "v \<notin> rangeset_set r \<and> v \<in> rangeset_set r'"
proof -
  note g = gap_not_member [OF assms(1,4,6,7)]
  have "rc = 0"
    using assms(8,4,5) by (auto simp: rangeset_remove_range_def remove_range_list_def Let_def
      split: prod.splits)
  moreover have "v \<in> gap_below (range_list r) s e"
    using g(2) assms(4-7) by (simp add: gap_below_def)
  ultimately show ?thesis
    using remove_range_rangeset [OF assms(1,2) _ assms(8)] assms(3) g(1) by auto
qed

theorem rangeset_remove_range_fills_gap_witness:
  "4 \<notin> rangeset_set sample_rangeset \<and>
   4 \<in> rangeset_set (snd (rangeset_remove_range True sample_rangeset 5 15))"
proof -
  have eq: "rangeset_remove_range True sample_rangeset 5 15 =
     (0, sample_rangeset\<lparr>range_list := [\<lparr>rs = 0, re = 4\<rparr>, \<lparr>rs = 16, re = 20\<rparr>, \<lparr>rs = 30, re = 31\<rparr>]\<rparr>)"
    by code_simp
  have "find_range (range_list sample_rangeset) 5 = Some 0"
    "find_range (range_list sample_rangeset) 15 = Some 1"
    by code_simp+
  then show ?thesis
    using rangeset_remove_range_fills_gap [OF sample_rangeset_invar _ _ _ _ _ _ eq, of 0 4] eq
    by (simp add: sample_rangeset_def)
qed

lemma wf_ranges_zero:
  assumes "wf_ranges a" and "\<forall>y \<in> set a. rs y \<le> 0"
  shows "length a \<le> 1"
proof (rule ccontr)
  assume "\<not> length a \<le> 1"
  then obtain x y a' where a: "a = x # y # a'" by (cases a; cases "tl a") auto
  then have "unat (re x) + 1 < unat (rs y)" using assms(1) by (simp add: wf_ranges_Cons)
  moreover have "rs y = 0" using assms(2) a by simp
  ultimately show False by simp
qed

text \<open>C19: A request to remove every number, on a set of at least two ranges, ends with the
  single range from 0 to the largest member: \<open>e + 1\<close> wraps around to 0, and the test for an
  empty remainder does not see it.\<close>

theorem rangeset_remove_all_keeps_range:
  assumes "rangeset_invar r" and "2 \<le> length (range_list r)"
  shows "rangeset_remove_range mem r 0 (- 1) =
    (0, r\<lparr>range_list := [(last (range_list r))\<lparr>rs := 0\<rparr>]\<rparr>)"
proof -
  obtain a m c where r: "range_list r = a @ m @ c"
    and a: "\<forall>y \<in> set a. rs y \<le> 0" and ms: "\<forall>y \<in> set m. 0 < rs y \<and> rs y \<le> - 1"
    and c: "\<forall>y \<in> set c. - 1 < rs y"
    and fs: "find_range (range_list r) 0 = (if a = [] then None else Some (length a - 1))"
    and fe: "find_range (range_list r) (- 1) = (if a @ m = [] then None else Some (length (a @ m) - 1))"
    using wf_ranges_split2 [OF assms(1), of 0 "- 1"] by auto
  from c have "c = []" by (cases c) (auto simp: not_less [symmetric])
  have "length a \<le> 1" using wf_ranges_zero [of a] assms(1) a by (simp add: r wf_ranges_append)
  then have "butlast a = []" by (cases a) simp_all
  moreover have "m \<noteq> []" using \<open>length a \<le> 1\<close> assms(2) r \<open>c = []\<close> by auto
  moreover have "\<not> rs (last a) < 0" by simp
  moreover have "last (range_list r) = last m" using r \<open>c = []\<close> \<open>m \<noteq> []\<close> by simp
  ultimately have "remove_range_list mem (range_list r) 0 (- 1) = (0, [(last (range_list r))\<lparr>rs := 0\<rparr>])"
    using remove_range_across [of a m c 0 "- 1" mem] assms(1) ms fs fe unfolding r \<open>c = []\<close>
    by (simp add: cut_head_def)
  then show ?thesis by (simp add: rangeset_remove_range_def)
qed

theorem rangeset_remove_all_keeps_range_witness:
  "2 \<le> length (range_list sample_rangeset) \<and>
   rangeset_remove_range True sample_rangeset 0 (- 1) =
     (0, sample_rangeset\<lparr>range_list := [\<lparr>rs = 0, re = 31\<rparr>]\<rparr>)"
  using rangeset_remove_all_keeps_range [OF sample_rangeset_invar, of True]
  by (simp add: sample_rangeset_def)

text \<open>C20: Destroying a domain's rangesets never meets a foreign one, empties the domain's
  list, and frees exactly the rangesets that were on it.\<close>

theorem rangeset_domain_destroy_frees:
  assumes "rs_store_inv st"
  shows "\<exists>st'. rangeset_domain_destroy st d = Done st' \<and> rs_store_inv st' \<and> rangesets st' d = [] \<and>
    (\<forall>r. rs_heap st' r = (if r \<in> set (rangesets st d) then None else rs_heap st r))"
  using assms by (rule rangeset_domain_destroy_all)

theorem rangeset_domain_destroy_frees_witness:
  "\<exists>st'. rangeset_domain_destroy
     \<lparr>rs_heap = [1 \<mapsto> sample_rangeset, 2 \<mapsto> sample_rangeset], rs_domain = [1 \<mapsto> 0, 2 \<mapsto> 5],
      rangesets = (\<lambda>d. if d = 0 then [1] else if d = 5 then [2] else [])\<rparr> 0 = Done st' \<and>
     rs_heap st' 1 = None \<and> rs_heap st' 2 = Some sample_rangeset"
proof -
  have "rs_store_inv \<lparr>rs_heap = [1 \<mapsto> sample_rangeset, 2 \<mapsto> sample_rangeset], rs_domain = [1 \<mapsto> 0, 2 \<mapsto> 5],
      rangesets = (\<lambda>d. if d = 0 then [1] else if d = 5 then [2] else [])\<rparr>"
    by (auto simp: rs_store_inv_def split: if_splits)
  from rangeset_domain_destroy_frees [OF this, of 0] show ?thesis by auto
qed

text \<open>C21: After a domain is permitted a range of I/O memory, access is permitted to every
  sub-range of it and still permitted wherever it was, and nothing outside the range
  becomes accessible.\<close>

theorem iomem_permit_access_spec:
  assumes "rangeset_invar (iomem_caps d)" and "s \<le> e" and "iomem_permit_access mem d s e = (0, d')"
    and "a \<le> b"
  shows "(s \<le> a \<and> b \<le> e \<longrightarrow> iomem_access_permitted d' a b) \<and>
    (iomem_access_permitted d a b \<longrightarrow> iomem_access_permitted d' a b) \<and>
    (b < s \<or> e < a \<longrightarrow> iomem_access_permitted d' a b = iomem_access_permitted d a b) \<and>
    irq_caps d' = irq_caps d"
proof -
  obtain r where r: "rangeset_add_range mem (iomem_caps d) s e = (0, r)" "d' = d\<lparr>iomem_caps := r\<rparr>"
    using assms(3) by (auto simp: iomem_permit_access_def split: prod.splits)
  show ?thesis
    using caps.granted_permitted [OF assms(1,2) r(1)] caps.grant_keeps_permitted [OF assms(1,2) r(1) assms(4)]
      caps.grant_frame [OF assms(1,2) r(1) assms(4)] assms(4) r(2)
    by (simp add: iomem_access_permitted_def)
qed

theorem iomem_permit_access_spec_witness:
  "iomem_access_permitted (snd (iomem_permit_access True
     \<lparr>iomem_caps = sample_rangeset, irq_caps = sample_rangeset\<rparr> 40 50)) 41 45 \<and>
   \<not> iomem_access_permitted (snd (iomem_permit_access True
     \<lparr>iomem_caps = sample_rangeset, irq_caps = sample_rangeset\<rparr> 40 50)) 5 6"
proof -
  let ?d = "\<lparr>iomem_caps = sample_rangeset, irq_caps = sample_rangeset\<rparr>"
  obtain d' where eq: "iomem_permit_access True ?d 40 50 = (0, d')"
    by (simp add: iomem_permit_access_def rangeset_add_range_def add_range_list_def sample_rangeset_def
        find_range_def Let_def)
  have "\<not> iomem_access_permitted ?d 5 6"
    by code_simp
  with eq iomem_permit_access_spec [OF _ _ eq, of 41 45] iomem_permit_access_spec [OF _ _ eq, of 5 6]
    sample_rangeset_invar show ?thesis by simp
qed

end
