(* ===== verification/Domain.thy ===== *)
theory Domain
  imports Rangeset
begin

text \<open>
  Domains and their virtual CPUs as far as event delivery needs them: the fields of
  \<open>struct evtchn\<close>, \<open>struct vcpu\<close> and \<open>struct domain\<close> (\<open>xen/include/xen/sched.h\<close>), waking and
  kicking a virtual CPU (\<open>xen/common/schedule.c\<close>, \<open>xen/arch/x86/domain.c\<close>), and finding a domain
  by its identifier (\<open>xen/common/domain.c\<close>).

  A pointer to a domain is the identifier of the domain, a pointer to a virtual CPU is its
  domain and its number. Arrays indexed by port, interrupt or virtual CPU are functions of
  the index. What the CPU that runs the code contributes (the current virtual CPU, whether it is
  in an interrupt handler, the time) is an \<open>env\<close>. The hook of the scheduler and the softirq
  that \<open>vcpu_kick\<close> raises are counted in the virtual CPU they are for.
\<close>

section \<open>Data\<close>

definition DOMID_SELF :: domid where
  "DOMID_SELF = 0x7FF0"

definition MAX_VIRT_CPUS :: int where
  "MAX_VIRT_CPUS = 32"

definition NR_VIRQS :: int where
  "NR_VIRQS = 24"

definition NR_IRQS :: int where
  "NR_IRQS = 256"

definition EVTCHNS_PER_BUCKET :: int where
  "EVTCHNS_PER_BUCKET = 128"

definition NR_EVENT_CHANNELS :: int where
  "NR_EVENT_CHANNELS = 8 * 8 * 64"

definition NR_EVTCHN_BUCKETS :: int where
  "NR_EVTCHN_BUCKETS = NR_EVENT_CHANNELS div EVTCHNS_PER_BUCKET"

text \<open>The state of an event channel, with the member of the union that goes with it.\<close>

datatype evtchn_state =
    ECS_FREE
  | ECS_RESERVED
  | ECS_UNBOUND (remote_domid: domid)
  | ECS_INTERDOMAIN (remote_dom: domid) (remote_port: port)
  | ECS_PIRQ int
  | ECS_VIRQ int
  | ECS_IPI

record evtchn =
  state :: evtchn_state
  consumer_is_xen :: bool
  notify_vcpu_id :: vcpuid

datatype runstate = RUNSTATE_running | RUNSTATE_runnable | RUNSTATE_blocked | RUNSTATE_offline

record vcpu =
  processor :: cpuid
  runstate :: runstate
  runstate_time :: "runstate \<Rightarrow> ulong"
  state_entry_time :: ulong
  v_is_polling :: bool
  is_running :: bool
  VPF_blocked :: bool
  VPF_down :: bool
  VPF_blocked_in_xen :: bool
  VPF_migrating :: bool
  v_pause_count :: nat
  virq_to_evtchn :: "int \<Rightarrow> port"
  evtchn_upcall_pending :: bool
  evtchn_pending_sel :: "int \<Rightarrow> bool"
  sched_wakes :: nat
  kick_softirqs :: nat
  callback_irqs :: nat

datatype dying = DOMDYING_alive | DOMDYING_dying | DOMDYING_dead

text \<open>
  \<open>evtchn\<close> is the array of pointers to buckets of channels, \<open>None\<close> being \<open>NULL\<close>;
  \<open>evtchn_freed\<close> is not a field of the code: it says whether the bucket that the pointer leads
  to has been given back by \<open>xfree\<close>. \<open>evtchn_pending\<close> and \<open>evtchn_mask\<close> are the bitmaps of the
  shared page, and \<open>refcnt_destroyed\<close> is the bit \<open>DOMAIN_DESTROYED\<close> of \<open>refcnt\<close>.
\<close>

record domain = iocap +
  is_dying :: dying
  is_privileged :: bool
  target :: "domid option"
  is_hvm :: bool
  is_compat :: bool
  d_pause_count :: nat
  refcnt_destroyed :: bool
  vcpu :: "vcpuid \<Rightarrow> vcpu option"
  evtchn :: "int \<Rightarrow> (int \<Rightarrow> evtchn) option"
  evtchn_freed :: "int \<Rightarrow> bool"
  pirq_to_evtchn :: "int \<Rightarrow> port"
  d_is_polling :: bool
  evtchn_pending :: "port \<Rightarrow> bool"
  evtchn_mask :: "port \<Rightarrow> bool"

type_synonym system = "domid \<Rightarrow> domain option"

record env =
  current_dom :: domid
  current_vcpu :: vcpuid
  in_irq :: bool
  NOW :: ulong

section \<open>Virtual CPUs\<close>

definition pause_flags :: "vcpu \<Rightarrow> bool" where
  "pause_flags v = (VPF_blocked v \<or> VPF_down v \<or> VPF_blocked_in_xen v \<or> VPF_migrating v)"

definition vcpu_runnable :: "domain \<Rightarrow> vcpu \<Rightarrow> bool" where
  "vcpu_runnable d v = (\<not> (pause_flags v \<or> v_pause_count v \<noteq> 0 \<or> d_pause_count d \<noteq> 0))"

definition vcpu_runstate_change :: "vcpu \<Rightarrow> runstate \<Rightarrow> ulong \<Rightarrow> vcpu" where
  "vcpu_runstate_change v new_state new_entry_time =
     v\<lparr>runstate_time := (runstate_time v)(runstate v :=
          runstate_time v (runstate v) + (new_entry_time - state_entry_time v)),
       state_entry_time := new_entry_time,
       runstate := new_state\<rparr>"

definition vcpu_wake :: "'e env_scheme \<Rightarrow> domain \<Rightarrow> vcpu \<Rightarrow> vcpu" where
  "vcpu_wake env d v =
     (if vcpu_runnable d v then
        let v1 = (if runstate v = RUNSTATE_blocked \<or> runstate v = RUNSTATE_offline
                  then vcpu_runstate_change v RUNSTATE_runnable (NOW env) else v)
        in v1\<lparr>sched_wakes := Suc (sched_wakes v1)\<rparr>
      else if \<not> VPF_blocked v then
        if runstate v = RUNSTATE_blocked then vcpu_runstate_change v RUNSTATE_offline (NOW env) else v
      else v)"

definition vcpu_unblock :: "'e env_scheme \<Rightarrow> domain \<Rightarrow> vcpu \<Rightarrow> vcpu" where
  "vcpu_unblock env d v = (if VPF_blocked v then vcpu_wake env d (v\<lparr>VPF_blocked := False\<rparr>) else v)"

definition vcpu_kick :: "'e env_scheme \<Rightarrow> domid \<Rightarrow> domain \<Rightarrow> vcpuid \<Rightarrow> vcpu \<Rightarrow> vcpu" where
  "vcpu_kick env did d vid v =
     (let running = is_running v; v1 = vcpu_unblock env d v in
      if running \<and> (in_irq env \<or> (did, vid) \<noteq> (current_dom env, current_vcpu env))
      then v1\<lparr>kick_softirqs := Suc (kick_softirqs v1)\<rparr> else v1)"

definition hvm_assert_evtchn_irq :: "vcpuid \<Rightarrow> vcpu \<Rightarrow> vcpu" where
  "hvm_assert_evtchn_irq vid v =
     (if vid = 0 then v\<lparr>callback_irqs := Suc (callback_irqs v)\<rparr> else v)"

definition vcpu_mark_events_pending :: "'e env_scheme \<Rightarrow> domid \<Rightarrow> domain \<Rightarrow> vcpuid \<Rightarrow> vcpu \<Rightarrow> vcpu" where
  "vcpu_mark_events_pending env did d vid v =
     (if evtchn_upcall_pending v then v
      else let v1 = v\<lparr>evtchn_upcall_pending := True\<rparr> in
        if is_hvm d then hvm_assert_evtchn_irq vid v1 else vcpu_kick env did d vid v1)"

section \<open>Domains\<close>

definition IS_PRIV_FOR :: "domain \<Rightarrow> domid \<Rightarrow> bool" where
  "IS_PRIV_FOR d t = (is_privileged d \<or> target d = Some t)"

definition rcu_lock_domain_by_id :: "system \<Rightarrow> domid \<Rightarrow> domid option" where
  "rcu_lock_domain_by_id s dm = (if s dm = None then None else Some dm)"

text \<open>The error, or the domain it found.\<close>

definition rcu_lock_target_domain_by_id :: "'e env_scheme \<Rightarrow> system \<Rightarrow> domid \<Rightarrow> int + domid" where
  "rcu_lock_target_domain_by_id env s dm =
     (if dm = DOMID_SELF then Inr (current_dom env)
      else case rcu_lock_domain_by_id s dm of
        None \<Rightarrow> Inl (- ESRCH)
      | Some d \<Rightarrow>
          if \<not> IS_PRIV_FOR (the (s (current_dom env))) d then Inl (- EPERM) else Inr d)"

definition get_domain :: "domain \<Rightarrow> bool" where
  "get_domain d = (\<not> refcnt_destroyed d)"

text \<open>\<open>for_each_vcpu\<close>, with a body that changes the virtual CPU at hand.\<close>

definition for_each_vcpu :: "domain \<Rightarrow> (vcpu \<Rightarrow> vcpu) \<Rightarrow> domain" where
  "for_each_vcpu d f = d\<lparr>vcpu := (\<lambda>v. map_option f (vcpu d v))\<rparr>"

definition upd_vcpu :: "domain \<Rightarrow> vcpuid \<Rightarrow> (vcpu \<Rightarrow> vcpu) \<Rightarrow> domain" where
  "upd_vcpu d v f = d\<lparr>vcpu := (vcpu d)(v := map_option f (vcpu d v))\<rparr>"

section \<open>What waking and kicking leave alone\<close>

named_theorems vcpu_frame \<open>fields that operations on a virtual CPU keep\<close>

lemma vcpu_runstate_change_frame [vcpu_frame]:
  "virq_to_evtchn (vcpu_runstate_change v st t) = virq_to_evtchn v"
  "evtchn_upcall_pending (vcpu_runstate_change v st t) = evtchn_upcall_pending v"
  "evtchn_pending_sel (vcpu_runstate_change v st t) = evtchn_pending_sel v"
  "VPF_blocked (vcpu_runstate_change v st t) = VPF_blocked v"
  "v_is_polling (vcpu_runstate_change v st t) = v_is_polling v"
  "VPF_blocked_in_xen (vcpu_runstate_change v st t) = VPF_blocked_in_xen v"
  by (simp_all add: vcpu_runstate_change_def)

lemma vcpu_wake_frame [vcpu_frame]:
  "virq_to_evtchn (vcpu_wake env d v) = virq_to_evtchn v"
  "evtchn_upcall_pending (vcpu_wake env d v) = evtchn_upcall_pending v"
  "evtchn_pending_sel (vcpu_wake env d v) = evtchn_pending_sel v"
  "VPF_blocked (vcpu_wake env d v) = VPF_blocked v"
  "v_is_polling (vcpu_wake env d v) = v_is_polling v"
  "VPF_blocked_in_xen (vcpu_wake env d v) = VPF_blocked_in_xen v"
  by (simp_all add: vcpu_wake_def vcpu_frame Let_def)

lemma vcpu_unblock_frame [vcpu_frame]:
  "virq_to_evtchn (vcpu_unblock env d v) = virq_to_evtchn v"
  "evtchn_upcall_pending (vcpu_unblock env d v) = evtchn_upcall_pending v"
  "evtchn_pending_sel (vcpu_unblock env d v) = evtchn_pending_sel v"
  "v_is_polling (vcpu_unblock env d v) = v_is_polling v"
  "VPF_blocked_in_xen (vcpu_unblock env d v) = VPF_blocked_in_xen v"
  "\<not> VPF_blocked (vcpu_unblock env d v)"
  by (simp_all add: vcpu_unblock_def vcpu_frame)

lemma vcpu_kick_frame [vcpu_frame]:
  "virq_to_evtchn (vcpu_kick env did d vid v) = virq_to_evtchn v"
  "evtchn_upcall_pending (vcpu_kick env did d vid v) = evtchn_upcall_pending v"
  "evtchn_pending_sel (vcpu_kick env did d vid v) = evtchn_pending_sel v"
  "v_is_polling (vcpu_kick env did d vid v) = v_is_polling v"
  "\<not> VPF_blocked (vcpu_kick env did d vid v)"
  by (simp_all add: vcpu_kick_def vcpu_frame Let_def)

lemma vcpu_mark_events_pending_frame [vcpu_frame]:
  "virq_to_evtchn (vcpu_mark_events_pending env did d vid v) = virq_to_evtchn v"
  "evtchn_pending_sel (vcpu_mark_events_pending env did d vid v) = evtchn_pending_sel v"
  "v_is_polling (vcpu_mark_events_pending env did d vid v) = v_is_polling v"
  "evtchn_upcall_pending (vcpu_mark_events_pending env did d vid v)"
  by (simp_all add: vcpu_mark_events_pending_def hvm_assert_evtchn_irq_def vcpu_frame Let_def)

text \<open>A paravirtualised virtual CPU that had no upcall pending is not blocked after one is
  marked, and if nothing else holds it back the scheduler has been told.\<close>

lemma vcpu_mark_events_pending_unblocks:
  assumes "\<not> is_hvm d" and "\<not> evtchn_upcall_pending v"
  shows "\<not> VPF_blocked (vcpu_mark_events_pending env did d vid v)"
  using assms by (simp add: vcpu_mark_events_pending_def vcpu_frame)

lemma vcpu_unblock_wakes:
  assumes "VPF_blocked v" and "vcpu_runnable d (v\<lparr>VPF_blocked := False\<rparr>)"
  shows "sched_wakes (vcpu_unblock env d v) = Suc (sched_wakes v)"
  using assms by (simp add: vcpu_unblock_def vcpu_wake_def vcpu_runstate_change_def Let_def)

lemma for_each_vcpu_frame [simp]:
  "evtchn (for_each_vcpu d f) = evtchn d"
  "evtchn_freed (for_each_vcpu d f) = evtchn_freed d"
  "pirq_to_evtchn (for_each_vcpu d f) = pirq_to_evtchn d"
  "evtchn_pending (for_each_vcpu d f) = evtchn_pending d"
  "evtchn_mask (for_each_vcpu d f) = evtchn_mask d"
  "is_compat (for_each_vcpu d f) = is_compat d"
  "is_dying (for_each_vcpu d f) = is_dying d"
  "is_hvm (for_each_vcpu d f) = is_hvm d"
  "is_privileged (for_each_vcpu d f) = is_privileged d"
  "target (for_each_vcpu d f) = target d"
  "refcnt_destroyed (for_each_vcpu d f) = refcnt_destroyed d"
  "d_is_polling (for_each_vcpu d f) = d_is_polling d"
  "irq_caps (for_each_vcpu d f) = irq_caps d"
  "iomem_caps (for_each_vcpu d f) = iomem_caps d"
  "vcpu (for_each_vcpu d f) v = map_option f (vcpu d v)"
  by (simp_all add: for_each_vcpu_def)

lemma upd_vcpu_frame [simp]:
  "evtchn (upd_vcpu d v f) = evtchn d"
  "evtchn_freed (upd_vcpu d v f) = evtchn_freed d"
  "pirq_to_evtchn (upd_vcpu d v f) = pirq_to_evtchn d"
  "evtchn_pending (upd_vcpu d v f) = evtchn_pending d"
  "evtchn_mask (upd_vcpu d v f) = evtchn_mask d"
  "is_compat (upd_vcpu d v f) = is_compat d"
  "is_dying (upd_vcpu d v f) = is_dying d"
  "is_hvm (upd_vcpu d v f) = is_hvm d"
  "is_privileged (upd_vcpu d v f) = is_privileged d"
  "target (upd_vcpu d v f) = target d"
  "refcnt_destroyed (upd_vcpu d v f) = refcnt_destroyed d"
  "d_is_polling (upd_vcpu d v f) = d_is_polling d"
  "irq_caps (upd_vcpu d v f) = irq_caps d"
  "iomem_caps (upd_vcpu d v f) = iomem_caps d"
  "vcpu (upd_vcpu d v f) w = (if w = v then map_option f (vcpu d v) else vcpu d w)"
  by (simp_all add: upd_vcpu_def)

end
