(* ===== verification/Event_Channel.thy ===== *)
theory Event_Channel
  imports Domain
begin

text \<open>
  Event channels: \<open>xen/common/event_channel.c\<close>, every operation of it.

  An operation works on the \<open>system\<close> of all domains and returns its result code together with
  the new system. What it takes from other parts of the hypervisor is in the \<open>evtchn_env\<close>: whether
  \<open>xmalloc\<close> finds memory, the order of the addresses of domain structures, the
  hooks of the security module, the result of \<open>pirq_guest_bind\<close>, and whether the copies from
  and to the guest succeed. Operations that can meet a \<open>BUG_ON\<close>, an \<open>ASSERT\<close> or a \<open>NULL\<close>
  pointer return an \<open>outcome\<close>.

  An operation runs under the lock of each domain it changes, so it is one step. The
  exceptions are \<open>__evtchn_close\<close>, which gives up its lock once when the domains must be locked
  in the other order, the loops that close every channel of a domain, which take the lock
  anew for each, and the clearing of \<open>consumer_is_xen\<close>, which is done before the lock is taken:
  what other CPUs do in these gaps is an argument, a function on systems. \<open>evtchn_send\<close> holds the lock of the
  sending domain only and is one step nevertheless: the two ends of a connected channel are parted only under both
  locks, so the other end cannot go away meanwhile.

  The binding of a physical interrupt to a guest is kept by the interrupt code of the architecture, which is not
  modelled: \<open>pirq_guest_bind\<close> is its result code, and \<open>pirq_guest_unbind\<close>, which returns nothing, is left out together
  with the \<open>BUG_ON\<close> checks that it has on its own tables.
\<close>

section \<open>Data\<close>

text \<open>The hooks of the security module that the event channels call (\<open>struct xsm_operations\<close>), and
  those of the module that allows everything (\<open>xen/xsm/dummy.c\<close>).\<close>

record xsm_operations =
  xsm_alloc_security_evtchn :: "int \<Rightarrow> int"
  xsm_evtchn_unbound :: "domid \<Rightarrow> port \<Rightarrow> domid \<Rightarrow> int"
  xsm_evtchn_interdomain :: "domid \<Rightarrow> port \<Rightarrow> domid \<Rightarrow> port \<Rightarrow> int"
  xsm_evtchn_send :: "domid \<Rightarrow> port \<Rightarrow> int"
  xsm_evtchn_status :: "domid \<Rightarrow> port \<Rightarrow> int"
  xsm_evtchn_reset :: "domid \<Rightarrow> domid \<Rightarrow> int"

definition dummy_xsm_ops :: xsm_operations where
  "dummy_xsm_ops = \<lparr>xsm_alloc_security_evtchn = (\<lambda>_. 0), xsm_evtchn_unbound = (\<lambda>_ _ _. 0),
     xsm_evtchn_interdomain = (\<lambda>_ _ _ _. 0), xsm_evtchn_send = (\<lambda>_ _. 0),
     xsm_evtchn_status = (\<lambda>_ _. 0), xsm_evtchn_reset = (\<lambda>_ _. 0)\<rparr>"

record evtchn_env = env +
  xmalloc_ok :: bool
  domain_lt :: "domid \<Rightarrow> domid \<Rightarrow> bool"
  xsm_ops :: xsm_operations
  pirq_guest_bind_rc :: int
  copy_from_guest_ok :: bool
  copy_to_guest_ok :: bool

record evtchn_alloc_unbound_t =
  au_dom :: domid
  au_remote_dom :: domid
  au_port :: port

record evtchn_bind_interdomain_t =
  bi_remote_dom :: domid
  bi_remote_port :: port
  bi_local_port :: port

record evtchn_bind_virq_t =
  bv_virq :: int
  bv_vcpu :: vcpuid
  bv_port :: port

record evtchn_bind_ipi_t =
  bipi_vcpu :: vcpuid
  bipi_port :: port

record evtchn_bind_pirq_t =
  bp_pirq :: int
  bp_flags :: u32
  bp_port :: port

datatype evtchn_stat =
    EVTCHNSTAT_closed
  | EVTCHNSTAT_unbound domid
  | EVTCHNSTAT_interdomain domid port
  | EVTCHNSTAT_pirq int
  | EVTCHNSTAT_virq int
  | EVTCHNSTAT_ipi

record evtchn_status_t =
  st_dom :: domid
  st_port :: port
  st_status :: evtchn_stat
  st_vcpu :: vcpuid

text \<open>The argument of the hypercall, by command; any other command is \<open>EVTCHNOP_other\<close>.\<close>

datatype evtchnop =
    EVTCHNOP_alloc_unbound evtchn_alloc_unbound_t
  | EVTCHNOP_bind_interdomain evtchn_bind_interdomain_t
  | EVTCHNOP_bind_virq evtchn_bind_virq_t
  | EVTCHNOP_bind_ipi evtchn_bind_ipi_t
  | EVTCHNOP_bind_pirq evtchn_bind_pirq_t
  | EVTCHNOP_close port
  | EVTCHNOP_send port
  | EVTCHNOP_status evtchn_status_t
  | EVTCHNOP_bind_vcpu port vcpuid
  | EVTCHNOP_unmask port
  | EVTCHNOP_reset domid
  | EVTCHNOP_other int

section \<open>Ports and channels\<close>

definition MAX_EVTCHNS :: "domain \<Rightarrow> int" where
  "MAX_EVTCHNS d = (if \<not> is_compat d then NR_EVENT_CHANNELS else 4 * 4 * 64)"

definition BITS_PER_GUEST_LONG :: "domain \<Rightarrow> int" where
  "BITS_PER_GUEST_LONG d = (if \<not> is_compat d then 64 else 32)"

definition bucket_from_port :: "domain \<Rightarrow> port \<Rightarrow> (int \<Rightarrow> evtchn) option" where
  "bucket_from_port d p = evtchn d (p div EVTCHNS_PER_BUCKET)"

definition port_is_valid :: "domain \<Rightarrow> port \<Rightarrow> bool" where
  "port_is_valid d p = (p \<ge> 0 \<and> p < MAX_EVTCHNS d \<and> bucket_from_port d p \<noteq> None)"

definition evtchn_from_port :: "domain \<Rightarrow> port \<Rightarrow> evtchn" where
  "evtchn_from_port d p = the (bucket_from_port d p) (p AND (EVTCHNS_PER_BUCKET - 1))"

text \<open>Writing a channel through its pointer.\<close>

definition upd_evtchn :: "domain \<Rightarrow> port \<Rightarrow> (evtchn \<Rightarrow> evtchn) \<Rightarrow> domain" where
  "upd_evtchn d p f = d\<lparr>evtchn := (evtchn d)(p div EVTCHNS_PER_BUCKET :=
     map_option (\<lambda>b. b(p AND (EVTCHNS_PER_BUCKET - 1) := f (evtchn_from_port d p)))
       (bucket_from_port d p))\<rparr>"

definition upd_dom :: "system \<Rightarrow> domid \<Rightarrow> (domain \<Rightarrow> domain) \<Rightarrow> system" where
  "upd_dom s d f = s(d := map_option f (s d))"

text \<open>The conversion to \<open>u16\<close>.\<close>

definition to_u16 :: "int \<Rightarrow> int" where
  "to_u16 x = x mod 65536"

definition zero_evtchn :: evtchn where
  "zero_evtchn = \<lparr>state = ECS_FREE, consumer_is_xen = False, notify_vcpu_id = 0\<rparr>"

definition arch_virq_is_global :: "int \<Rightarrow> bool" where
  "arch_virq_is_global virq = True"

text \<open>The switch of \<open>virq_is_global\<close>: \<open>VIRQ_TIMER\<close>, \<open>VIRQ_DEBUG\<close> and \<open>VIRQ_XENOPROF\<close> are per
  virtual CPU, \<open>VIRQ_ARCH_0\<close> to \<open>VIRQ_ARCH_7\<close> up to the architecture, all others global.\<close>

definition virq_class :: "int \<Rightarrow> bool" where
  "virq_class virq =
     (if virq = 0 \<or> virq = 1 \<or> virq = 7 then False
      else if 16 \<le> virq \<and> virq \<le> 23 then arch_virq_is_global virq
      else True)"

definition virq_is_global :: "int \<Rightarrow> bool outcome" where
  "virq_is_global virq = bug_on (\<not> (virq \<ge> 0 \<and> virq < NR_VIRQS)) (Done (virq_class virq))"

text \<open>The loop of \<open>get_free_port\<close>: the port at which it stops, and whether that port is free.\<close>

function free_port_from :: "domain \<Rightarrow> port \<Rightarrow> port \<times> bool" where
  "free_port_from d port =
     (if port_is_valid d port then
        if state (evtchn_from_port d port) = ECS_FREE then (port, True)
        else free_port_from d (port + 1)
      else (port, False))"
  by pat_completeness auto
termination
  by (relation "measure (\<lambda>(d, p). nat (NR_EVENT_CHANNELS - p))")
    (auto simp: port_is_valid_def MAX_EVTCHNS_def NR_EVENT_CHANNELS_def split: if_splits)

declare free_port_from.simps [simp del]

definition get_free_port :: "'e evtchn_env_scheme \<Rightarrow> domain \<Rightarrow> int \<times> domain" where
  "get_free_port env d =
     (if is_dying d \<noteq> DOMDYING_alive then (- EINVAL, d)
      else case free_port_from d 0 of
        (port, True) \<Rightarrow> (port, d)
      | (port, False) \<Rightarrow>
          if port = MAX_EVTCHNS d then (- ENOSPC, d)
          else if \<not> xmalloc_ok env then (- ENOMEM, d)
          else
            let b = port div EVTCHNS_PER_BUCKET;
                d1 = d\<lparr>evtchn := (evtchn d)(b := Some (\<lambda>_. zero_evtchn)),
                       evtchn_freed := (evtchn_freed d)(b := False)\<rparr>
            in if \<exists>i \<in> set [0..EVTCHNS_PER_BUCKET - 1]. xsm_alloc_security_evtchn (xsm_ops env) i \<noteq> 0
               then (- ENOMEM, d1\<lparr>evtchn_freed := (evtchn_freed d1)(b := True)\<rparr>)
               else (port, d1))"

section \<open>Delivery\<close>

definition set_pending_poll :: "'e env_scheme \<Rightarrow> domain \<Rightarrow> domain" where
  "set_pending_poll env d =
     (if d_is_polling d then
        for_each_vcpu (d\<lparr>d_is_polling := False\<rparr>)
          (\<lambda>v. if \<not> v_is_polling v then v else vcpu_unblock env d (v\<lparr>v_is_polling := False\<rparr>))
      else d)"

definition set_pending_sel :: "'e env_scheme \<Rightarrow> domid \<Rightarrow> domain \<Rightarrow> vcpuid \<Rightarrow> port \<Rightarrow> domain" where
  "set_pending_sel env did d vid port =
     upd_vcpu d vid (\<lambda>v.
       let w = port div BITS_PER_GUEST_LONG d in
       if \<not> evtchn_pending_sel v w then
         vcpu_mark_events_pending env did d vid
           (v\<lparr>evtchn_pending_sel := (evtchn_pending_sel v)(w := True)\<rparr>)
       else v)"

definition evtchn_set_pending ::
  "'e env_scheme \<Rightarrow> domid \<Rightarrow> domain \<Rightarrow> vcpuid \<Rightarrow> port \<Rightarrow> (int \<times> domain) outcome" where
  "evtchn_set_pending env did d vid port =
     bug_on (vcpu d vid = None)
      (if evtchn_pending d port then Done (1, d)
       else
         let d1 = d\<lparr>evtchn_pending := (evtchn_pending d)(port := True)\<rparr>;
             d2 = (if \<not> evtchn_mask d1 port then set_pending_sel env did d1 vid port else d1)
         in Done (0, set_pending_poll env d2))"

text \<open>The same within the system: a delivery to \<open>d->vcpu[vid]\<close>.\<close>

definition set_pending_in ::
  "'e env_scheme \<Rightarrow> system \<Rightarrow> domid \<Rightarrow> vcpuid \<Rightarrow> port \<Rightarrow> (int \<times> system) outcome" where
  "set_pending_in env s did vid port =
     bind_outcome (evtchn_set_pending env did (the (s did)) vid port)
       (\<lambda>(r, d). Done (r, s(did \<mapsto> d)))"

section \<open>Allocating and binding\<close>

definition evtchn_alloc_unbound ::
  "'e evtchn_env_scheme \<Rightarrow> system \<Rightarrow> evtchn_alloc_unbound_t \<Rightarrow> int \<times> system \<times> evtchn_alloc_unbound_t" where
  "evtchn_alloc_unbound env s alloc =
     (case rcu_lock_target_domain_by_id env s (au_dom alloc) of
        Inl rc \<Rightarrow> (rc, s, alloc)
      | Inr d \<Rightarrow>
          let (port, dd) = get_free_port env (the (s d)); s1 = s(d \<mapsto> dd) in
          if port < 0 then (port, s1, alloc)
          else
            let rc = xsm_evtchn_unbound (xsm_ops env) d port (au_remote_dom alloc) in
            if rc \<noteq> 0 then (rc, s1, alloc)
            else
              let remote = (if au_remote_dom alloc = DOMID_SELF then current_dom env
                            else au_remote_dom alloc)
              in (0, upd_dom s1 d (\<lambda>dd. upd_evtchn dd port (\<lambda>c. c\<lparr>state := ECS_UNBOUND remote\<rparr>)),
                  alloc\<lparr>au_port := port\<rparr>))"

definition evtchn_bind_interdomain ::
  "'e evtchn_env_scheme \<Rightarrow> system \<Rightarrow> evtchn_bind_interdomain_t \<Rightarrow>
     (int \<times> system \<times> evtchn_bind_interdomain_t) outcome" where
  "evtchn_bind_interdomain env s bind =
     (let ld = current_dom env; rport = bi_remote_port bind;
          rdom = (if bi_remote_dom bind = DOMID_SELF then ld else bi_remote_dom bind)
      in case rcu_lock_domain_by_id s rdom of
        None \<Rightarrow> Done (- ESRCH, s, bind)
      | Some rd \<Rightarrow>
          let (lport, ldd) = get_free_port env (the (s ld)); s1 = s(ld \<mapsto> ldd) in
          if lport < 0 then Done (lport, s1, bind)
          else if \<not> port_is_valid (the (s1 rd)) rport then Done (- EINVAL, s1, bind)
          else if state (evtchn_from_port (the (s1 rd)) rport) \<noteq> ECS_UNBOUND ld
            then Done (- EINVAL, s1, bind)
          else
            let rc = xsm_evtchn_interdomain (xsm_ops env) ld lport rd rport in
            if rc \<noteq> 0 then Done (rc, s1, bind)
            else
              let s2 = upd_dom s1 ld (\<lambda>d. upd_evtchn d lport
                         (\<lambda>c. c\<lparr>state := ECS_INTERDOMAIN rd (to_u16 rport)\<rparr>));
                  s3 = upd_dom s2 rd (\<lambda>d. upd_evtchn d rport
                         (\<lambda>c. c\<lparr>state := ECS_INTERDOMAIN ld (to_u16 lport)\<rparr>))
              in bind_outcome
                   (set_pending_in env s3 ld (notify_vcpu_id (evtchn_from_port (the (s3 ld)) lport)) lport)
                   (\<lambda>(_, s4). Done (0, s4, bind\<lparr>bi_local_port := lport\<rparr>)))"

definition evtchn_bind_virq ::
  "'e evtchn_env_scheme \<Rightarrow> system \<Rightarrow> evtchn_bind_virq_t \<Rightarrow> (int \<times> system \<times> evtchn_bind_virq_t) outcome" where
  "evtchn_bind_virq env s bind =
     (let d = current_dom env; virq = bv_virq bind; vcpu = bv_vcpu bind in
      if virq < 0 \<or> virq \<ge> NR_VIRQS then Done (- EINVAL, s, bind)
      else bind_outcome (virq_is_global virq) (\<lambda>global.
        if global \<and> vcpu \<noteq> 0 then Done (- EINVAL, s, bind)
        else if vcpu < 0 \<or> vcpu \<ge> MAX_VIRT_CPUS then Done (- ENOENT, s, bind)
        else case domain.vcpu (the (s d)) vcpu of
          None \<Rightarrow> Done (- ENOENT, s, bind)
        | Some v \<Rightarrow>
            if virq_to_evtchn v virq \<noteq> 0 then Done (- EEXIST, s, bind)
            else
              let (port, dd) = get_free_port env (the (s d)); s1 = s(d \<mapsto> dd) in
              if port < 0 then Done (port, s1, bind)
              else
                let s2 = upd_dom s1 d (\<lambda>d. upd_evtchn d port
                           (\<lambda>c. c\<lparr>state := ECS_VIRQ virq, notify_vcpu_id := vcpu\<rparr>));
                    s3 = upd_dom s2 d (\<lambda>d. upd_vcpu d vcpu
                           (\<lambda>v. v\<lparr>virq_to_evtchn := (virq_to_evtchn v)(virq := port)\<rparr>))
                in Done (0, s3, bind\<lparr>bv_port := port\<rparr>)))"

definition evtchn_bind_ipi ::
  "'e evtchn_env_scheme \<Rightarrow> system \<Rightarrow> evtchn_bind_ipi_t \<Rightarrow> int \<times> system \<times> evtchn_bind_ipi_t" where
  "evtchn_bind_ipi env s bind =
     (let d = current_dom env; vcpu = bipi_vcpu bind in
      if vcpu < 0 \<or> vcpu \<ge> MAX_VIRT_CPUS \<or> domain.vcpu (the (s d)) vcpu = None then (- ENOENT, s, bind)
      else
        let (port, dd) = get_free_port env (the (s d)); s1 = s(d \<mapsto> dd) in
        if port < 0 then (port, s1, bind)
        else
          (0, upd_dom s1 d (\<lambda>d. upd_evtchn d port
                (\<lambda>c. c\<lparr>state := ECS_IPI, notify_vcpu_id := vcpu\<rparr>)),
           bind\<lparr>bipi_port := port\<rparr>))"

definition evtchn_bind_pirq ::
  "'e evtchn_env_scheme \<Rightarrow> system \<Rightarrow> evtchn_bind_pirq_t \<Rightarrow> int \<times> system \<times> evtchn_bind_pirq_t" where
  "evtchn_bind_pirq env s bind =
     (let d = current_dom env; pirq = bp_pirq bind in
      if pirq < 0 \<or> pirq \<ge> NR_IRQS then (- EINVAL, s, bind)
      else if \<not> irq_access_permitted (the (s d)) (of_int pirq) then (- EPERM, s, bind)
      else if pirq_to_evtchn (the (s d)) pirq \<noteq> 0 then (- EEXIST, s, bind)
      else
        let (port, dd) = get_free_port env (the (s d)); s1 = s(d \<mapsto> dd) in
        if port < 0 then (port, s1, bind)
        else
          let s2 = upd_dom s1 d (\<lambda>d. d\<lparr>pirq_to_evtchn := (pirq_to_evtchn d)(pirq := port)\<rparr>);
              rc = pirq_guest_bind_rc env
          in if rc \<noteq> 0 then
               (rc, upd_dom s2 d (\<lambda>d. d\<lparr>pirq_to_evtchn := (pirq_to_evtchn d)(pirq := 0)\<rparr>), bind)
             else
               (rc, upd_dom s2 d (\<lambda>d. upd_evtchn d port (\<lambda>c. c\<lparr>state := ECS_PIRQ pirq\<rparr>)),
                bind\<lparr>bp_port := port\<rparr>))"

section \<open>Closing\<close>

text \<open>
  One pass of \<open>__evtchn_close\<close> under the lock of \<open>d1\<close>, from the label \<open>again\<close>; \<open>d2\<close> is the local
  variable. It either finishes, or has given up the lock to lock the other domain first and
  must start again.
\<close>

datatype close_result = Again domid | Finished int system

definition close_free :: "system \<Rightarrow> domid \<Rightarrow> port \<Rightarrow> close_result" where
  "close_free s d1 port1 =
     Finished 0 (upd_dom s d1 (\<lambda>d. upd_evtchn (d\<lparr>evtchn_pending := (evtchn_pending d)(port1 := False)\<rparr>)
       port1 (\<lambda>c. c\<lparr>state := ECS_FREE, notify_vcpu_id := 0\<rparr>)))"

definition close_peer :: "system \<Rightarrow> domid \<Rightarrow> port \<Rightarrow> domid \<Rightarrow> port \<Rightarrow> close_result outcome" where
  "close_peer s d1 port1 d2 port2 =
     bug_on (s d2 = None \<or> \<not> port_is_valid (the (s d2)) port2)
      (case state (evtchn_from_port (the (s d2)) port2) of
         ECS_INTERDOMAIN rd rp \<Rightarrow>
           bug_on (rd \<noteq> d1)
            (Done (close_free (upd_dom s d2 (\<lambda>d. upd_evtchn d port2 (\<lambda>c. c\<lparr>state := ECS_UNBOUND d1\<rparr>)))
               d1 port1))
       | _ \<Rightarrow> BUG)"

definition evtchn_close_pass ::
  "'e evtchn_env_scheme \<Rightarrow> system \<Rightarrow> domid \<Rightarrow> port \<Rightarrow> domid option \<Rightarrow> close_result outcome" where
  "evtchn_close_pass env s d1 port1 d2 =
     (if \<not> port_is_valid (the (s d1)) port1 then Done (Finished (- EINVAL) s)
      else
        let chn1 = evtchn_from_port (the (s d1)) port1 in
        if consumer_is_xen chn1 then Done (Finished (- EINVAL) s)
        else case state chn1 of
          ECS_FREE \<Rightarrow> Done (Finished (- EINVAL) s)
        | ECS_RESERVED \<Rightarrow> Done (Finished (- EINVAL) s)
        | ECS_UNBOUND _ \<Rightarrow> Done (close_free s d1 port1)
        | ECS_PIRQ pirq \<Rightarrow>
            Done (close_free (upd_dom s d1
              (\<lambda>d. d\<lparr>pirq_to_evtchn := (pirq_to_evtchn d)(pirq := 0)\<rparr>)) d1 port1)
        | ECS_VIRQ virq \<Rightarrow>
            Done (close_free (upd_dom s d1 (\<lambda>d. for_each_vcpu d
              (\<lambda>v. if virq_to_evtchn v virq \<noteq> port1 then v
                   else v\<lparr>virq_to_evtchn := (virq_to_evtchn v)(virq := 0)\<rparr>))) d1 port1)
        | ECS_IPI \<Rightarrow> Done (close_free s d1 port1)
        | ECS_INTERDOMAIN rdom rport \<Rightarrow>
           (case d2 of
              None \<Rightarrow>
                bug_on (s rdom = None \<or> \<not> get_domain (the (s rdom)))
                 (if domain_lt env d1 rdom then close_peer s d1 port1 rdom rport
                  else if d1 \<noteq> rdom then Done (Again rdom)
                  else close_peer s d1 port1 rdom rport)
            | Some d2 \<Rightarrow>
                if d2 \<noteq> rdom then Done (Finished (- EINVAL) s)
                else close_peer s d1 port1 d2 rport))"

text \<open>The whole function: at most two passes, with the steps of other CPUs between them. The second
  pass knows \<open>d2\<close> and cannot ask for a third.\<close>

definition evtchn_close' ::
  "'e evtchn_env_scheme \<Rightarrow> (system \<Rightarrow> system) \<Rightarrow> system \<Rightarrow> domid \<Rightarrow> port \<Rightarrow> (int \<times> system) outcome" where
  "evtchn_close' env other s d1 port1 =
     bind_outcome (evtchn_close_pass env s d1 port1 None) (\<lambda>r. case r of
       Finished rc s1 \<Rightarrow> Done (rc, s1)
     | Again d2 \<Rightarrow>
         bind_outcome (evtchn_close_pass env (other s) d1 port1 (Some d2)) (\<lambda>r. case r of
           Finished rc s1 \<Rightarrow> Done (rc, s1)
         | Again _ \<Rightarrow> BUG))"

definition evtchn_close ::
  "'e evtchn_env_scheme \<Rightarrow> (system \<Rightarrow> system) \<Rightarrow> system \<Rightarrow> port \<Rightarrow> (int \<times> system) outcome" where
  "evtchn_close env other s port = evtchn_close' env other s (current_dom env) port"

section \<open>Sending\<close>

definition evtchn_send :: "'e evtchn_env_scheme \<Rightarrow> system \<Rightarrow> domid \<Rightarrow> port \<Rightarrow> (int \<times> system) outcome" where
  "evtchn_send env s ld lport =
     (if \<not> port_is_valid (the (s ld)) lport then Done (- EINVAL, s)
      else
        let lchn = evtchn_from_port (the (s ld)) lport in
        if consumer_is_xen lchn then Done (- EINVAL, s)
        else
          let ret = xsm_evtchn_send (xsm_ops env) ld lport in
          if ret \<noteq> 0 then Done (ret, s)
          else case state lchn of
            ECS_INTERDOMAIN rd rport \<Rightarrow>
              bug_on (s rd = None \<or> bucket_from_port (the (s rd)) rport = None)
               (let rchn = evtchn_from_port (the (s rd)) rport; rvcpu = notify_vcpu_id rchn in
                if consumer_is_xen rchn then
                  bug_on (vcpu (the (s rd)) rvcpu = None)
                   (Done (0, upd_dom s rd (\<lambda>d. upd_vcpu d rvcpu
                      (\<lambda>v. if VPF_blocked_in_xen v
                           then vcpu_wake env d (v\<lparr>VPF_blocked_in_xen := False\<rparr>) else v))))
                else
                  bind_outcome (set_pending_in env s rd rvcpu rport) (\<lambda>(_, s). Done (0, s)))
          | ECS_IPI \<Rightarrow>
              bind_outcome (set_pending_in env s ld (notify_vcpu_id lchn) lport) (\<lambda>(_, s). Done (0, s))
          | ECS_UNBOUND _ \<Rightarrow> Done (0, s)
          | _ \<Rightarrow> Done (- EINVAL, s))"

definition guest_enabled_event :: "vcpu option \<Rightarrow> int \<Rightarrow> bool" where
  "guest_enabled_event v virq = (case v of None \<Rightarrow> False | Some v \<Rightarrow> virq_to_evtchn v virq \<noteq> 0)"

definition send_guest_vcpu_virq ::
  "'e env_scheme \<Rightarrow> system \<Rightarrow> domid \<Rightarrow> vcpuid \<Rightarrow> int \<Rightarrow> system outcome" where
  "send_guest_vcpu_virq env s d vid virq =
     bind_outcome (virq_is_global virq) (\<lambda>global. bug_on global
      (case vcpu (the (s d)) vid of
         None \<Rightarrow> BUG
       | Some v \<Rightarrow>
           let port = virq_to_evtchn v virq in
           if port = 0 then Done s
           else bind_outcome (set_pending_in env s d vid port) (\<lambda>(_, s). Done s)))"

definition send_guest_global_virq ::
  "'e env_scheme \<Rightarrow> system \<Rightarrow> domid option \<Rightarrow> int \<Rightarrow> system outcome" where
  "send_guest_global_virq env s d virq =
     bind_outcome (virq_is_global virq) (\<lambda>global. bug_on (\<not> global)
      (case d of
         None \<Rightarrow> Done s
       | Some d \<Rightarrow>
          (case vcpu (the (s d)) 0 of
             None \<Rightarrow> Done s
           | Some v \<Rightarrow>
               let port = virq_to_evtchn v virq in
               if port = 0 then Done s
               else
                 bug_on (bucket_from_port (the (s d)) port = None)
                  (bind_outcome (set_pending_in env s d
                      (notify_vcpu_id (evtchn_from_port (the (s d)) port)) port)
                    (\<lambda>(_, s). Done s)))))"

definition send_guest_pirq :: "'e env_scheme \<Rightarrow> system \<Rightarrow> domid \<Rightarrow> int \<Rightarrow> (int \<times> system) outcome" where
  "send_guest_pirq env s d pirq =
     (let port = pirq_to_evtchn (the (s d)) pirq in
      bug_on (port = 0)
       (bug_on (bucket_from_port (the (s d)) port = None)
         (set_pending_in env s d (notify_vcpu_id (evtchn_from_port (the (s d)) port)) port)))"

section \<open>Inspecting and configuring\<close>

definition evtchn_status ::
  "'e evtchn_env_scheme \<Rightarrow> system \<Rightarrow> evtchn_status_t \<Rightarrow> int \<times> evtchn_status_t" where
  "evtchn_status env s status =
     (case rcu_lock_target_domain_by_id env s (st_dom status) of
        Inl rc \<Rightarrow> (rc, status)
      | Inr d \<Rightarrow>
          if \<not> port_is_valid (the (s d)) (st_port status) then (- EINVAL, status)
          else
            let chn = evtchn_from_port (the (s d)) (st_port status);
                rc = xsm_evtchn_status (xsm_ops env) d (st_port status)
            in if rc \<noteq> 0 then (rc, status)
               else
                 (0, status\<lparr>st_status := (case state chn of
                        ECS_FREE \<Rightarrow> EVTCHNSTAT_closed
                      | ECS_RESERVED \<Rightarrow> EVTCHNSTAT_closed
                      | ECS_UNBOUND r \<Rightarrow> EVTCHNSTAT_unbound r
                      | ECS_INTERDOMAIN rd rp \<Rightarrow> EVTCHNSTAT_interdomain rd rp
                      | ECS_PIRQ q \<Rightarrow> EVTCHNSTAT_pirq q
                      | ECS_VIRQ q \<Rightarrow> EVTCHNSTAT_virq q
                      | ECS_IPI \<Rightarrow> EVTCHNSTAT_ipi),
                    st_vcpu := notify_vcpu_id chn\<rparr>))"

text \<open>The arguments of \<open>evtchn_bind_vcpu\<close> are unsigned; a negative number here is one above
  \<open>2\<^sup>3\<^sup>1\<close> there, which the upper bounds refuse.\<close>

definition evtchn_bind_vcpu ::
  "'e evtchn_env_scheme \<Rightarrow> system \<Rightarrow> port \<Rightarrow> vcpuid \<Rightarrow> (int \<times> system) outcome" where
  "evtchn_bind_vcpu env s port vcpu_id =
     (let d = current_dom env in
      if vcpu_id < 0 \<or> vcpu_id \<ge> MAX_VIRT_CPUS \<or> vcpu (the (s d)) vcpu_id = None then Done (- ENOENT, s)
      else if \<not> port_is_valid (the (s d)) port then Done (- EINVAL, s)
      else
        let chn = evtchn_from_port (the (s d)) port;
            bound = upd_dom s d (\<lambda>d. upd_evtchn d port (\<lambda>c. c\<lparr>notify_vcpu_id := vcpu_id\<rparr>))
        in if consumer_is_xen chn then Done (- EINVAL, s)
           else case state chn of
             ECS_VIRQ virq \<Rightarrow> bind_outcome (virq_is_global virq)
               (\<lambda>global. if global then Done (0, bound) else Done (- EINVAL, s))
           | ECS_UNBOUND _ \<Rightarrow> Done (0, bound)
           | ECS_INTERDOMAIN _ _ \<Rightarrow> Done (0, bound)
           | ECS_PIRQ _ \<Rightarrow> Done (0, bound)
           | _ \<Rightarrow> Done (- EINVAL, s))"

definition evtchn_unmask :: "'e evtchn_env_scheme \<Rightarrow> system \<Rightarrow> port \<Rightarrow> (int \<times> system) outcome" where
  "evtchn_unmask env s port =
     (let did = current_dom env; d = the (s did) in
      if \<not> port_is_valid d port then Done (- EINVAL, s)
      else
        let vid = notify_vcpu_id (evtchn_from_port d port);
            d1 = d\<lparr>evtchn_mask := (evtchn_mask d)(port := False)\<rparr>
        in if evtchn_mask d port \<and> evtchn_pending d port then
             bug_on (vcpu d vid = None) (Done (0, s(did \<mapsto> set_pending_sel env did d1 vid port)))
           else Done (0, s(did \<mapsto> d1)))"

section \<open>Closing every channel of a domain\<close>

text \<open>
  The loop of \<open>evtchn_reset\<close>. \<open>other port\<close> is what other CPUs do in the gap of the close of
  \<open>port\<close>, and \<open>between port\<close> what they do after it.
\<close>

function reset_from ::
  "'e evtchn_env_scheme \<Rightarrow> (port \<Rightarrow> system \<Rightarrow> system) \<Rightarrow> (port \<Rightarrow> system \<Rightarrow> system) \<Rightarrow>
     system \<Rightarrow> domid \<Rightarrow> port \<Rightarrow> system outcome" where
  "reset_from env other between s d i =
     (if port_is_valid (the (s d)) i then
        (case evtchn_close' env (other i) s d i of
           BUG \<Rightarrow> BUG
         | Done (_, s1) \<Rightarrow> reset_from env other between (between i s1) d (i + 1))
      else Done s)"
  by pat_completeness auto
termination
  by (relation "measure (\<lambda>(env, other, between, s, d, i). nat (NR_EVENT_CHANNELS - i))")
    (auto simp: port_is_valid_def MAX_EVTCHNS_def NR_EVENT_CHANNELS_def split: if_splits)

declare reset_from.simps [simp del]

definition evtchn_reset ::
  "'e evtchn_env_scheme \<Rightarrow> (port \<Rightarrow> system \<Rightarrow> system) \<Rightarrow> (port \<Rightarrow> system \<Rightarrow> system) \<Rightarrow>
     system \<Rightarrow> domid \<Rightarrow> (int \<times> system) outcome" where
  "evtchn_reset env other between s dm =
     (case rcu_lock_target_domain_by_id env s dm of
        Inl rc \<Rightarrow> Done (rc, s)
      | Inr d \<Rightarrow>
          let rc = xsm_evtchn_reset (xsm_ops env) (current_dom env) d in
          if rc \<noteq> 0 then Done (rc, s)
          else bind_outcome (reset_from env other between s d 0) (\<lambda>s1. Done (0, s1)))"

section \<open>The hypercall\<close>

text \<open>The copy back to the guest that ends the commands with a result.\<close>

definition copy_back :: "'e evtchn_env_scheme \<Rightarrow> int \<Rightarrow> evtchnop \<Rightarrow> evtchnop \<Rightarrow> int \<times> evtchnop" where
  "copy_back env rc arg arg' =
     (if rc = 0 then if \<not> copy_to_guest_ok env then (- EFAULT, arg) else (rc, arg') else (rc, arg))"

definition do_event_channel_op ::
  "'e evtchn_env_scheme \<Rightarrow> (port \<Rightarrow> system \<Rightarrow> system) \<Rightarrow> (port \<Rightarrow> system \<Rightarrow> system) \<Rightarrow>
     system \<Rightarrow> evtchnop \<Rightarrow> ((int \<times> evtchnop) \<times> system) outcome" where
  "do_event_channel_op env other between s arg =
     (if (case arg of EVTCHNOP_other _ \<Rightarrow> False | _ \<Rightarrow> \<not> copy_from_guest_ok env) then Done ((- EFAULT, arg), s)
      else case arg of
        EVTCHNOP_alloc_unbound a \<Rightarrow>
          let (rc, s1, a1) = evtchn_alloc_unbound env s a in
          Done (copy_back env rc arg (EVTCHNOP_alloc_unbound a1), s1)
      | EVTCHNOP_bind_interdomain b \<Rightarrow>
          bind_outcome (evtchn_bind_interdomain env s b) (\<lambda>(rc, s1, b1).
            Done (copy_back env rc arg (EVTCHNOP_bind_interdomain b1), s1))
      | EVTCHNOP_bind_virq b \<Rightarrow>
          bind_outcome (evtchn_bind_virq env s b) (\<lambda>(rc, s1, b1).
            Done (copy_back env rc arg (EVTCHNOP_bind_virq b1), s1))
      | EVTCHNOP_bind_ipi b \<Rightarrow>
          let (rc, s1, b1) = evtchn_bind_ipi env s b in
          Done (copy_back env rc arg (EVTCHNOP_bind_ipi b1), s1)
      | EVTCHNOP_bind_pirq b \<Rightarrow>
          let (rc, s1, b1) = evtchn_bind_pirq env s b in
          Done (copy_back env rc arg (EVTCHNOP_bind_pirq b1), s1)
      | EVTCHNOP_close port \<Rightarrow>
          bind_outcome (evtchn_close env (other port) s port) (\<lambda>(rc, s1). Done ((rc, arg), s1))
      | EVTCHNOP_send port \<Rightarrow>
          bind_outcome (evtchn_send env s (current_dom env) port) (\<lambda>(rc, s1). Done ((rc, arg), s1))
      | EVTCHNOP_status st \<Rightarrow>
          let (rc, st1) = evtchn_status env s st in
          Done (copy_back env rc arg (EVTCHNOP_status st1), s)
      | EVTCHNOP_bind_vcpu port v \<Rightarrow>
          bind_outcome (evtchn_bind_vcpu env s port v) (\<lambda>(rc, s1). Done ((rc, arg), s1))
      | EVTCHNOP_unmask port \<Rightarrow>
          bind_outcome (evtchn_unmask env s port) (\<lambda>(rc, s1). Done ((rc, arg), s1))
      | EVTCHNOP_reset dm \<Rightarrow>
          bind_outcome (evtchn_reset env other between s dm) (\<lambda>(rc, s1). Done ((rc, arg), s1))
      | EVTCHNOP_other _ \<Rightarrow> Done ((- ENOSYS, arg), s))"

section \<open>Channels that end in the hypervisor\<close>

definition alloc_unbound_xen_event_channel ::
  "'e evtchn_env_scheme \<Rightarrow> system \<Rightarrow> domid \<Rightarrow> vcpuid \<Rightarrow> domid \<Rightarrow> int \<times> system" where
  "alloc_unbound_xen_event_channel env s d vcpu_id rdomid =
     (let (port, dd) = get_free_port env (the (s d)); s1 = s(d \<mapsto> dd) in
      if port < 0 then (port, s1)
      else (port, upd_dom s1 d (\<lambda>d. upd_evtchn d port
             (\<lambda>c. c\<lparr>state := ECS_UNBOUND rdomid, consumer_is_xen := True, notify_vcpu_id := vcpu_id\<rparr>))))"

definition free_xen_event_channel ::
  "'e evtchn_env_scheme \<Rightarrow> (port \<Rightarrow> system \<Rightarrow> system) \<Rightarrow> (port \<Rightarrow> system \<Rightarrow> system) \<Rightarrow>
     system \<Rightarrow> domid \<Rightarrow> port \<Rightarrow> system outcome" where
  "free_xen_event_channel env other between s d port =
     (if is_dying (the (s d)) \<noteq> DOMDYING_alive then Done s
      else
        bug_on (\<not> port_is_valid (the (s d)) port)
         (bug_on (\<not> consumer_is_xen (evtchn_from_port (the (s d)) port))
           (let s1 = upd_dom s d (\<lambda>d. upd_evtchn d port (\<lambda>c. c\<lparr>consumer_is_xen := False\<rparr>)) in
            bind_outcome (evtchn_close' env (other port) (between port s1) d port)
              (\<lambda>(_, s2). Done s2))))"

definition notify_via_xen_event_channel ::
  "'e evtchn_env_scheme \<Rightarrow> system \<Rightarrow> port \<Rightarrow> system outcome" where
  "notify_via_xen_event_channel env s lport =
     (let ld = current_dom env in
      bug_on (\<not> port_is_valid (the (s ld)) lport)
       (let lchn = evtchn_from_port (the (s ld)) lport in
        bug_on (\<not> consumer_is_xen lchn)
         (case state lchn of
            ECS_INTERDOMAIN rd rport \<Rightarrow>
              bug_on (s rd = None \<or> bucket_from_port (the (s rd)) rport = None)
               (bind_outcome (set_pending_in env s rd
                   (notify_vcpu_id (evtchn_from_port (the (s rd)) rport)) rport)
                 (\<lambda>(_, s). Done s))
          | _ \<Rightarrow> Done s)))"

section \<open>Creating and destroying a domain's channels\<close>

definition evtchn_init :: "'e evtchn_env_scheme \<Rightarrow> domain \<Rightarrow> int \<times> domain" where
  "evtchn_init env d =
     (let (port, d1) = get_free_port env d in
      if port \<noteq> 0 then (- EINVAL, d1)
      else (0, upd_evtchn d1 0 (\<lambda>c. c\<lparr>state := ECS_RESERVED\<rparr>)))"

text \<open>The loop clears \<open>consumer_is_xen\<close> of a channel before it takes the lock and closes the channel: \<open>cleared\<close> is
  what other CPUs do in this gap, \<open>between\<close> what they do before the next channel.\<close>

function destroy_from ::
  "'e evtchn_env_scheme \<Rightarrow> (port \<Rightarrow> system \<Rightarrow> system) \<Rightarrow> (port \<Rightarrow> system \<Rightarrow> system) \<Rightarrow> (port \<Rightarrow> system \<Rightarrow> system) \<Rightarrow>
     system \<Rightarrow> domid \<Rightarrow> port \<Rightarrow> system outcome" where
  "destroy_from env other cleared between s d i =
     (if port_is_valid (the (s d)) i then
        (case evtchn_close' env (other i)
                (cleared i (upd_dom s d (\<lambda>d. upd_evtchn d i (\<lambda>c. c\<lparr>consumer_is_xen := False\<rparr>)))) d i of
           BUG \<Rightarrow> BUG
         | Done (_, s1) \<Rightarrow> destroy_from env other cleared between (between i s1) d (i + 1))
      else Done s)"
  by pat_completeness auto
termination
  by (relation "measure (\<lambda>(env, other, cleared, between, s, d, i). nat (NR_EVENT_CHANNELS - i))")
    (auto simp: port_is_valid_def MAX_EVTCHNS_def NR_EVENT_CHANNELS_def split: if_splits)

declare destroy_from.simps [simp del]

definition evtchn_destroy ::
  "'e evtchn_env_scheme \<Rightarrow> (port \<Rightarrow> system \<Rightarrow> system) \<Rightarrow> (port \<Rightarrow> system \<Rightarrow> system) \<Rightarrow> (port \<Rightarrow> system \<Rightarrow> system) \<Rightarrow>
     system \<Rightarrow> domid \<Rightarrow> system outcome" where
  "evtchn_destroy env other cleared between s d =
     bug_on (is_dying (the (s d)) = DOMDYING_alive)
      (bind_outcome (destroy_from env other cleared between s d 0)
        (\<lambda>s1. Done (upd_dom s1 d (\<lambda>d. d\<lparr>evtchn :=
           (\<lambda>i. if 0 \<le> i \<and> i < NR_EVTCHN_BUCKETS then None else evtchn d i)\<rparr>))))"

end
