(* ===== verification/Event_Channel_Inv.thy ===== *)
theory Event_Channel_Inv
  imports Event_Channel
begin

text \<open>
  The invariants of the event channels. Within a domain, the tables that lead from an
  interrupt to a port and the states of the channels agree; between domains, connected channels name
  each other. The second is stated of an abstraction of the system, a table from domain and port to
  the state of the channel there, with a step relation that says how the table may change:
  the operations are shown to refine it.
\<close>

section \<open>Ports and channels\<close>

lemma and_bucket_mask: "(p::int) AND (EVTCHNS_PER_BUCKET - 1) = p mod EVTCHNS_PER_BUCKET"
proof -
  have "p AND 127 = take_bit 7 p" by (simp add: take_bit_eq_mask mask_eq_exp_minus_1)
  then show ?thesis by (simp add: EVTCHNS_PER_BUCKET_def take_bit_eq_mod)
qed

lemma port_split:
  "p div EVTCHNS_PER_BUCKET = q div EVTCHNS_PER_BUCKET \<and>
   p mod EVTCHNS_PER_BUCKET = q mod EVTCHNS_PER_BUCKET \<longleftrightarrow> p = q"
  by (metis div_mult_mod_eq)

lemma upd_evtchn_frame [simp]:
  "evtchn_freed (upd_evtchn d p f) = evtchn_freed d"
  "pirq_to_evtchn (upd_evtchn d p f) = pirq_to_evtchn d"
  "vcpu (upd_evtchn d p f) = vcpu d"
  "evtchn_pending (upd_evtchn d p f) = evtchn_pending d"
  "evtchn_mask (upd_evtchn d p f) = evtchn_mask d"
  "is_compat (upd_evtchn d p f) = is_compat d"
  "is_dying (upd_evtchn d p f) = is_dying d"
  "is_hvm (upd_evtchn d p f) = is_hvm d"
  "is_privileged (upd_evtchn d p f) = is_privileged d"
  "target (upd_evtchn d p f) = target d"
  "refcnt_destroyed (upd_evtchn d p f) = refcnt_destroyed d"
  "d_is_polling (upd_evtchn d p f) = d_is_polling d"
  "d_pause_count (upd_evtchn d p f) = d_pause_count d"
  "irq_caps (upd_evtchn d p f) = irq_caps d"
  "iomem_caps (upd_evtchn d p f) = iomem_caps d"
  by (simp_all add: upd_evtchn_def)

lemma port_is_valid_cong:
  assumes "evtchn d' = evtchn d" and "is_compat d' = is_compat d"
  shows "port_is_valid d' p = port_is_valid d p"
  using assms by (simp add: port_is_valid_def MAX_EVTCHNS_def bucket_from_port_def)

lemma evtchn_from_port_cong:
  assumes "evtchn d' = evtchn d"
  shows "evtchn_from_port d' p = evtchn_from_port d p"
  using assms by (simp add: evtchn_from_port_def bucket_from_port_def)

lemma port_is_valid_upd_evtchn [simp]: "port_is_valid (upd_evtchn d p f) q = port_is_valid d q"
  by (simp add: port_is_valid_def MAX_EVTCHNS_def bucket_from_port_def upd_evtchn_def)

lemma evtchn_from_port_upd_evtchn:
  assumes "bucket_from_port d p \<noteq> None"
  shows "evtchn_from_port (upd_evtchn d p f) q =
    (if q = p then f (evtchn_from_port d p) else evtchn_from_port d q)"
proof (cases "q div EVTCHNS_PER_BUCKET = p div EVTCHNS_PER_BUCKET")
  case True
  then show ?thesis
    using assms port_split [of q p]
    by (auto simp: evtchn_from_port_def bucket_from_port_def upd_evtchn_def and_bucket_mask)
next
  case False
  then show ?thesis
    by (auto simp: evtchn_from_port_def bucket_from_port_def upd_evtchn_def)
qed

lemma port_is_valid_bucket: "port_is_valid d p \<Longrightarrow> bucket_from_port d p \<noteq> None"
  by (simp add: port_is_valid_def)

lemma evtchn_from_port_upd [simp]:
  "port_is_valid d p \<Longrightarrow> evtchn_from_port (upd_evtchn d p f) q =
    (if q = p then f (evtchn_from_port d p) else evtchn_from_port d q)"
  by (rule evtchn_from_port_upd_evtchn) (rule port_is_valid_bucket)

text \<open>Field updates that do not touch the channels.\<close>

lemma evtchn_from_port_fields [simp]:
  "evtchn_from_port (d\<lparr>pirq_to_evtchn := x1\<rparr>) p = evtchn_from_port d p"
  "evtchn_from_port (d\<lparr>evtchn_pending := x2\<rparr>) p = evtchn_from_port d p"
  "evtchn_from_port (d\<lparr>evtchn_mask := x3\<rparr>) p = evtchn_from_port d p"
  "evtchn_from_port (d\<lparr>d_is_polling := x4\<rparr>) p = evtchn_from_port d p"
  "evtchn_from_port (d\<lparr>vcpu := x5\<rparr>) p = evtchn_from_port d p"
  "evtchn_from_port (for_each_vcpu d g) p = evtchn_from_port d p"
  "evtchn_from_port (upd_vcpu d v g) p = evtchn_from_port d p"
  by (simp_all add: evtchn_from_port_def bucket_from_port_def)

lemma port_is_valid_fields [simp]:
  "port_is_valid (d\<lparr>pirq_to_evtchn := x1\<rparr>) p = port_is_valid d p"
  "port_is_valid (d\<lparr>evtchn_pending := x2\<rparr>) p = port_is_valid d p"
  "port_is_valid (d\<lparr>evtchn_mask := x3\<rparr>) p = port_is_valid d p"
  "port_is_valid (d\<lparr>d_is_polling := x4\<rparr>) p = port_is_valid d p"
  "port_is_valid (d\<lparr>vcpu := x5\<rparr>) p = port_is_valid d p"
  "port_is_valid (for_each_vcpu d g) p = port_is_valid d p"
  "port_is_valid (upd_vcpu d v g) p = port_is_valid d p"
  by (simp_all add: port_is_valid_def MAX_EVTCHNS_def bucket_from_port_def)

lemma port_bounds:
  assumes "port_is_valid d p"
  shows "0 \<le> p" and "p < 4096" and "to_u16 p = p"
proof -
  show "0 \<le> p" "p < 4096"
    using assms by (auto simp: port_is_valid_def MAX_EVTCHNS_def NR_EVENT_CHANNELS_def split: if_splits)
  then show "to_u16 p = p" by (simp add: to_u16_def)
qed

lemma upd_dom_simps [simp]:
  "upd_dom s d f d' = (if d' = d then map_option f (s d) else s d')"
  by (simp add: upd_dom_def)

section \<open>The invariant of one domain\<close>

text \<open>The virtual CPU whose table holds the binding of a virtual interrupt.\<close>

definition virq_home :: "int \<Rightarrow> evtchn \<Rightarrow> vcpuid" where
  "virq_home q c = (if virq_class q then 0 else notify_vcpu_id c)"

definition chan_ok :: "domain \<Rightarrow> port \<Rightarrow> evtchn \<Rightarrow> bool" where
  "chan_ok d p c \<longleftrightarrow>
     (notify_vcpu_id c = 0 \<or> vcpu d (notify_vcpu_id c) \<noteq> None) \<and>
     (case state c of
        ECS_FREE \<Rightarrow> p \<noteq> 0 \<and> \<not> consumer_is_xen c \<and> notify_vcpu_id c = 0
      | ECS_RESERVED \<Rightarrow> p = 0 \<and> \<not> consumer_is_xen c
      | ECS_UNBOUND _ \<Rightarrow> p \<noteq> 0
      | ECS_INTERDOMAIN _ _ \<Rightarrow> p \<noteq> 0
      | ECS_PIRQ q \<Rightarrow> p \<noteq> 0 \<and> \<not> consumer_is_xen c \<and> 0 \<le> q \<and> q < NR_IRQS \<and> pirq_to_evtchn d q = p
      | ECS_VIRQ q \<Rightarrow> p \<noteq> 0 \<and> \<not> consumer_is_xen c \<and> 0 \<le> q \<and> q < NR_VIRQS \<and>
          (\<exists>v. vcpu d (virq_home q c) = Some v \<and> virq_to_evtchn v q = p)
      | ECS_IPI \<Rightarrow> p \<noteq> 0 \<and> \<not> consumer_is_xen c)"

definition pirqs_ok :: "domain \<Rightarrow> bool" where
  "pirqs_ok d \<longleftrightarrow> (\<forall>q. pirq_to_evtchn d q \<noteq> 0 \<longrightarrow>
     port_is_valid d (pirq_to_evtchn d q) \<and>
     state (evtchn_from_port d (pirq_to_evtchn d q)) = ECS_PIRQ q)"

definition virqs_ok :: "domain \<Rightarrow> bool" where
  "virqs_ok d \<longleftrightarrow> (\<forall>vid v q. vcpu d vid = Some v \<longrightarrow> virq_to_evtchn v q \<noteq> 0 \<longrightarrow>
     port_is_valid d (virq_to_evtchn v q) \<and>
     state (evtchn_from_port d (virq_to_evtchn v q)) = ECS_VIRQ q \<and>
     vid = virq_home q (evtchn_from_port d (virq_to_evtchn v q)))"

text \<open>The buckets are allocated one after the other.\<close>

definition ports_prefix :: "domain \<Rightarrow> bool" where
  "ports_prefix d \<longleftrightarrow> (\<forall>p q. port_is_valid d p \<longrightarrow> 0 \<le> q \<longrightarrow> q \<le> p \<longrightarrow> port_is_valid d q)"

text \<open>A domain that lives has its first bucket; one that is destroyed has none; and no bucket
  that is still pointed to has been freed.\<close>

definition life_ok :: "domain \<Rightarrow> bool" where
  "life_ok d \<longleftrightarrow> (is_dying d = DOMDYING_alive \<longrightarrow> port_is_valid d 0) \<and>
     (refcnt_destroyed d \<longrightarrow> is_dying d \<noteq> DOMDYING_alive \<and> (\<forall>p. \<not> port_is_valid d p)) \<and>
     (\<forall>b. \<not> evtchn_freed d b) \<and> ports_prefix d"

lemma life_ok_cong:
  assumes "is_dying d' = is_dying d" and "refcnt_destroyed d' = refcnt_destroyed d"
    and "evtchn_freed d' = evtchn_freed d" and "\<And>p. port_is_valid d' p = port_is_valid d p"
  shows "life_ok d' = life_ok d"
  using assms by (simp add: life_ok_def ports_prefix_def)

definition dom_inv :: "domain \<Rightarrow> bool" where
  "dom_inv d \<longleftrightarrow>
     (\<forall>p. port_is_valid d p \<longrightarrow> chan_ok d p (evtchn_from_port d p)) \<and>
     pirqs_ok d \<and> virqs_ok d \<and> life_ok d"

lemmas dom_inv_defs = dom_inv_def pirqs_ok_def virqs_ok_def

text \<open>Everything the invariant looks at.\<close>

definition same_chans :: "domain \<Rightarrow> domain \<Rightarrow> bool" where
  "same_chans d d' \<longleftrightarrow> evtchn d' = evtchn d \<and> evtchn_freed d' = evtchn_freed d \<and>
     pirq_to_evtchn d' = pirq_to_evtchn d \<and> is_dying d' = is_dying d \<and> is_compat d' = is_compat d \<and>
     refcnt_destroyed d' = refcnt_destroyed d \<and> is_privileged d' = is_privileged d \<and> target d' = target d \<and>
     (\<forall>v. map_option virq_to_evtchn (vcpu d' v) = map_option virq_to_evtchn (vcpu d v))"

lemma same_chans_refl [simp]: "same_chans d d"
  by (simp add: same_chans_def)

lemma same_chans_trans: "same_chans a b \<Longrightarrow> same_chans b c \<Longrightarrow> same_chans a c"
  by (simp add: same_chans_def)

lemma same_chans_sym: "same_chans a b \<Longrightarrow> same_chans b a"
  by (simp add: same_chans_def)

lemma same_chans_valid: "same_chans d d' \<Longrightarrow> port_is_valid d' p = port_is_valid d p"
  by (rule port_is_valid_cong) (simp_all add: same_chans_def)

lemma same_chans_evtchn: "same_chans d d' \<Longrightarrow> evtchn_from_port d' p = evtchn_from_port d p"
  by (rule evtchn_from_port_cong) (simp add: same_chans_def)

lemma same_chans_vcpu:
  assumes "same_chans d d'" and "vcpu d v = Some x"
  shows "\<exists>x'. vcpu d' v = Some x' \<and> virq_to_evtchn x' = virq_to_evtchn x"
proof -
  have "map_option virq_to_evtchn (vcpu d' v) = map_option virq_to_evtchn (vcpu d v)"
    using assms(1) by (simp add: same_chans_def)
  with assms(2) show ?thesis by (cases "vcpu d' v") auto
qed

lemma same_chans_None: "same_chans d d' \<Longrightarrow> vcpu d' v = None \<longleftrightarrow> vcpu d v = None"
  using same_chans_vcpu [of d d' v] same_chans_vcpu [OF same_chans_sym, of d d' v]
  by (cases "vcpu d v"; cases "vcpu d' v") auto

lemma same_chans_virq:
  assumes "same_chans d d'"
  shows "(\<exists>v. vcpu d' k = Some v \<and> virq_to_evtchn v q = p) \<longleftrightarrow>
    (\<exists>v. vcpu d k = Some v \<and> virq_to_evtchn v q = p)"
  using same_chans_vcpu [OF assms, of k] same_chans_vcpu [OF same_chans_sym [OF assms], of k]
  by fastforce

lemma chan_ok_same:
  assumes "same_chans d d'" and "chan_ok d p c"
  shows "chan_ok d' p c"
proof -
  have "pirq_to_evtchn d' = pirq_to_evtchn d" using assms(1) by (simp add: same_chans_def)
  then show ?thesis
    using assms(2) same_chans_None [OF assms(1), of "notify_vcpu_id c"]
    unfolding chan_ok_def same_chans_virq [OF assms(1)]
    by (simp split: evtchn_state.splits)
qed

lemma dom_inv_same:
  assumes "same_chans d d'" and "dom_inv d"
  shows "dom_inv d'"
proof -
  note eqs = same_chans_valid [OF assms(1)] same_chans_evtchn [OF assms(1)]
  have "virqs_ok d'"
    unfolding virqs_ok_def eqs
  proof (intro allI impI)
    fix vid v q
    assume v: "vcpu d' vid = Some v" "virq_to_evtchn v q \<noteq> 0"
    from same_chans_vcpu [OF same_chans_sym [OF assms(1)] v(1)]
    obtain x where "vcpu d vid = Some x" "virq_to_evtchn x = virq_to_evtchn v" by blast
    with assms(2) v(2) show "port_is_valid d (virq_to_evtchn v q) \<and>
       state (evtchn_from_port d (virq_to_evtchn v q)) = ECS_VIRQ q \<and>
       vid = virq_home q (evtchn_from_port d (virq_to_evtchn v q))"
      unfolding dom_inv_def virqs_ok_def by metis
  qed
  moreover have "pirqs_ok d'"
    using assms by (simp add: dom_inv_def pirqs_ok_def eqs same_chans_def)
  moreover have "life_ok d' = life_ok d"
    using assms(1) by (intro life_ok_cong same_chans_valid) (simp_all add: same_chans_def)
  ultimately show ?thesis
    using assms(2) chan_ok_same [OF assms(1)] by (simp add: dom_inv_def eqs)
qed

lemma set_pending_sel_same: "same_chans d (set_pending_sel env did d vid port)"
  by (auto simp: same_chans_def set_pending_sel_def Let_def vcpu_frame option.map_comp comp_def
      intro: option.map_cong)

lemma set_pending_poll_same: "same_chans d (set_pending_poll env d)"
  by (auto simp: same_chans_def set_pending_poll_def vcpu_frame option.map_comp comp_def
      intro: option.map_cong)

lemma same_chans_fields [simp]:
  "same_chans d (d\<lparr>evtchn_pending := x2\<rparr>)"
  "same_chans d (d\<lparr>evtchn_mask := x3\<rparr>)"
  by (simp_all add: same_chans_def)

lemma evtchn_set_pending_same:
  assumes "evtchn_set_pending env did d vid port = Done (r, d')"
  shows "same_chans d d'"
proof (cases "evtchn_pending d port")
  case True
  with assms show ?thesis by (simp add: evtchn_set_pending_def outcome_simps)
next
  case False
  let ?d1 = "d\<lparr>evtchn_pending := (evtchn_pending d)(port := True)\<rparr>"
  let ?d2 = "if \<not> evtchn_mask ?d1 port then set_pending_sel env did ?d1 vid port else ?d1"
  have "d' = set_pending_poll env ?d2"
    using assms False by (simp add: evtchn_set_pending_def outcome_simps Let_def)
  moreover have "same_chans ?d1 ?d2" by (simp add: set_pending_sel_same)
  ultimately show ?thesis
    using same_chans_trans [OF same_chans_trans [OF same_chans_fields(1)] set_pending_poll_same]
    by blast
qed

section \<open>Finding a free port\<close>

lemma free_port_from_spec:
  assumes "free_port_from d i = (p, found)" and "0 \<le> i" and "i \<le> MAX_EVTCHNS d"
  shows "i \<le> p \<and> p \<le> MAX_EVTCHNS d \<and>
    (\<forall>q. i \<le> q \<longrightarrow> q < p \<longrightarrow> port_is_valid d q \<and> state (evtchn_from_port d q) \<noteq> ECS_FREE) \<and>
    (if found then port_is_valid d p \<and> state (evtchn_from_port d p) = ECS_FREE
     else \<not> port_is_valid d p)"
  using assms
proof (induction d i rule: free_port_from.induct)
  case (1 d i)
  show ?case
  proof (cases "port_is_valid d i \<and> state (evtchn_from_port d i) \<noteq> ECS_FREE")
    case True
    then have i: "i < MAX_EVTCHNS d" by (simp add: port_is_valid_def)
    have "free_port_from d (i + 1) = (p, found)"
      using "1.prems"(1) True by (simp add: free_port_from.simps [of d i])
    from "1.IH" [OF _ _ this] True i "1.prems"(2)
    have ih: "i + 1 \<le> p \<and> p \<le> MAX_EVTCHNS d"
      "\<forall>q. i + 1 \<le> q \<longrightarrow> q < p \<longrightarrow> port_is_valid d q \<and> state (evtchn_from_port d q) \<noteq> ECS_FREE"
      "if found then port_is_valid d p \<and> state (evtchn_from_port d p) = ECS_FREE
       else \<not> port_is_valid d p"
      by simp_all
    have "port_is_valid d q \<and> state (evtchn_from_port d q) \<noteq> ECS_FREE" if "i \<le> q" "q < p" for q
      using that ih(2) True by (cases "q = i") auto
    with ih(1,3) show ?thesis by simp
  next
    case False
    then show ?thesis
      using "1.prems" by (auto simp: free_port_from.simps [of d i] split: if_splits)
  qed
qed

lemma first_invalid_port:
  assumes "\<forall>q. 0 \<le> q \<longrightarrow> q < p \<longrightarrow> port_is_valid d q" and "\<not> port_is_valid d p"
    and "0 \<le> p" and "p < MAX_EVTCHNS d"
  shows "evtchn d (p div EVTCHNS_PER_BUCKET) = None" and "p mod EVTCHNS_PER_BUCKET = 0"
proof -
  show N: "evtchn d (p div EVTCHNS_PER_BUCKET) = None"
    using assms by (simp add: port_is_valid_def bucket_from_port_def)
  show "p mod EVTCHNS_PER_BUCKET = 0"
  proof (rule ccontr)
    assume "p mod EVTCHNS_PER_BUCKET \<noteq> 0"
    then have "p mod 128 \<noteq> 0" by (simp add: EVTCHNS_PER_BUCKET_def)
    moreover have "0 \<le> p mod 128" by simp
    ultimately have r: "0 < p mod 128" by linarith
    have "p - 1 = 128 * (p div 128) + (p mod 128 - 1)" by simp
    from int_div_pos_eq [OF this] r pos_mod_bound [of 128 p] have "(p - 1) div 128 = p div 128" by simp
    moreover have "0 \<le> p - 1" using r assms(3) by (cases "p = 0") auto
    then have "port_is_valid d (p - 1)" using assms(1) by simp
    ultimately show False
      using N by (simp add: port_is_valid_def bucket_from_port_def EVTCHNS_PER_BUCKET_def)
  qed
qed

text \<open>The channels in use, by port.\<close>

definition dchans :: "domain \<Rightarrow> port \<Rightarrow> evtchn_state option" where
  "dchans d p = (if port_is_valid d p \<and> state (evtchn_from_port d p) \<noteq> ECS_FREE
     then Some (state (evtchn_from_port d p)) else None)"

text \<open>What \<open>get_free_port\<close> may change of a domain: it may add a bucket of free channels.\<close>

definition grown :: "domain \<Rightarrow> domain \<Rightarrow> bool" where
  "grown d d' \<longleftrightarrow> d' = d\<lparr>evtchn := evtchn d', evtchn_freed := evtchn_freed d'\<rparr> \<and>
     (\<forall>b. evtchn_freed d' b \<longrightarrow> evtchn_freed d b) \<and>
     (\<forall>q. port_is_valid d q \<longrightarrow> port_is_valid d' q \<and> evtchn_from_port d' q = evtchn_from_port d q) \<and>
     (\<forall>q. port_is_valid d' q \<longrightarrow> \<not> port_is_valid d q \<longrightarrow> evtchn_from_port d' q = zero_evtchn) \<and>
     (ports_prefix d \<longrightarrow> ports_prefix d')"

lemma grown_refl [simp]: "grown d d"
  by (simp add: grown_def)

lemma grown_bucket:
  assumes b: "evtchn d (i div EVTCHNS_PER_BUCKET) = None" and i: "0 \<le> i"
    and below: "\<forall>q. 0 \<le> q \<longrightarrow> q < i \<longrightarrow> port_is_valid d q"
  shows "grown d (d\<lparr>evtchn := (evtchn d)(i div EVTCHNS_PER_BUCKET := Some (\<lambda>_. zero_evtchn)),
    evtchn_freed := (evtchn_freed d)(i div EVTCHNS_PER_BUCKET := False)\<rparr>)" (is "grown d ?d")
proof -
  have v: "port_is_valid ?d q \<longleftrightarrow> port_is_valid d q \<or>
      0 \<le> q \<and> q < MAX_EVTCHNS d \<and> q div EVTCHNS_PER_BUCKET = i div EVTCHNS_PER_BUCKET" for q
    by (auto simp: port_is_valid_def MAX_EVTCHNS_def bucket_from_port_def)
  have "ports_prefix ?d" if pre: "ports_prefix d"
    unfolding ports_prefix_def
  proof (intro allI impI)
    fix p q
    assume p: "port_is_valid ?d p" and q: "0 \<le> q" "q \<le> p"
    show "port_is_valid ?d q"
    proof (cases "port_is_valid d p \<or> q < i")
      case True
      then show ?thesis using v below q pre by (auto simp: ports_prefix_def)
    next
      case False
      then have "p < MAX_EVTCHNS d" "p div EVTCHNS_PER_BUCKET = i div EVTCHNS_PER_BUCKET" "i \<le> q"
        using p v by auto
      moreover from this have "q div EVTCHNS_PER_BUCKET = i div EVTCHNS_PER_BUCKET"
        using zdiv_mono1 [of i q EVTCHNS_PER_BUCKET] zdiv_mono1 [of q p EVTCHNS_PER_BUCKET] q(2)
        by (simp add: EVTCHNS_PER_BUCKET_def)
      ultimately show ?thesis using v q by simp
    qed
  qed
  then show ?thesis
    using b
    by (auto simp: grown_def port_is_valid_def MAX_EVTCHNS_def evtchn_from_port_def bucket_from_port_def)
qed

lemma grown_fields:
  assumes "grown d d'"
  shows "pirq_to_evtchn d' = pirq_to_evtchn d" and "vcpu d' = vcpu d" and "is_dying d' = is_dying d"
    and "is_compat d' = is_compat d" and "refcnt_destroyed d' = refcnt_destroyed d"
    and "is_privileged d' = is_privileged d" and "target d' = target d" and "is_hvm d' = is_hvm d"
    and "evtchn_pending d' = evtchn_pending d" and "evtchn_mask d' = evtchn_mask d"
    and "irq_caps d' = irq_caps d" and "d_is_polling d' = d_is_polling d"
proof -
  have "d' = d\<lparr>evtchn := evtchn d', evtchn_freed := evtchn_freed d'\<rparr>"
    using assms by (simp add: grown_def)
  then obtain e f where "d' = d\<lparr>evtchn := e, evtchn_freed := f\<rparr>" by blast
  then show "pirq_to_evtchn d' = pirq_to_evtchn d" "vcpu d' = vcpu d" "is_dying d' = is_dying d"
    "is_compat d' = is_compat d" "refcnt_destroyed d' = refcnt_destroyed d"
    "is_privileged d' = is_privileged d" "target d' = target d" "is_hvm d' = is_hvm d"
    "evtchn_pending d' = evtchn_pending d" "evtchn_mask d' = evtchn_mask d"
    "irq_caps d' = irq_caps d" "d_is_polling d' = d_is_polling d"
    by simp_all
qed

lemma grown_dchans:
  assumes "grown d d'"
  shows "dchans d' = dchans d"
proof
  fix p
  show "dchans d' p = dchans d p"
    using assms by (cases "port_is_valid d p"; cases "port_is_valid d' p")
      (auto simp: grown_def dchans_def zero_evtchn_def)
qed

lemma grown_dom_inv:
  assumes g: "grown d d'" and inv: "dom_inv d" and alive: "is_dying d = DOMDYING_alive"
  shows "dom_inv d'"
proof -
  note f = grown_fields [OF g]
  have v: "port_is_valid d' q" "evtchn_from_port d' q = evtchn_from_port d q" if "port_is_valid d q" for q
    using g that by (auto simp: grown_def)
  have n: "evtchn_from_port d' q = zero_evtchn" if "port_is_valid d' q" "\<not> port_is_valid d q" for q
    using g that by (auto simp: grown_def)
  have "port_is_valid d 0" using inv alive by (simp add: dom_inv_def life_ok_def)
  have "chan_ok d' p (evtchn_from_port d' p)" if p: "port_is_valid d' p" for p
  proof (cases "port_is_valid d p")
    case True
    then have "chan_ok d p (evtchn_from_port d' p)" using inv v by (simp add: dom_inv_def)
    then show ?thesis by (auto simp: chan_ok_def f split: evtchn_state.splits)
  next
    case False
    moreover have "p \<noteq> 0" using False \<open>port_is_valid d 0\<close> by metis
    ultimately show ?thesis using n p by (simp add: chan_ok_def zero_evtchn_def)
  qed
  moreover have "pirqs_ok d'" using inv v by (simp add: dom_inv_def pirqs_ok_def f)
  moreover have "virqs_ok d'"
    unfolding virqs_ok_def f
  proof (intro allI impI)
    fix vid x q
    assume x: "vcpu d vid = Some x" "virq_to_evtchn x q \<noteq> 0"
    with inv have *: "port_is_valid d (virq_to_evtchn x q)" by (simp add: dom_inv_defs)
    show "port_is_valid d' (virq_to_evtchn x q) \<and>
      state (evtchn_from_port d' (virq_to_evtchn x q)) = ECS_VIRQ q \<and>
      vid = virq_home q (evtchn_from_port d' (virq_to_evtchn x q))"
      using inv x v [OF *] unfolding dom_inv_defs by metis
  qed
  moreover have "life_ok d'"
    using inv g alive v [OF \<open>port_is_valid d 0\<close>] f(3,5)
    by (auto simp: dom_inv_def life_ok_def grown_def)
  ultimately show ?thesis by (simp add: dom_inv_def)
qed

text \<open>The security module labels every new channel.\<close>

definition labels_ok :: "'e evtchn_env_scheme \<Rightarrow> bool" where
  "labels_ok env \<longleftrightarrow> (\<forall>i \<in> {0..<EVTCHNS_PER_BUCKET}. xsm_alloc_security_evtchn (xsm_ops env) i = 0)"

lemma get_free_port_cases:
  assumes "get_free_port env d = (p, d')" and "labels_ok env"
  shows "is_dying d \<noteq> DOMDYING_alive \<and> p = - EINVAL \<and> d' = d \<or>
    is_dying d = DOMDYING_alive \<and> p = - ENOSPC \<and> d' = d \<and>
      (\<forall>q. 0 \<le> q \<longrightarrow> q < MAX_EVTCHNS d \<longrightarrow> port_is_valid d q \<and> state (evtchn_from_port d q) \<noteq> ECS_FREE) \<or>
    is_dying d = DOMDYING_alive \<and> p = - ENOMEM \<and> d' = d \<and> \<not> xmalloc_ok env \<or>
    is_dying d = DOMDYING_alive \<and> grown d d' \<and> port_is_valid d' p \<and>
      state (evtchn_from_port d' p) = ECS_FREE \<and>
      (\<forall>q. 0 \<le> q \<longrightarrow> q < p \<longrightarrow> port_is_valid d q \<and> state (evtchn_from_port d q) \<noteq> ECS_FREE)"
proof (cases "is_dying d = DOMDYING_alive")
  case True
  obtain i found where fr: "free_port_from d 0 = (i, found)" by fastforce
  have "0 \<le> MAX_EVTCHNS d" by (simp add: MAX_EVTCHNS_def NR_EVENT_CHANNELS_def)
  note sp = free_port_from_spec [OF fr _ this, simplified]
  have nolab: "\<not> (\<exists>i \<in> set [0..EVTCHNS_PER_BUCKET - 1]. xsm_alloc_security_evtchn (xsm_ops env) i \<noteq> 0)"
    using assms(2) by (auto simp: labels_ok_def)
  show ?thesis
  proof (cases found)
    case True
    then show ?thesis
      using assms(1) fr sp \<open>is_dying d = DOMDYING_alive\<close> by (simp add: get_free_port_def)
  next
    case False
    then have inv: "\<not> port_is_valid d i" "\<forall>q. 0 \<le> q \<longrightarrow> q < i \<longrightarrow> port_is_valid d q" "0 \<le> i"
      using sp by simp_all
    show ?thesis
    proof (cases "i < MAX_EVTCHNS d \<and> xmalloc_ok env")
      case True
      let ?b = "i div EVTCHNS_PER_BUCKET"
      let ?d = "d\<lparr>evtchn := (evtchn d)(?b := Some (\<lambda>_. zero_evtchn)),
        evtchn_freed := (evtchn_freed d)(?b := False)\<rparr>"
      have "get_free_port env d = (i, ?d)"
        using True False fr \<open>is_dying d = DOMDYING_alive\<close> nolab
        by (simp add: get_free_port_def Let_def)
      from trans [OF assms(1) [symmetric] this] have "p = i" "d' = ?d" by (simp_all only: prod.inject)
      moreover have "grown d ?d"
        using first_invalid_port [OF inv(2,1,3)] True inv by (intro grown_bucket) simp_all
      moreover have "port_is_valid ?d i" "evtchn_from_port ?d i = zero_evtchn"
        using True inv(3)
        by (simp_all add: port_is_valid_def MAX_EVTCHNS_def bucket_from_port_def evtchn_from_port_def)
      ultimately show ?thesis using sp \<open>is_dying d = DOMDYING_alive\<close> by (simp add: zero_evtchn_def)
    next
      case False
      have "i \<le> MAX_EVTCHNS d" using sp by simp
      moreover have "get_free_port env d = (if i = MAX_EVTCHNS d then - ENOSPC else - ENOMEM, d)"
        using False \<open>\<not> found\<close> \<open>i \<le> MAX_EVTCHNS d\<close> fr \<open>is_dying d = DOMDYING_alive\<close>
        by (auto simp: get_free_port_def)
      ultimately show ?thesis
        using assms(1) sp False \<open>is_dying d = DOMDYING_alive\<close> by (cases "i = MAX_EVTCHNS d") simp_all
    qed
  qed
next
  case False
  with assms(1) show ?thesis by (simp add: get_free_port_def)
qed

lemma get_free_port_ok:
  assumes "get_free_port env d = (p, d')" and "labels_ok env" and "dom_inv d" 
  shows "dom_inv d'" and "grown d d'"
    and "0 \<le> p \<Longrightarrow> is_dying d = DOMDYING_alive \<and> 0 < p \<and> port_is_valid d' p \<and>
      evtchn_from_port d' p = zero_evtchn"
    and "p < 0 \<Longrightarrow> d' = d"
proof -
  note c = get_free_port_cases [OF assms(1,2)]
  show g: "grown d d'" using c by auto
  show i: "dom_inv d'" using c grown_dom_inv [OF g assms(3)] assms(3) by auto
  show "p < 0 \<Longrightarrow> d' = d" using c by (auto dest: port_bounds)
  assume p: "0 \<le> p"
  then have p': "is_dying d = DOMDYING_alive" "port_is_valid d' p" "state (evtchn_from_port d' p) = ECS_FREE"
    using c by auto
  then have "chan_ok d' p (evtchn_from_port d' p)" using i by (simp add: dom_inv_def)
  with p p' show "is_dying d = DOMDYING_alive \<and> 0 < p \<and> port_is_valid d' p \<and>
      evtchn_from_port d' p = zero_evtchn"
    by (simp add: chan_ok_def zero_evtchn_def)
qed

section \<open>Changing one channel\<close>

lemma chan_ok_cong:
  assumes "vcpu d' = vcpu d" and "pirq_to_evtchn d' = pirq_to_evtchn d"
  shows "chan_ok d' p c = chan_ok d p c"
  using assms by (simp add: chan_ok_def split: evtchn_state.splits)

lemma chan_ok_upd_evtchn [simp]: "chan_ok (upd_evtchn d p f) q c = chan_ok d q c"
  by (rule chan_ok_cong) simp_all

lemma pirq_port:
  assumes "dom_inv d" and "pirq_to_evtchn d q \<noteq> 0"
  shows "port_is_valid d (pirq_to_evtchn d q)" and "state (evtchn_from_port d (pirq_to_evtchn d q)) = ECS_PIRQ q"
  using assms by (simp_all add: dom_inv_defs)

lemma virq_port:
  assumes "dom_inv d" and "vcpu d vid = Some v" and "virq_to_evtchn v q \<noteq> 0"
  shows "port_is_valid d (virq_to_evtchn v q)" and "state (evtchn_from_port d (virq_to_evtchn v q)) = ECS_VIRQ q"
    and "vid = virq_home q (evtchn_from_port d (virq_to_evtchn v q))"
  using assms by (simp_all add: dom_inv_defs)

lemma chan_inv: "dom_inv d \<Longrightarrow> port_is_valid d p \<Longrightarrow> chan_ok d p (evtchn_from_port d p)"
  by (simp add: dom_inv_def)

lemma dom_invI:
  assumes "\<And>p. port_is_valid d p \<Longrightarrow> chan_ok d p (evtchn_from_port d p)"
    and "\<And>q. pirq_to_evtchn d q \<noteq> 0 \<Longrightarrow> port_is_valid d (pirq_to_evtchn d q) \<and>
       state (evtchn_from_port d (pirq_to_evtchn d q)) = ECS_PIRQ q"
    and "\<And>vid v q. vcpu d vid = Some v \<Longrightarrow> virq_to_evtchn v q \<noteq> 0 \<Longrightarrow>
       port_is_valid d (virq_to_evtchn v q) \<and>
       state (evtchn_from_port d (virq_to_evtchn v q)) = ECS_VIRQ q \<and>
       vid = virq_home q (evtchn_from_port d (virq_to_evtchn v q))"
    and "life_ok d"
  shows "dom_inv d"
  unfolding dom_inv_defs using assms by blast

text \<open>A channel that no interrupt is bound to may take any state that is in order.\<close>

lemma dom_inv_upd:
  assumes inv: "dom_inv d" and p: "port_is_valid d p"
    and old: "\<forall>q. state (evtchn_from_port d p) \<noteq> ECS_PIRQ q" "\<forall>q. state (evtchn_from_port d p) \<noteq> ECS_VIRQ q"
    and new: "chan_ok d p (f (evtchn_from_port d p))"
  shows "dom_inv (upd_evtchn d p f)"
proof (rule dom_invI)
  fix q
  assume "port_is_valid (upd_evtchn d p f) q"
  then show "chan_ok (upd_evtchn d p f) q (evtchn_from_port (upd_evtchn d p f) q)"
    using chan_inv [OF inv] p new by simp
next
  fix q
  assume "pirq_to_evtchn (upd_evtchn d p f) q \<noteq> 0"
  then have "pirq_to_evtchn d q \<noteq> 0" by simp
  from pirq_port [OF inv this] old p
  show "port_is_valid (upd_evtchn d p f) (pirq_to_evtchn (upd_evtchn d p f) q) \<and>
     state (evtchn_from_port (upd_evtchn d p f) (pirq_to_evtchn (upd_evtchn d p f) q)) = ECS_PIRQ q"
    by auto
next
  fix vid v q
  assume "vcpu (upd_evtchn d p f) vid = Some v" and nz: "virq_to_evtchn v q \<noteq> 0"
  then have "vcpu d vid = Some v" by simp
  from virq_port [OF inv this nz] old p
  show "port_is_valid (upd_evtchn d p f) (virq_to_evtchn v q) \<and>
     state (evtchn_from_port (upd_evtchn d p f) (virq_to_evtchn v q)) = ECS_VIRQ q \<and>
     vid = virq_home q (evtchn_from_port (upd_evtchn d p f) (virq_to_evtchn v q))"
    by auto
next
  have "life_ok (upd_evtchn d p f) = life_ok d" by (rule life_ok_cong) simp_all
  then show "life_ok (upd_evtchn d p f)" using inv by (simp add: dom_inv_def)
qed

text \<open>The binding of a virtual interrupt of virtual CPU \<open>vid\<close> to a free channel.\<close>

lemma dom_inv_bind_virq:
  assumes inv: "dom_inv d" and p: "port_is_valid d p" "p \<noteq> 0" and free: "evtchn_from_port d p = zero_evtchn"
    and v: "vcpu d vid = Some v" "virq_to_evtchn v virq = 0"
    and q: "0 \<le> virq" "virq < NR_VIRQS" "virq_class virq \<longrightarrow> vid = 0"
  shows "dom_inv (upd_vcpu (upd_evtchn d p (\<lambda>c. c\<lparr>state := ECS_VIRQ virq, notify_vcpu_id := vid\<rparr>)) vid
    (\<lambda>v. v\<lparr>virq_to_evtchn := (virq_to_evtchn v)(virq := p)\<rparr>))" (is "dom_inv ?d")
proof (rule dom_invI)
  fix p'
  assume p': "port_is_valid ?d p'"
  show "chan_ok ?d p' (evtchn_from_port ?d p')"
  proof (cases "p' = p")
    case True
    with p q v free show ?thesis
      by (auto simp: chan_ok_def virq_home_def zero_evtchn_def)
  next
    case False
    have "chan_ok d p' (evtchn_from_port d p')" using chan_inv [OF inv] p' p by simp
    with False p v show ?thesis
      by (auto simp: chan_ok_def split: evtchn_state.splits if_splits)
  qed
next
  fix q
  assume "pirq_to_evtchn ?d q \<noteq> 0"
  then have "pirq_to_evtchn d q \<noteq> 0" by simp
  from pirq_port [OF inv this] free p
  show "port_is_valid ?d (pirq_to_evtchn ?d q) \<and>
     state (evtchn_from_port ?d (pirq_to_evtchn ?d q)) = ECS_PIRQ q"
    by (auto simp: zero_evtchn_def)
next
  fix vid' x q'
  assume x: "vcpu ?d vid' = Some x" and nz: "virq_to_evtchn x q' \<noteq> 0"
  show "port_is_valid ?d (virq_to_evtchn x q') \<and>
     state (evtchn_from_port ?d (virq_to_evtchn x q')) = ECS_VIRQ q' \<and>
     vid' = virq_home q' (evtchn_from_port ?d (virq_to_evtchn x q'))"
  proof (cases "vid' = vid \<and> q' = virq")
    case True
    then have "virq_to_evtchn x q' = p" using x v by auto
    with True p q show ?thesis by (auto simp: virq_home_def)
  next
    case False
    then obtain y where y: "vcpu d vid' = Some y" "virq_to_evtchn y q' = virq_to_evtchn x q'"
      using x v by (auto split: if_splits)
    from virq_port [OF inv y(1), of q'] y(2) nz free p show ?thesis
      by (auto simp: zero_evtchn_def)
  qed
next
  have "life_ok ?d = life_ok d" by (rule life_ok_cong) simp_all
  then show "life_ok ?d" using inv by (simp add: dom_inv_def)
qed

lemma dom_inv_bind_pirq:
  assumes inv: "dom_inv d" and p: "port_is_valid d p" "p \<noteq> 0" and free: "evtchn_from_port d p = zero_evtchn"
    and q: "0 \<le> pirq" "pirq < NR_IRQS" "pirq_to_evtchn d pirq = 0"
  shows "dom_inv (upd_evtchn (d\<lparr>pirq_to_evtchn := (pirq_to_evtchn d)(pirq := p)\<rparr>) p
    (\<lambda>c. c\<lparr>state := ECS_PIRQ pirq\<rparr>))" (is "dom_inv ?d")
proof (rule dom_invI)
  fix p'
  assume p': "port_is_valid ?d p'"
  show "chan_ok ?d p' (evtchn_from_port ?d p')"
  proof (cases "p' = p")
    case True
    with p q free show ?thesis by (simp add: chan_ok_def zero_evtchn_def)
  next
    case False
    have "chan_ok d p' (evtchn_from_port d p')" using chan_inv [OF inv] p' p by simp
    with False p q show ?thesis
      by (auto simp: chan_ok_def split: evtchn_state.splits if_splits)
  qed
next
  fix q'
  assume nz: "pirq_to_evtchn ?d q' \<noteq> 0"
  show "port_is_valid ?d (pirq_to_evtchn ?d q') \<and>
     state (evtchn_from_port ?d (pirq_to_evtchn ?d q')) = ECS_PIRQ q'"
  proof (cases "q' = pirq")
    case True
    with p show ?thesis by simp
  next
    case False
    with nz have "pirq_to_evtchn d q' \<noteq> 0" by simp
    from pirq_port [OF inv this] False free p show ?thesis by (auto simp: zero_evtchn_def)
  qed
next
  fix vid x q'
  assume "vcpu ?d vid = Some x" and nz: "virq_to_evtchn x q' \<noteq> 0"
  then have "vcpu d vid = Some x" by simp
  from virq_port [OF inv this nz] free p
  show "port_is_valid ?d (virq_to_evtchn x q') \<and>
     state (evtchn_from_port ?d (virq_to_evtchn x q')) = ECS_VIRQ q' \<and>
     vid = virq_home q' (evtchn_from_port ?d (virq_to_evtchn x q'))"
    by (auto simp: zero_evtchn_def)
next
  have "life_ok ?d = life_ok d" by (rule life_ok_cong) simp_all
  then show "life_ok ?d" using inv by (simp add: dom_inv_def)
qed

section \<open>Freeing one channel\<close>

definition free_chan :: "port \<Rightarrow> domain \<Rightarrow> domain" where
  "free_chan p d = upd_evtchn (d\<lparr>evtchn_pending := (evtchn_pending d)(p := False)\<rparr>) p
     (\<lambda>c. c\<lparr>state := ECS_FREE, notify_vcpu_id := 0\<rparr>)"

lemma close_free_alt: "close_free s d p = Finished 0 (upd_dom s d (free_chan p))"
  by (simp add: close_free_def free_chan_def [abs_def])

lemma free_chan_frame [simp]:
  "evtchn_freed (free_chan p d) = evtchn_freed d"
  "pirq_to_evtchn (free_chan p d) = pirq_to_evtchn d"
  "vcpu (free_chan p d) = vcpu d"
  "is_compat (free_chan p d) = is_compat d"
  "is_dying (free_chan p d) = is_dying d"
  "refcnt_destroyed (free_chan p d) = refcnt_destroyed d"
  "is_privileged (free_chan p d) = is_privileged d"
  "target (free_chan p d) = target d"
  "port_is_valid (free_chan p d) q = port_is_valid d q"
  by (simp_all add: free_chan_def)

lemma evtchn_from_port_free_chan [simp]:
  "port_is_valid d p \<Longrightarrow> evtchn_from_port (free_chan p d) q =
     (if q = p then (evtchn_from_port d p)\<lparr>state := ECS_FREE, notify_vcpu_id := 0\<rparr> else evtchn_from_port d q)"
  by (simp add: free_chan_def)

lemma dom_inv_free:
  assumes inv: "dom_inv d" and p: "port_is_valid d p" "p \<noteq> 0" "\<not> consumer_is_xen (evtchn_from_port d p)"
    and old: "\<forall>q. state (evtchn_from_port d p) \<noteq> ECS_PIRQ q" "\<forall>q. state (evtchn_from_port d p) \<noteq> ECS_VIRQ q"
  shows "dom_inv (free_chan p d)"
  unfolding free_chan_def
proof (rule dom_inv_upd)
  show "dom_inv (d\<lparr>evtchn_pending := (evtchn_pending d)(p := False)\<rparr>)"
    using inv by (rule dom_inv_same [OF same_chans_fields(1)])
qed (use p old in \<open>simp_all add: chan_ok_def\<close>)

lemma dom_inv_free_pirq:
  assumes inv: "dom_inv d" and p: "port_is_valid d p" and st: "state (evtchn_from_port d p) = ECS_PIRQ q"
  shows "dom_inv (free_chan p (d\<lparr>pirq_to_evtchn := (pirq_to_evtchn d)(q := 0)\<rparr>))" (is "dom_inv (free_chan p ?d)")
proof (rule dom_invI)
  have ok: "chan_ok d p (evtchn_from_port d p)" using inv p by (rule chan_inv)
  then have "p \<noteq> 0" "pirq_to_evtchn d q = p" using st by (simp_all add: chan_ok_def)
  fix p'
  assume "port_is_valid (free_chan p ?d) p'"
  then have p': "chan_ok d p' (evtchn_from_port d p')" using chan_inv [OF inv] by simp
  show "chan_ok (free_chan p ?d) p' (evtchn_from_port (free_chan p ?d) p')"
    using p' ok st p \<open>p \<noteq> 0\<close> \<open>pirq_to_evtchn d q = p\<close>
    by (auto simp: chan_ok_def split: evtchn_state.splits if_splits)
next
  fix q'
  assume nz: "pirq_to_evtchn (free_chan p ?d) q' \<noteq> 0"
  then have q': "q' \<noteq> q" "pirq_to_evtchn d q' \<noteq> 0" by (auto split: if_splits)
  from pirq_port [OF inv q'(2)] q'(1) st p
  show "port_is_valid (free_chan p ?d) (pirq_to_evtchn (free_chan p ?d) q') \<and>
     state (evtchn_from_port (free_chan p ?d) (pirq_to_evtchn (free_chan p ?d) q')) = ECS_PIRQ q'"
    by auto
next
  fix vid x q'
  assume "vcpu (free_chan p ?d) vid = Some x" and nz: "virq_to_evtchn x q' \<noteq> 0"
  then have "vcpu d vid = Some x" by simp
  from virq_port [OF inv this nz] st p
  show "port_is_valid (free_chan p ?d) (virq_to_evtchn x q') \<and>
     state (evtchn_from_port (free_chan p ?d) (virq_to_evtchn x q')) = ECS_VIRQ q' \<and>
     vid = virq_home q' (evtchn_from_port (free_chan p ?d) (virq_to_evtchn x q'))"
    by auto
next
  have "life_ok (free_chan p ?d) = life_ok d" by (rule life_ok_cong) simp_all
  then show "life_ok (free_chan p ?d)" using inv by (simp add: dom_inv_def)
qed

definition clear_virq :: "int \<Rightarrow> port \<Rightarrow> vcpu \<Rightarrow> vcpu" where
  "clear_virq q p v = (if virq_to_evtchn v q \<noteq> p then v
     else v\<lparr>virq_to_evtchn := (virq_to_evtchn v)(q := 0)\<rparr>)"

lemma virq_to_evtchn_clear_virq [simp]:
  "virq_to_evtchn (clear_virq q p v) q' = (if q' = q \<and> virq_to_evtchn v q = p then 0 else virq_to_evtchn v q')"
  by (simp add: clear_virq_def)

lemma dom_inv_free_virq:
  assumes inv: "dom_inv d" and p: "port_is_valid d p" and st: "state (evtchn_from_port d p) = ECS_VIRQ q"
  shows "dom_inv (free_chan p (for_each_vcpu d (clear_virq q p)))" (is "dom_inv (free_chan p ?d)")
proof (rule dom_invI)
  have ok: "chan_ok d p (evtchn_from_port d p)" using inv p by (rule chan_inv)
  then have "p \<noteq> 0" using st by (simp add: chan_ok_def)
  fix p'
  assume "port_is_valid (free_chan p ?d) p'"
  then have p': "chan_ok d p' (evtchn_from_port d p')" using chan_inv [OF inv] by simp
  show "chan_ok (free_chan p ?d) p' (evtchn_from_port (free_chan p ?d) p')"
    using p' ok st p \<open>p \<noteq> 0\<close>
    by (auto simp: chan_ok_def split: evtchn_state.splits if_splits)
next
  fix q'
  assume nz: "pirq_to_evtchn (free_chan p ?d) q' \<noteq> 0"
  then have "pirq_to_evtchn d q' \<noteq> 0" by simp
  from pirq_port [OF inv this] st p
  show "port_is_valid (free_chan p ?d) (pirq_to_evtchn (free_chan p ?d) q') \<and>
     state (evtchn_from_port (free_chan p ?d) (pirq_to_evtchn (free_chan p ?d) q')) = ECS_PIRQ q'"
    by auto
next
  fix vid x q'
  assume "vcpu (free_chan p ?d) vid = Some x" and nz: "virq_to_evtchn x q' \<noteq> 0"
  then obtain y where y: "vcpu d vid = Some y" "virq_to_evtchn x q' = virq_to_evtchn y q'"
    "\<not> (q' = q \<and> virq_to_evtchn y q = p)"
    by (auto split: if_splits)
  from virq_port [OF inv y(1), of q'] y(2,3) nz st p
  show "port_is_valid (free_chan p ?d) (virq_to_evtchn x q') \<and>
     state (evtchn_from_port (free_chan p ?d) (virq_to_evtchn x q')) = ECS_VIRQ q' \<and>
     vid = virq_home q' (evtchn_from_port (free_chan p ?d) (virq_to_evtchn x q'))"
    by auto
next
  have "life_ok (free_chan p ?d) = life_ok d" by (rule life_ok_cong) simp_all
  then show "life_ok (free_chan p ?d)" using inv by (simp add: dom_inv_def)
qed

lemma dom_inv_notify:
  assumes inv: "dom_inv d" and p: "port_is_valid d p" and v: "vcpu d vid \<noteq> None"
    and st: "case state (evtchn_from_port d p) of ECS_VIRQ q \<Rightarrow> virq_class q | ECS_UNBOUND _ \<Rightarrow> True
      | ECS_INTERDOMAIN _ _ \<Rightarrow> True | ECS_PIRQ _ \<Rightarrow> True | _ \<Rightarrow> False"
  shows "dom_inv (upd_evtchn d p (\<lambda>c. c\<lparr>notify_vcpu_id := vid\<rparr>))" (is "dom_inv ?d")
proof (rule dom_invI)
  fix p'
  assume "port_is_valid ?d p'"
  then have p': "chan_ok d p' (evtchn_from_port d p')" using chan_inv [OF inv] by simp
  show "chan_ok ?d p' (evtchn_from_port ?d p')"
    using p' p v st by (auto simp: chan_ok_def virq_home_def split: evtchn_state.splits)
next
  fix q
  assume "pirq_to_evtchn ?d q \<noteq> 0"
  then have "pirq_to_evtchn d q \<noteq> 0" by simp
  from pirq_port [OF inv this] p
  show "port_is_valid ?d (pirq_to_evtchn ?d q) \<and>
     state (evtchn_from_port ?d (pirq_to_evtchn ?d q)) = ECS_PIRQ q"
    by auto
next
  fix vid' x q
  assume "vcpu ?d vid' = Some x" and nz: "virq_to_evtchn x q \<noteq> 0"
  then have "vcpu d vid' = Some x" by simp
  from virq_port [OF inv this nz] p st
  show "port_is_valid ?d (virq_to_evtchn x q) \<and>
     state (evtchn_from_port ?d (virq_to_evtchn x q)) = ECS_VIRQ q \<and>
     vid' = virq_home q (evtchn_from_port ?d (virq_to_evtchn x q))"
    by (auto simp: virq_home_def)
next
  have "life_ok ?d = life_ok d" by (rule life_ok_cong) simp_all
  then show "life_ok ?d" using inv by (simp add: dom_inv_def)
qed

section \<open>Specification: a table of the channels in use\<close>

text \<open>
  What the event channels promise, without buckets, virtual CPUs or locks: a finite table from a
  domain and a port to the state of the channel there, with the steps by which it may change.
\<close>

type_synonym chan_map = "domid \<times> port \<Rightarrow> evtchn_state option"

inductive chan_step :: "chan_map \<Rightarrow> chan_map \<Rightarrow> bool" where
  Allocate: "m (d, p) = None \<Longrightarrow> p \<noteq> 0 \<Longrightarrow>
    (case st of ECS_UNBOUND _ \<Rightarrow> True | ECS_PIRQ _ \<Rightarrow> True | ECS_VIRQ _ \<Rightarrow> True | ECS_IPI \<Rightarrow> True | _ \<Rightarrow> False) \<Longrightarrow>
    chan_step m (m((d, p) \<mapsto> st))"
| Connect: "m (ld, lp) = None \<Longrightarrow> lp \<noteq> 0 \<Longrightarrow> m (rd, rp) = Some (ECS_UNBOUND ld) \<Longrightarrow>
    chan_step m (m((ld, lp) \<mapsto> ECS_INTERDOMAIN rd rp, (rd, rp) \<mapsto> ECS_INTERDOMAIN ld lp))"
| Close: "m (d, p) = Some st \<Longrightarrow>
    (case st of ECS_UNBOUND _ \<Rightarrow> True | ECS_PIRQ _ \<Rightarrow> True | ECS_VIRQ _ \<Rightarrow> True | ECS_IPI \<Rightarrow> True | _ \<Rightarrow> False) \<Longrightarrow>
    chan_step m (m((d, p) := None))"
| Disconnect: "m (d1, p1) = Some (ECS_INTERDOMAIN d2 p2) \<Longrightarrow>
    chan_step m (m((d2, p2) \<mapsto> ECS_UNBOUND d1, (d1, p1) := None))"
| Reserve: "m (d, 0) = None \<Longrightarrow> chan_step m (m((d, 0) \<mapsto> ECS_RESERVED))"
| Release: "m (d, 0) = Some ECS_RESERVED \<Longrightarrow> chan_step m (m((d, 0) := None))"

abbreviation chan_steps :: "chan_map \<Rightarrow> chan_map \<Rightarrow> bool" where
  "chan_steps \<equiv> chan_step\<^sup>*\<^sup>*"

inductive_cases chan_stepE: "chan_step m m'"

text \<open>Connected channels name each other.\<close>

definition peers :: "chan_map \<Rightarrow> bool" where
  "peers m \<longleftrightarrow> (\<forall>d p d2 p2. m (d, p) = Some (ECS_INTERDOMAIN d2 p2) \<longrightarrow>
     m (d2, p2) = Some (ECS_INTERDOMAIN d p))"

lemma peersD: "peers m \<Longrightarrow> m (d, p) = Some (ECS_INTERDOMAIN d2 p2) \<Longrightarrow> m (d2, p2) = Some (ECS_INTERDOMAIN d p)"
  unfolding peers_def by blast

lemma peers_other:
  assumes "peers m" and "\<forall>d2 p2. m x \<noteq> Some (ECS_INTERDOMAIN d2 p2)"
    and "\<forall>d2 p2. v \<noteq> Some (ECS_INTERDOMAIN d2 p2)"
  shows "peers (m(x := v))"
  unfolding peers_def
proof (intro allI impI)
  fix d p d2 p2
  assume "(m(x := v)) (d, p) = Some (ECS_INTERDOMAIN d2 p2)"
  then have *: "m (d, p) = Some (ECS_INTERDOMAIN d2 p2)" using assms(3) by (auto split: if_splits)
  from peersD [OF assms(1) this] have "m (d2, p2) = Some (ECS_INTERDOMAIN d p)" .
  moreover have "(d2, p2) \<noteq> x" using assms(2) calculation by metis
  ultimately show "(m(x := v)) (d2, p2) = Some (ECS_INTERDOMAIN d p)" by simp
qed

lemma peersI:
  assumes "\<And>d p d2 p2. m (d, p) = Some (ECS_INTERDOMAIN d2 p2) \<Longrightarrow> m (d2, p2) = Some (ECS_INTERDOMAIN d p)"
  shows "peers m"
  unfolding peers_def using assms by blast

lemma peers_connect:
  assumes m: "peers m" and l: "m (ld, lp) = None" and r: "m (rd, rp) = Some (ECS_UNBOUND ld)"
  shows "peers (m((ld, lp) \<mapsto> ECS_INTERDOMAIN rd rp, (rd, rp) \<mapsto> ECS_INTERDOMAIN ld lp))" (is "peers ?m")
proof (rule peersI)
  fix d p d2 p2
  assume h: "?m (d, p) = Some (ECS_INTERDOMAIN d2 p2)"
  have "(ld, lp) \<noteq> (rd, rp)" using l r by auto
  show "?m (d2, p2) = Some (ECS_INTERDOMAIN d p)"
  proof (cases "(d, p) = (rd, rp) \<or> (d, p) = (ld, lp)")
    case True
    with h \<open>(ld, lp) \<noteq> (rd, rp)\<close> show ?thesis by auto
  next
    case False
    then have "m (d, p) = Some (ECS_INTERDOMAIN d2 p2)" using h by (auto split: if_splits)
    from peersD [OF m this] have e: "m (d2, p2) = Some (ECS_INTERDOMAIN d p)" .
    then have "(d2, p2) \<noteq> (ld, lp)" "(d2, p2) \<noteq> (rd, rp)" using l r by auto
    with e show ?thesis by auto
  qed
qed

lemma peers_disconnect:
  assumes m: "peers m" and l: "m (d1, p1) = Some (ECS_INTERDOMAIN d2 p2)"
  shows "peers (m((d2, p2) \<mapsto> ECS_UNBOUND d1, (d1, p1) := None))" (is "peers ?m")
proof (rule peersI)
  fix d p a b
  assume h: "?m (d, p) = Some (ECS_INTERDOMAIN a b)"
  then have x: "(d, p) \<noteq> (d1, p1)" "(d, p) \<noteq> (d2, p2)" "m (d, p) = Some (ECS_INTERDOMAIN a b)"
    by (auto split: if_splits)
  from peersD [OF m x(3)] have e: "m (a, b) = Some (ECS_INTERDOMAIN d p)" .
  have "(a, b) \<noteq> (d1, p1)" using e l x(2) by auto
  moreover have "(a, b) \<noteq> (d2, p2)" using e peersD [OF m l] x(1) by auto
  ultimately show "?m (a, b) = Some (ECS_INTERDOMAIN d p)" using e by auto
qed

lemma peers_step:
  assumes "chan_step m m'" and "peers m"
  shows "peers m'"
  using assms(1)
proof cases
  case (Connect ld lp rd rp)
  with peers_connect [OF assms(2)] show ?thesis by blast
next
  case (Disconnect d1 p1 d2 p2)
  with peers_disconnect [OF assms(2)] show ?thesis by blast
qed (auto intro!: peers_other [OF assms(2)] split: evtchn_state.splits)

lemma peers_steps: "chan_steps m m' \<Longrightarrow> peers m \<Longrightarrow> peers m'"
  by (induction rule: rtranclp_induct) (auto intro: peers_step)

section \<open>The invariant of the system\<close>

definition chans :: "system \<Rightarrow> chan_map" where
  "chans s = (\<lambda>(d, p). case s d of None \<Rightarrow> None | Some D \<Rightarrow> dchans D p)"

definition sys_inv :: "system \<Rightarrow> bool" where
  "sys_inv s \<longleftrightarrow> (\<forall>d D. s d = Some D \<longrightarrow> dom_inv D) \<and> peers (chans s)"

lemma sys_inv_dom: "sys_inv s \<Longrightarrow> s d = Some D \<Longrightarrow> dom_inv D"
  by (simp add: sys_inv_def)

lemma chans_at:
  assumes "s d = Some D" and "port_is_valid D p"
  shows "chans s (d, p) = (if state (evtchn_from_port D p) = ECS_FREE then None
    else Some (state (evtchn_from_port D p)))"
  using assms by (simp add: chans_def dchans_def)

lemma chans_SomeD:
  assumes "chans s (d, p) = Some st"
  shows "\<exists>D. s d = Some D \<and> port_is_valid D p \<and> state (evtchn_from_port D p) = st \<and> st \<noteq> ECS_FREE"
  using assms by (auto simp: chans_def dchans_def split: option.splits if_splits)

text \<open>The other end of a connected channel.\<close>

lemma linked:
  assumes "sys_inv s" and "s d = Some D" and "port_is_valid D p"
    and "state (evtchn_from_port D p) = ECS_INTERDOMAIN d2 p2"
  obtains D2 where "s d2 = Some D2" "\<not> refcnt_destroyed D2" "port_is_valid D2 p2"
    "state (evtchn_from_port D2 p2) = ECS_INTERDOMAIN d p"
    "chans s (d, p) = Some (ECS_INTERDOMAIN d2 p2)" "chans s (d2, p2) = Some (ECS_INTERDOMAIN d p)"
proof -
  have a: "chans s (d, p) = Some (ECS_INTERDOMAIN d2 p2)" using assms(2-4) by (simp add: chans_def dchans_def)
  then have b: "chans s (d2, p2) = Some (ECS_INTERDOMAIN d p)"
    using assms(1) peersD by (simp add: sys_inv_def)
  from chans_SomeD [OF b] obtain D2 where "s d2 = Some D2" "port_is_valid D2 p2"
    "state (evtchn_from_port D2 p2) = ECS_INTERDOMAIN d p" by blast
  moreover from this assms(1) have "\<not> refcnt_destroyed D2"
    by (auto simp: sys_inv_def dom_inv_def life_ok_def)
  ultimately show ?thesis using that a b by blast
qed

lemma chans_upd_dom:
  assumes "s d = Some D" and "port_is_valid D p"
  shows "chans (upd_dom s d (\<lambda>D. upd_evtchn D p f)) =
    (chans s)((d, p) := (if state (f (evtchn_from_port D p)) = ECS_FREE then None
       else Some (state (f (evtchn_from_port D p)))))"
  using assms by (auto simp: chans_def dchans_def fun_eq_iff)

lemma chans_same:
  assumes "s d = Some D" and "dchans D' = dchans D"
  shows "chans (s(d \<mapsto> D')) = chans s"
  using assms by (auto simp: chans_def fun_eq_iff)

lemma same_chans_dchans: "same_chans d d' \<Longrightarrow> dchans d' = dchans d"
  by (simp add: fun_eq_iff dchans_def same_chans_valid same_chans_evtchn)

end
