(* ===== verification/Event_Channel_Ops.thy ===== *)
theory Event_Channel_Ops
  imports Event_Channel_Inv
begin

text \<open>
  Every operation on event channels keeps the invariants and refines the table of channels, whatever
  other CPUs do while it holds no lock. The relation \<open>evolves\<close> says what an operation may do to the
  system; it is at once what it may expect of the others, so that operations compose. A domain keeps its
  ports while it is alive; the channels of a dying domain only go away.
\<close>

section \<open>How the system evolves\<close>

text \<open>The domain a channel is for: a channel of a dying domain may be closed, or lose or regain its
  peer, but it is never given to another domain.\<close>

definition partner :: "evtchn_state \<Rightarrow> domid option" where
  "partner st = (case st of ECS_UNBOUND r \<Rightarrow> Some r | ECS_INTERDOMAIN r _ \<Rightarrow> Some r | _ \<Rightarrow> None)"

lemma partner_simps [simp]:
  "partner (ECS_UNBOUND r) = Some r" "partner (ECS_INTERDOMAIN r p) = Some r"
  by (simp_all add: partner_def)

definition winding :: "evtchn_state option \<Rightarrow> evtchn_state option \<Rightarrow> bool" where
  "winding x y \<longleftrightarrow> y = None \<or> y = x \<or>
     (\<exists>a b r. x = Some a \<and> y = Some b \<and> partner a = Some r \<and> partner b = Some r)"

lemma winding_refl [simp]: "winding x x" and winding_None [simp]: "winding x None"
  by (simp_all add: winding_def)

lemma winding_trans: "winding x y \<Longrightarrow> winding y z \<Longrightarrow> winding x z"
  by (auto simp: winding_def)

definition dom_evolves :: "domain \<Rightarrow> domain \<Rightarrow> bool" where
  "dom_evolves D D' \<longleftrightarrow>
     (\<forall>v. vcpu D v \<noteq> None \<longrightarrow> vcpu D' v \<noteq> None) \<and>
     (is_dying D' = DOMDYING_alive \<longrightarrow> (\<forall>p. port_is_valid D p \<longrightarrow> port_is_valid D' p)) \<and>
     (is_dying D \<noteq> DOMDYING_alive \<longrightarrow> is_dying D' \<noteq> DOMDYING_alive \<and>
        (\<forall>p. port_is_valid D' p \<longrightarrow> port_is_valid D p \<and>
           (consumer_is_xen (evtchn_from_port D' p) \<longrightarrow> consumer_is_xen (evtchn_from_port D p))) \<and>
        (\<forall>p. winding (dchans D p) (dchans D' p)))"

lemma dom_evolves_refl [simp]: "dom_evolves D D"
  by (simp add: dom_evolves_def)

lemma dom_evolves_trans:
  assumes "dom_evolves A B" and "dom_evolves B C"
  shows "dom_evolves A C"
proof -
  have "is_dying C \<noteq> DOMDYING_alive \<and> (\<forall>p. port_is_valid C p \<longrightarrow> port_is_valid A p \<and>
        (consumer_is_xen (evtchn_from_port C p) \<longrightarrow> consumer_is_xen (evtchn_from_port A p))) \<and>
      (\<forall>p. winding (dchans A p) (dchans C p))" if d: "is_dying A \<noteq> DOMDYING_alive"
  proof -
    have a: "is_dying B \<noteq> DOMDYING_alive" "\<forall>p. port_is_valid B p \<longrightarrow> port_is_valid A p \<and>
        (consumer_is_xen (evtchn_from_port B p) \<longrightarrow> consumer_is_xen (evtchn_from_port A p))"
      "\<forall>p. winding (dchans A p) (dchans B p)"
      using assms(1) d by (simp_all add: dom_evolves_def)
    then have b: "is_dying C \<noteq> DOMDYING_alive" "\<forall>p. port_is_valid C p \<longrightarrow> port_is_valid B p \<and>
        (consumer_is_xen (evtchn_from_port C p) \<longrightarrow> consumer_is_xen (evtchn_from_port B p))"
      "\<forall>p. winding (dchans B p) (dchans C p)"
      using assms(2) by (simp_all add: dom_evolves_def)
    show ?thesis using a b winding_trans by blast
  qed
  moreover have "\<forall>v. vcpu A v \<noteq> None \<longrightarrow> vcpu C v \<noteq> None" using assms by (simp add: dom_evolves_def)
  moreover have "\<forall>p. port_is_valid A p \<longrightarrow> port_is_valid C p" if c: "is_dying C = DOMDYING_alive"
  proof -
    have "is_dying B = DOMDYING_alive" using assms(2) c by (auto simp: dom_evolves_def)
    then show ?thesis using assms c by (simp add: dom_evolves_def)
  qed
  ultimately show ?thesis by (simp add: dom_evolves_def)
qed

definition evolves :: "system \<Rightarrow> system \<Rightarrow> bool" where
  "evolves s s' \<longleftrightarrow> sys_inv s' \<and> chan_steps (chans s) (chans s') \<and>
     (\<forall>d D. s d = Some D \<longrightarrow> (\<exists>D'. s' d = Some D' \<and> dom_evolves D D'))"

lemma evolves_refl: "sys_inv s \<Longrightarrow> evolves s s"
  by (simp add: evolves_def)

lemma evolves_dom: "evolves s s' \<Longrightarrow> s d = Some D \<Longrightarrow> \<exists>D'. s' d = Some D' \<and> dom_evolves D D'"
  by (simp add: evolves_def)

lemma evolves_trans [trans]:
  assumes "evolves a b" and "evolves b c"
  shows "evolves a c"
proof -
  have "\<exists>D'. c d = Some D' \<and> dom_evolves D D'" if ad: "a d = Some D" for d D
  proof -
    obtain D1 where "b d = Some D1" "dom_evolves D D1" using evolves_dom [OF assms(1) ad] by blast
    moreover from this obtain D2 where "c d = Some D2" "dom_evolves D1 D2"
      using evolves_dom [OF assms(2)] by blast
    ultimately show ?thesis using dom_evolves_trans by blast
  qed
  moreover have "chan_steps (chans a) (chans c)" using assms by (auto simp: evolves_def)
  ultimately show ?thesis using assms(2) by (simp add: evolves_def)
qed

lemma evolves_inv: "evolves s s' \<Longrightarrow> sys_inv s'"
  by (simp add: evolves_def)

text \<open>One domain changes, and with it at most one entry of the table.\<close>

lemma evolves_none:
  assumes inv: "sys_inv s" and d: "s d = Some D" and "dom_inv D'" and c: "dchans D' = dchans D"
    and "dom_evolves D D'"
  shows "evolves s (s(d \<mapsto> D'))"
  using assms chans_same [where s = s, OF d c] by (auto simp: evolves_def sys_inv_def)

lemma chans_one:
  assumes "s d = Some D" and "dchans D' = (dchans D)(p := v)"
  shows "chans (s(d \<mapsto> D')) = (chans s)((d, p) := v)"
  using assms by (auto simp: chans_def fun_eq_iff)

lemma evolves_one:
  assumes inv: "sys_inv s" and d: "s d = Some D" and i: "dom_inv D'" and c: "dchans D' = (dchans D)(p := v)"
    and st: "chan_step (chans s) ((chans s)((d, p) := v))" and e: "dom_evolves D D'"
  shows "evolves s (s(d \<mapsto> D'))"
proof -
  have "peers (chans (s(d \<mapsto> D')))"
    using peers_step [OF st] inv chans_one [where s = s, OF d c] by (simp add: sys_inv_def)
  with inv i have "sys_inv (s(d \<mapsto> D'))" by (auto simp: sys_inv_def)
  with d e st show ?thesis
    unfolding evolves_def chans_one [where s = s, OF d c] by auto
qed

lemma dchans_upd_evtchn:
  assumes "port_is_valid d p"
  shows "dchans (upd_evtchn d p f) = (dchans d)(p :=
    (if state (f (evtchn_from_port d p)) = ECS_FREE then None else Some (state (f (evtchn_from_port d p)))))"
  using assms by (auto simp: dchans_def fun_eq_iff)

lemma dchans_fields [simp]:
  "dchans (d\<lparr>pirq_to_evtchn := x1\<rparr>) = dchans d"
  "dchans (d\<lparr>evtchn_pending := x2\<rparr>) = dchans d"
  "dchans (d\<lparr>evtchn_mask := x3\<rparr>) = dchans d"
  "dchans (for_each_vcpu d g) = dchans d"
  "dchans (upd_vcpu d v g) = dchans d"
  by (simp_all add: dchans_def fun_eq_iff)

lemma dchans_free_chan:
  "port_is_valid d p \<Longrightarrow> dchans (free_chan p d) = (dchans d)(p := None)"
  by (auto simp: dchans_def fun_eq_iff)

lemma dom_evolves_same: "same_chans D D' \<Longrightarrow> dom_evolves D D'"
  by (simp add: dom_evolves_def same_chans_valid same_chans_evtchn same_chans_dchans same_chans_None)
    (simp add: same_chans_def)

text \<open>A delivery.\<close>

lemma evolves_set_pending:
  assumes "sys_inv s" and "s d \<noteq> None" and "set_pending_in env s d vid p = Done (r, s')"
  shows "evolves s s'"
proof -
  obtain D where D: "s d = Some D" using assms(2) by blast
  obtain D' where D': "evtchn_set_pending env d D vid p = Done (r, D')" "s' = s(d \<mapsto> D')"
    using assms(3) D by (auto simp: set_pending_in_def outcome_simps)
  have sc: "same_chans D D'" using D'(1) by (rule evtchn_set_pending_same)
  show ?thesis
    unfolding D'(2)
    by (rule evolves_none [OF assms(1) D dom_inv_same [OF sc sys_inv_dom [OF assms(1) D]]
        same_chans_dchans [OF sc] dom_evolves_same [OF sc]])
qed

text \<open>Looking for a free port.\<close>

lemma dom_evolves_grown:
  assumes "grown d d'" and "is_dying d \<noteq> DOMDYING_alive \<Longrightarrow> d' = d"
  shows "dom_evolves d d'"
proof (cases "is_dying d = DOMDYING_alive")
  case True
  then show ?thesis using assms(1) grown_fields [OF assms(1)] by (auto simp: dom_evolves_def grown_def)
next
  case False
  with assms(2) show ?thesis by simp
qed

text \<open>What finding a free port gives to an operation: a system in which the port can be used.\<close>

lemma get_free_port_evolves:
  assumes inv: "sys_inv s" and d: "s d = Some D" and g: "get_free_port env D = (p, D')" and l: "labels_ok env"
  shows "evolves s (s(d \<mapsto> D'))" and "sys_inv (s(d \<mapsto> D'))" and "dom_inv D'" and "grown D D'"
    and "chans (s(d \<mapsto> D')) = chans s"
    and "\<not> p < 0 \<Longrightarrow> port_is_valid D' p \<and> 0 < p \<and> evtchn_from_port D' p = zero_evtchn \<and>
      is_dying D = DOMDYING_alive \<and> is_dying D' = DOMDYING_alive \<and> chans s (d, p) = None"
proof -
  have i: "dom_inv D" using inv d by (rule sys_inv_dom)
  note ok = get_free_port_ok [OF g l i]
  show "dom_inv D'" "grown D D'" by (rule ok)+
  have "is_dying D \<noteq> DOMDYING_alive \<Longrightarrow> D' = D" using g by (simp add: get_free_port_def)
  then have e: "dom_evolves D D'" by (rule dom_evolves_grown [OF ok(2)])
  show ev: "evolves s (s(d \<mapsto> D'))"
    by (rule evolves_none [OF inv d ok(1) grown_dchans [OF ok(2)] e])
  then show "sys_inv (s(d \<mapsto> D'))" by (rule evolves_inv)
  show c: "chans (s(d \<mapsto> D')) = chans s" using d grown_dchans [OF ok(2)] by (rule chans_same)
  assume "\<not> p < 0"
  then have p: "is_dying D = DOMDYING_alive" "0 < p" "port_is_valid D' p" "evtchn_from_port D' p = zero_evtchn"
    using ok(3) by auto
  moreover have "chans (s(d \<mapsto> D')) (d, p) = None"
    using p by (simp add: chans_def dchans_def zero_evtchn_def)
  ultimately show "port_is_valid D' p \<and> 0 < p \<and> evtchn_from_port D' p = zero_evtchn \<and>
      is_dying D = DOMDYING_alive \<and> is_dying D' = DOMDYING_alive \<and> chans s (d, p) = None"
    using c grown_fields(3) [OF ok(2)] by simp
qed

text \<open>A new channel, with whatever goes with it in the domain.\<close>

lemma evolves_allocate:
  assumes inv: "sys_inv s" and d: "s d = Some D" and i: "dom_inv D'"
    and c: "dchans D' = (dchans D)(p \<mapsto> st)" and free: "chans s (d, p) = None" and p: "0 < p"
    and st: "case st of ECS_UNBOUND _ \<Rightarrow> True | ECS_PIRQ _ \<Rightarrow> True | ECS_VIRQ _ \<Rightarrow> True | ECS_IPI \<Rightarrow> True | _ \<Rightarrow> False"
    and v: "\<And>v. (vcpu D' v = None) = (vcpu D v = None)"
    and pv: "\<And>p. port_is_valid D' p = port_is_valid D p" and alive: "is_dying D = DOMDYING_alive"
  shows "evolves s (s(d \<mapsto> D'))"
proof (rule evolves_one [OF inv d i c])
  show "chan_step (chans s) ((chans s)((d, p) \<mapsto> st))"
    using free p st by (intro chan_step.Allocate) auto
  show "dom_evolves D D'" using v pv alive by (simp add: dom_evolves_def)
qed

section \<open>Operations that allocate\<close>

lemma evtchn_alloc_unbound_evolves:
  assumes inv: "sys_inv s" and l: "labels_ok env" and cur: "s (current_dom env) \<noteq> None"
    and op: "evtchn_alloc_unbound env s a = (rc, s', a')"
  shows "evolves s s'"
proof (cases "rcu_lock_target_domain_by_id env s (au_dom a)")
  case (Inl e)
  with op evolves_refl [OF inv] show ?thesis by (simp add: evtchn_alloc_unbound_def)
next
  case (Inr d)
  then have "s d \<noteq> None"
    using cur by (auto simp: rcu_lock_target_domain_by_id_def rcu_lock_domain_by_id_def split: if_splits)
  then obtain D where D: "s d = Some D" by blast
  obtain p D' where g: "get_free_port env D = (p, D')" by fastforce
  note f = get_free_port_evolves [OF inv D g l]
  let ?s1 = "s(d \<mapsto> D')"
  show ?thesis
  proof (cases "p < 0 \<or> xsm_evtchn_unbound (xsm_ops env) d p (au_remote_dom a) \<noteq> 0")
    case True
    then have "s' = ?s1" using op Inr D g by (auto simp: evtchn_alloc_unbound_def Let_def split: if_splits)
    with f(1) show ?thesis by simp
  next
    case False
    then have p: "port_is_valid D' p" "0 < p" "evtchn_from_port D' p = zero_evtchn"
      "is_dying D' = DOMDYING_alive" "chans s (d, p) = None"
      using f(6) by auto
    obtain r where s': "s' = ?s1(d \<mapsto> upd_evtchn D' p (\<lambda>c. c\<lparr>state := ECS_UNBOUND r\<rparr>))" (is "_ = ?s1(d \<mapsto> ?D)")
      using op Inr D g False by (auto simp: evtchn_alloc_unbound_def Let_def upd_dom_def split: if_splits)
    have "evolves ?s1 (?s1(d \<mapsto> ?D))"
    proof (rule evolves_allocate [OF f(2)])
      show "dom_inv ?D" using f(3) p by (intro dom_inv_upd) (simp_all add: zero_evtchn_def chan_ok_def)
      show "dchans ?D = (dchans D')(p \<mapsto> ECS_UNBOUND r)" using p by (simp add: dchans_upd_evtchn)
    qed (use p f(5) in simp_all)
    from evolves_trans [OF f(1) this] show ?thesis by (simp only: s')
  qed
qed

lemma evtchn_bind_ipi_evolves:
  assumes inv: "sys_inv s" and l: "labels_ok env" and cur: "s (current_dom env) \<noteq> None"
    and op: "evtchn_bind_ipi env s b = (rc, s', b')"
  shows "evolves s s'"
proof -
  let ?d = "current_dom env"
  obtain D where D: "s ?d = Some D" using cur by blast
  obtain p D' where g: "get_free_port env D = (p, D')" by fastforce
  note f = get_free_port_evolves [OF inv D g l]
  let ?s1 = "s(?d \<mapsto> D')"
  consider "s' = s" | "s' = ?s1"
    | "\<not> p < 0" "vcpu D (bipi_vcpu b) \<noteq> None"
      "s' = ?s1(?d \<mapsto> upd_evtchn D' p (\<lambda>c. c\<lparr>state := ECS_IPI, notify_vcpu_id := bipi_vcpu b\<rparr>))"
    using op D g by (auto simp: evtchn_bind_ipi_def Let_def upd_dom_def split: if_splits)
  then show ?thesis
  proof cases
    case 3
    then have p: "port_is_valid D' p" "0 < p" "evtchn_from_port D' p = zero_evtchn"
      "is_dying D' = DOMDYING_alive" "chans s (?d, p) = None"
      using f(6) by auto
    let ?D = "upd_evtchn D' p (\<lambda>c. c\<lparr>state := ECS_IPI, notify_vcpu_id := bipi_vcpu b\<rparr>)"
    have "evolves ?s1 (?s1(?d \<mapsto> ?D))"
    proof (rule evolves_allocate [OF f(2)])
      show "dom_inv ?D" using f(3) p 3(2) grown_fields(2) [OF f(4)]
        by (intro dom_inv_upd) (simp_all add: zero_evtchn_def chan_ok_def)
      show "dchans ?D = (dchans D')(p \<mapsto> ECS_IPI)" using p by (simp add: dchans_upd_evtchn)
    qed (use p f(5) in simp_all)
    from evolves_trans [OF f(1) this] show ?thesis by (simp only: 3)
  qed (use f(1) inv evolves_refl in simp_all)
qed

lemma evtchn_bind_pirq_evolves:
  assumes inv: "sys_inv s" and l: "labels_ok env" and cur: "s (current_dom env) \<noteq> None"
    and op: "evtchn_bind_pirq env s b = (rc, s', b')"
  shows "evolves s s'"
proof -
  let ?d = "current_dom env" and ?q = "bp_pirq b"
  obtain D where D: "s ?d = Some D" using cur by blast
  obtain p D' where g: "get_free_port env D = (p, D')" by fastforce
  note f = get_free_port_evolves [OF inv D g l]
  note gf = grown_fields [OF f(4)]
  let ?s1 = "s(?d \<mapsto> D')"
  let ?D = "upd_evtchn (D'\<lparr>pirq_to_evtchn := (pirq_to_evtchn D')(?q := p)\<rparr>) p (\<lambda>c. c\<lparr>state := ECS_PIRQ ?q\<rparr>)"
  have same: "D'\<lparr>pirq_to_evtchn := (pirq_to_evtchn D')(?q := 0)\<rparr> = D'" if "pirq_to_evtchn D ?q = 0"
    using that gf(1) fun_upd_idem [of "pirq_to_evtchn D'" ?q 0] by simp
  show ?thesis
  proof (cases "0 \<le> ?q \<and> ?q < NR_IRQS \<and> irq_access_permitted D (of_int ?q) \<and> pirq_to_evtchn D ?q = 0")
    case False
    then have "s' = s" using op D by (simp add: evtchn_bind_pirq_def Let_def split: if_splits)
    with evolves_refl [OF inv] show ?thesis by simp
  next
    case True
    note same = same [OF conjunct2 [OF conjunct2 [OF conjunct2 [OF True]]]]
    show ?thesis
    proof (cases "p < 0 \<or> pirq_guest_bind_rc env \<noteq> 0")
      case rc: True
      have "s' = ?s1 \<or> s' = s(?d \<mapsto> D'\<lparr>pirq_to_evtchn := (pirq_to_evtchn D')(?q := 0)\<rparr>)"
        using op D g True rc by (cases "p < 0") (auto simp: evtchn_bind_pirq_def Let_def upd_dom_def)
      then have "s' = ?s1" unfolding same by blast
      with f(1) show ?thesis by simp
    next
      case rc: False
      have s': "s' = ?s1(?d \<mapsto> ?D)"
        using op D g True rc by (simp add: evtchn_bind_pirq_def Let_def upd_dom_def split: if_splits)
      have p: "port_is_valid D' p" "0 < p" "evtchn_from_port D' p = zero_evtchn"
        "is_dying D' = DOMDYING_alive" "chans s (?d, p) = None"
        using f(6) rc by auto
      have "evolves ?s1 (?s1(?d \<mapsto> ?D))"
      proof (rule evolves_allocate [OF f(2)])
        show "dom_inv ?D" using f(3) p True gf(1) by (intro dom_inv_bind_pirq) simp_all
        show "dchans ?D = (dchans D')(p \<mapsto> ECS_PIRQ ?q)" using p by (simp add: dchans_upd_evtchn)
      qed (use p f(5) in simp_all)
      from evolves_trans [OF f(1) this] show ?thesis by (simp only: s')
    qed
  qed
qed

lemma evtchn_bind_virq_evolves:
  assumes inv: "sys_inv s" and l: "labels_ok env" and cur: "s (current_dom env) \<noteq> None"
    and op: "evtchn_bind_virq env s b = Done (rc, s', b')"
  shows "evolves s s'"
proof -
  let ?d = "current_dom env" and ?q = "bv_virq b" and ?v = "bv_vcpu b"
  obtain D where D: "s ?d = Some D" using cur by blast
  obtain p D' where g: "get_free_port env D = (p, D')" by fastforce
  note f = get_free_port_evolves [OF inv D g l]
  note gf = grown_fields [OF f(4)]
  let ?s1 = "s(?d \<mapsto> D')"
  let ?D = "upd_vcpu (upd_evtchn D' p (\<lambda>c. c\<lparr>state := ECS_VIRQ ?q, notify_vcpu_id := ?v\<rparr>)) ?v
    (\<lambda>v. v\<lparr>virq_to_evtchn := (virq_to_evtchn v)(?q := p)\<rparr>)"
  consider "s' = s" | "s' = ?s1"
    | x where "\<not> p < 0" "0 \<le> ?q" "?q < NR_VIRQS" "virq_class ?q \<longrightarrow> ?v = 0" "vcpu D ?v = Some x"
      "virq_to_evtchn x ?q = 0" "s' = ?s1(?d \<mapsto> ?D)"
    using op D g
    by (auto simp: evtchn_bind_virq_def virq_is_global_def outcome_simps Let_def upd_dom_def
        split: if_splits option.splits)
  then show ?thesis
  proof cases
    case 3
    then have p: "port_is_valid D' p" "0 < p" "evtchn_from_port D' p = zero_evtchn"
      "is_dying D' = DOMDYING_alive" "chans s (?d, p) = None"
      using f(6) by auto
    have "evolves ?s1 (?s1(?d \<mapsto> ?D))"
    proof (rule evolves_allocate [OF f(2)])
      show "dom_inv ?D" using f(3) p 3 gf(2) by (intro dom_inv_bind_virq [where v = x]) simp_all
      show "dchans ?D = (dchans D')(p \<mapsto> ECS_VIRQ ?q)" using p by (simp add: dchans_upd_evtchn)
    qed (use p f(5) in simp_all)
    from evolves_trans [OF f(1) this] show ?thesis by (simp only: 3)
  qed (use f(1) inv evolves_refl in simp_all)
qed

section \<open>Connecting and disconnecting\<close>

lemma evolvesI:
  assumes inv: "sys_inv s" and d: "\<And>d D. s' d = Some D \<Longrightarrow> dom_inv D"
    and c: "chan_step (chans s) (chans s')"
    and e: "\<And>d D. s d = Some D \<Longrightarrow> \<exists>D'. s' d = Some D' \<and> dom_evolves D D'"
  shows "evolves s s'"
proof -
  have "peers (chans s')" using peers_step [OF c] inv by (simp add: sys_inv_def)
  with d have "sys_inv s'" by (simp add: sys_inv_def)
  with c e show ?thesis by (simp add: evolves_def r_into_rtranclp)
qed

lemma dom_evolves_upd:
  assumes "port_is_valid D p"
    and "is_dying D \<noteq> DOMDYING_alive \<Longrightarrow> winding (dchans D p) (dchans (upd_evtchn D p f) p)"
    and "consumer_is_xen (f (evtchn_from_port D p)) \<Longrightarrow> consumer_is_xen (evtchn_from_port D p)"
  shows "dom_evolves D (upd_evtchn D p f)"
  using assms by (auto simp: dom_evolves_def dchans_upd_evtchn)

lemma dom_evolves_free_chan:
  assumes "port_is_valid D p"
  shows "dom_evolves D (free_chan p D)"
  using assms by (auto simp: dom_evolves_def dchans_free_chan)

lemma evolves_connect:
  assumes inv: "sys_inv s" and l: "s ld = Some L" "port_is_valid L lp" "evtchn_from_port L lp = zero_evtchn"
    "0 < lp" "is_dying L = DOMDYING_alive"
    and r: "s rd = Some R" "port_is_valid R rp" "state (evtchn_from_port R rp) = ECS_UNBOUND ld"
  defines "s2 \<equiv> upd_dom s ld (\<lambda>d. upd_evtchn d lp (\<lambda>c. c\<lparr>state := ECS_INTERDOMAIN rd rp\<rparr>))"
  defines "s3 \<equiv> upd_dom s2 rd (\<lambda>d. upd_evtchn d rp (\<lambda>c. c\<lparr>state := ECS_INTERDOMAIN ld lp\<rparr>))"
  shows "evolves s s3"
    and "chans s3 = (chans s)((ld, lp) \<mapsto> ECS_INTERDOMAIN rd rp, (rd, rp) \<mapsto> ECS_INTERDOMAIN ld lp)"
proof -
  let ?L = "upd_evtchn L lp (\<lambda>c. c\<lparr>state := ECS_INTERDOMAIN rd rp\<rparr>)"
  let ?R = "if rd = ld then ?L else R"
  let ?f = "\<lambda>d. upd_evtchn d rp (\<lambda>c. c\<lparr>state := ECS_INTERDOMAIN ld lp\<rparr>)"
  have ne: "rd = ld \<Longrightarrow> rp \<noteq> lp" using l r by (auto simp: zero_evtchn_def)
  have iL: "dom_inv L" and iR: "dom_inv R" using inv l r sys_inv_dom by blast+
  have s2: "s2 ld = Some ?L" "s2 rd = Some ?R" "\<And>d. d \<noteq> ld \<Longrightarrow> s2 d = s d"
    using l(1) r(1) by (simp_all add: s2_def)
  have vR: "port_is_valid ?R rp" "evtchn_from_port ?R rp = evtchn_from_port R rp"
    using l r ne by auto
  have s3: "s3 d = (if d = rd then Some (?f ?R) else s2 d)" for d
    using s2(2) by (simp add: s3_def)
  have i2: "dom_inv ?L"
    using l by (intro dom_inv_upd [OF iL]) (simp_all add: zero_evtchn_def chan_ok_def)
  have i2R: "dom_inv ?R" using i2 iR by (cases "rd = ld") auto
  have ok: "chan_ok ?R rp (evtchn_from_port R rp)"
    using chan_inv [OF i2R vR(1)] unfolding vR(2) .
  have i3: "dom_inv (?f ?R)"
    using ok vR r by (intro dom_inv_upd [OF i2R]) (simp_all add: chan_ok_def)
  have "chans s2 = (chans s)((ld, lp) \<mapsto> ECS_INTERDOMAIN rd rp)"
    unfolding s2_def using l by (subst chans_upd_dom) simp_all
  moreover have "chans s3 = (chans s2)((rd, rp) \<mapsto> ECS_INTERDOMAIN ld lp)"
    unfolding s3_def using s2(2) vR by (subst chans_upd_dom [where D = ?R]) simp_all
  ultimately show c: "chans s3 =
      (chans s)((ld, lp) \<mapsto> ECS_INTERDOMAIN rd rp, (rd, rp) \<mapsto> ECS_INTERDOMAIN ld lp)"
    by simp
  show "evolves s s3"
  proof (rule evolvesI [OF inv])
    show "dom_inv D" if "s3 d = Some D" for d D
      using that i3 i2 s2 sys_inv_dom [OF inv, of d] by (cases "d = rd"; cases "d = ld") (auto simp: s3)
    show "chan_step (chans s) (chans s3)"
      unfolding c
    proof (rule chan_step.Connect)
      show "chans s (ld, lp) = None" using l by (simp add: chans_def dchans_def zero_evtchn_def)
      show "chans s (rd, rp) = Some (ECS_UNBOUND ld)" using r by (simp add: chans_def dchans_def)
    qed (use l in simp)
    have eL: "dom_evolves L ?L" using l by (intro dom_evolves_upd) simp_all
    have eR: "dom_evolves ?R (?f ?R)"
      by (rule dom_evolves_upd [OF vR(1)], cases "rd = ld")
        (use vR r l in \<open>simp_all add: dchans_def winding_def\<close>)
    show "\<exists>D'. s3 d = Some D' \<and> dom_evolves D D'" if "s d = Some D" for d D
    proof (cases "d = rd")
      case True
      show ?thesis
      proof (cases "rd = ld")
        case True
        then have "dom_evolves L (?f ?R)" using dom_evolves_trans [OF eL, of "?f ?R"] eR by simp
        then show ?thesis using True \<open>d = rd\<close> that l(1) by (simp add: s3)
      next
        case False
        then show ?thesis using eR True that r(1) by (simp add: s3)
      qed
    next
      case False
      then show ?thesis using eL that l(1) s2 by (cases "d = ld") (auto simp: s3)
    qed
  qed
qed

lemma evolves_disconnect:
  assumes inv: "sys_inv s" and a: "s d1 = Some A" "port_is_valid A p1" "\<not> consumer_is_xen (evtchn_from_port A p1)"
    "state (evtchn_from_port A p1) = ECS_INTERDOMAIN d2 p2"
    and b: "s d2 = Some B" "port_is_valid B p2" "state (evtchn_from_port B p2) = ECS_INTERDOMAIN d1 p1"
  defines "s2 \<equiv> upd_dom s d2 (\<lambda>d. upd_evtchn d p2 (\<lambda>c. c\<lparr>state := ECS_UNBOUND d1\<rparr>))"
  defines "s3 \<equiv> upd_dom s2 d1 (free_chan p1)"
  shows "evolves s s3" and "chans s3 = (chans s)((d2, p2) \<mapsto> ECS_UNBOUND d1, (d1, p1) := None)"
proof -
  let ?B = "upd_evtchn B p2 (\<lambda>c. c\<lparr>state := ECS_UNBOUND d1\<rparr>)"
  let ?A = "if d1 = d2 then ?B else A"
  have iA: "dom_inv A" and iB: "dom_inv B" using inv a b sys_inv_dom by blast+
  have s2: "s2 d2 = Some ?B" "s2 d1 = Some ?A" "\<And>d. d \<noteq> d2 \<Longrightarrow> s2 d = s d"
    using a(1) b(1) by (simp_all add: s2_def)
  have s3: "s3 d = (if d = d1 then Some (free_chan p1 ?A) else s2 d)" for d
    using s2(2) by (simp add: s3_def)
  have okA: "chan_ok A p1 (evtchn_from_port A p1)" and okB: "chan_ok B p2 (evtchn_from_port B p2)"
    using chan_inv iA iB a b by blast+
  then have p: "p1 \<noteq> 0" "p2 \<noteq> 0" using a b by (simp_all add: chan_ok_def)
  have iB2: "dom_inv ?B" using okB b p by (intro dom_inv_upd [OF iB]) (simp_all add: chan_ok_def)
  then have iA2: "dom_inv ?A" using iA by (cases "d1 = d2") auto
  have vA: "port_is_valid ?A p1" using a b by auto
  have cA: "\<not> consumer_is_xen (evtchn_from_port ?A p1)" "\<forall>q. state (evtchn_from_port ?A p1) \<noteq> ECS_PIRQ q"
    "\<forall>q. state (evtchn_from_port ?A p1) \<noteq> ECS_VIRQ q"
    using a b by auto
  have i3: "dom_inv (free_chan p1 ?A)" by (rule dom_inv_free [OF iA2 vA p(1) cA])
  have c2: "chans s2 = (chans s)((d2, p2) \<mapsto> ECS_UNBOUND d1)"
    unfolding s2_def using b by (subst chans_upd_dom) simp_all
  have "chans s3 = chans (s2(d1 \<mapsto> free_chan p1 ?A))"
    using s2(2) by (simp add: s3_def upd_dom_def)
  also have "\<dots> = (chans s2)((d1, p1) := None)"
    using s2(2) dchans_free_chan [OF vA] by (rule chans_one)
  finally show c: "chans s3 = (chans s)((d2, p2) \<mapsto> ECS_UNBOUND d1, (d1, p1) := None)"
    using c2 by simp
  show "evolves s s3"
  proof (rule evolvesI [OF inv])
    show "dom_inv D" if "s3 d = Some D" for d D
      using that i3 iB2 s2 sys_inv_dom [OF inv, of d] by (cases "d = d1"; cases "d = d2") (auto simp: s3)
    show "chan_step (chans s) (chans s3)"
      unfolding c using a by (intro chan_step.Disconnect) (simp add: chans_def dchans_def)
    have eB: "dom_evolves B ?B"
      using b by (intro dom_evolves_upd) (simp_all add: dchans_def winding_def)
    have eA: "dom_evolves ?A (free_chan p1 ?A)" using vA by (rule dom_evolves_free_chan)
    show "\<exists>D'. s3 d = Some D' \<and> dom_evolves D D'" if "s d = Some D" for d D
    proof (cases "d = d1")
      case True
      show ?thesis
      proof (cases "d1 = d2")
        case True
        then have "dom_evolves B (free_chan p1 ?A)" using dom_evolves_trans [OF eB, of "free_chan p1 ?A"] eA by simp
        then show ?thesis using True \<open>d = d1\<close> that b(1) by (simp add: s3)
      next
        case False
        then show ?thesis using eA True that a(1) by (simp add: s3)
      qed
    next
      case False
      then show ?thesis using eB that b(1) s2 by (cases "d = d2") (auto simp: s3)
    qed
  qed
qed

lemma evtchn_bind_interdomain_cases:
  assumes inv: "sys_inv s" and l: "labels_ok env" and cur: "s (current_dom env) \<noteq> None"
    and op: "evtchn_bind_interdomain env s b = Done (rc, s', b')"
  obtains "rc \<noteq> 0" "evolves s s'" "b' = b" "chans s' = chans s"
  | ld rd lp rp s3 r where "rc = 0" "ld = current_dom env" "rp = bi_remote_port b"
      "rd = (if bi_remote_dom b = DOMID_SELF then ld else bi_remote_dom b)"
      "chans s (ld, lp) = None" "chans s (rd, rp) = Some (ECS_UNBOUND ld)" "0 < lp"
      "evolves s s3" "s3 ld \<noteq> None"
      "chans s3 = (chans s)((ld, lp) \<mapsto> ECS_INTERDOMAIN rd rp, (rd, rp) \<mapsto> ECS_INTERDOMAIN ld lp)"
      "set_pending_in env s3 ld 0 lp = Done (r, s')"
      "b' = b\<lparr>bi_local_port := lp\<rparr>"
proof -
  let ?ld = "current_dom env" and ?rp = "bi_remote_port b"
  let ?rd = "if bi_remote_dom b = DOMID_SELF then ?ld else bi_remote_dom b"
  obtain L where L: "s ?ld = Some L" using cur by blast
  obtain p L' where g: "get_free_port env L = (p, L')" by fastforce
  note f = get_free_port_evolves [OF inv L g l]
  let ?s1 = "s(?ld \<mapsto> L')"
  show thesis
  proof (cases "s ?rd")
    case None
    then show thesis
      using op that(1) evolves_refl [OF inv]
      by (simp add: evtchn_bind_interdomain_def rcu_lock_domain_by_id_def Let_def)
  next
    case (Some R0)
    then obtain R where R: "?s1 ?rd = Some R" by (cases "?rd = ?ld") auto
    let ?go = "\<not> p < 0 \<and> port_is_valid R ?rp \<and> state (evtchn_from_port R ?rp) = ECS_UNBOUND ?ld \<and>
      xsm_evtchn_interdomain (xsm_ops env) ?ld p ?rd ?rp = 0"
    show thesis
    proof (cases ?go)
      case False
      then have "rc \<noteq> 0 \<and> s' = ?s1 \<and> b' = b"
        using op L g Some R
        by (auto simp: evtchn_bind_interdomain_def rcu_lock_domain_by_id_def Let_def split: if_splits)
      then show thesis using that(1) f(1,5) by simp
    next
      case True
      have p: "port_is_valid L' p" "0 < p" "evtchn_from_port L' p = zero_evtchn"
        "is_dying L' = DOMDYING_alive" "chans s (?ld, p) = None"
        using f(6) True by auto
      define s3 where "s3 = upd_dom (upd_dom ?s1 ?ld (\<lambda>d. upd_evtchn d p (\<lambda>c. c\<lparr>state := ECS_INTERDOMAIN ?rd ?rp\<rparr>)))
         ?rd (\<lambda>d. upd_evtchn d ?rp (\<lambda>c. c\<lparr>state := ECS_INTERDOMAIN ?ld p\<rparr>))"
      have u: "to_u16 ?rp = ?rp" "to_u16 p = p" using True p port_bounds by blast+
      have e: "evolves ?s1 s3" "chans s3 = (chans ?s1)((?ld, p) \<mapsto> ECS_INTERDOMAIN ?rd ?rp, (?rd, ?rp) \<mapsto> ECS_INTERDOMAIN ?ld p)"
        unfolding s3_def using evolves_connect [OF f(2), of ?ld L' p ?rd R ?rp] p R True by auto
      have ne: "?rd = ?ld \<longrightarrow> ?rp \<noteq> p" using p R True by (auto simp: zero_evtchn_def)
      have n: "notify_vcpu_id (evtchn_from_port (the (s3 ?ld)) p) = 0"
        using p R True ne by (auto simp: s3_def zero_evtchn_def)
      have "bind_outcome (set_pending_in env s3 ?ld 0 p) (\<lambda>(_, s4). Done (0, s4, b\<lparr>bi_local_port := p\<rparr>))
          = Done (rc, s', b')"
        using op L g Some R True u n
        by (simp add: evtchn_bind_interdomain_def rcu_lock_domain_by_id_def Let_def s3_def)
      then obtain r where r: "set_pending_in env s3 ?ld 0 p = Done (r, s')" "rc = 0"
        "b' = b\<lparr>bi_local_port := p\<rparr>"
        by (auto simp: outcome_simps)
      have "chans ?s1 (?rd, ?rp) = Some (ECS_UNBOUND ?ld)"
        using R True by (simp add: chans_def dchans_def)
      then show thesis
        using that(2) [OF r(2) refl refl refl p(5) _ p(2) evolves_trans [OF f(1) e(1)] _ _ r(1,3)] e(2) f(5)
        by (auto simp: s3_def)
    qed
  qed
qed

lemma evtchn_bind_interdomain_evolves:
  assumes inv: "sys_inv s" and l: "labels_ok env" and cur: "s (current_dom env) \<noteq> None"
    and op: "evtchn_bind_interdomain env s b = Done (rc, s', b')"
  shows "evolves s s'"
proof (rule evtchn_bind_interdomain_cases [OF assms])
  fix ld lp s3 r
  assume e: "evolves s s3" "s3 ld \<noteq> None" "set_pending_in env s3 ld 0 lp = Done (r, s')"
  from evolves_set_pending [OF evolves_inv [OF e(1)] e(2,3)] e(1) show "evolves s s'"
    using evolves_trans by blast
qed simp_all

section \<open>Closing\<close>

lemma evolves_close:
  assumes inv: "sys_inv s" and d: "s d = Some D" and i: "dom_inv (free_chan p D1)"
    and v: "port_is_valid D1 p" "port_is_valid D p"
    and c: "dchans D1 = dchans D" and e: "dom_evolves D D1"
    and st: "case state (evtchn_from_port D p) of ECS_UNBOUND _ \<Rightarrow> True | ECS_PIRQ _ \<Rightarrow> True
      | ECS_VIRQ _ \<Rightarrow> True | ECS_IPI \<Rightarrow> True | _ \<Rightarrow> False"
  shows "evolves s (s(d \<mapsto> free_chan p D1))" and "chans (s(d \<mapsto> free_chan p D1)) = (chans s)((d, p) := None)"
proof -
  have dc: "dchans (free_chan p D1) = (dchans D)(p := None)" using dchans_free_chan [OF v(1)] c by simp
  have "chans s (d, p) = Some (state (evtchn_from_port D p))"
    using d v(2) st by (auto simp: chans_def dchans_def)
  then have "chan_step (chans s) ((chans s)((d, p) := None))" using st by (rule chan_step.Close)
  moreover have "dom_evolves D (free_chan p D1)"
    using e dom_evolves_free_chan [OF v(1)] by (rule dom_evolves_trans)
  ultimately show "evolves s (s(d \<mapsto> free_chan p D1))"
    by (rule evolves_one [OF inv d i dc])
  show "chans (s(d \<mapsto> free_chan p D1)) = (chans s)((d, p) := None)"
    using d dc by (rule chans_one)
qed

text \<open>One pass of a close, on every branch. A channel that is in use, not Xen's and not reserved is closed,
  unless the pass must start again, or knows of another peer than the channel has.\<close>

lemma evtchn_close_pass_cases:
  assumes inv: "sys_inv s" and d: "s d = Some D"
  obtains (Invalid) "evtchn_close_pass env s d p d2 = Done (Finished (- EINVAL) s)"
      "\<not> port_is_valid D p \<or> consumer_is_xen (evtchn_from_port D p) \<or> chans s (d, p) = None \<or>
       chans s (d, p) = Some ECS_RESERVED \<or>
       (\<exists>r rp e. d2 = Some e \<and> e \<noteq> r \<and> chans s (d, p) = Some (ECS_INTERDOMAIN r rp))"
  | (Restart) r rp where "evtchn_close_pass env s d p d2 = Done (Again r)" "d2 = None" "d \<noteq> r"
      "chans s (d, p) = Some (ECS_INTERDOMAIN r rp)"
  | (Closed) s' where "evtchn_close_pass env s d p d2 = Done (Finished 0 s')" "evolves s s'"
      "chans s' (d, p) = None" "port_is_valid D p" "\<not> consumer_is_xen (evtchn_from_port D p)"
      "chans s (d, p) \<noteq> None" "chans s (d, p) \<noteq> Some ECS_RESERVED"
      "chans s' = (case chans s (d, p) of
         Some (ECS_INTERDOMAIN r rp) \<Rightarrow> (chans s)((r, rp) \<mapsto> ECS_UNBOUND d, (d, p) := None)
       | _ \<Rightarrow> (chans s)((d, p) := None))"
proof (cases "port_is_valid D p \<and> \<not> consumer_is_xen (evtchn_from_port D p)")
  case False
  then have "evtchn_close_pass env s d p d2 = Done (Finished (- EINVAL) s)"
    using d by (auto simp: evtchn_close_pass_def Let_def)
  with False that(1) show thesis by blast
next
  case True
  note i = sys_inv_dom [OF inv d]
  have ok: "chan_ok D p (evtchn_from_port D p)" using i True by (simp add: chan_inv)
  have ch: "chans s (d, p) = (if state (evtchn_from_port D p) = ECS_FREE then None
    else Some (state (evtchn_from_port D p)))"
    using d True by (simp add: chans_def dchans_def)
  have plain: thesis if "evtchn_close_pass env s d p d2 = Done (close_free (s(d \<mapsto> D1)) d p)"
    "dom_inv (free_chan p D1)" "port_is_valid D1 p" "dchans D1 = dchans D" "dom_evolves D D1"
    "case state (evtchn_from_port D p) of ECS_UNBOUND _ \<Rightarrow> True | ECS_PIRQ _ \<Rightarrow> True
      | ECS_VIRQ _ \<Rightarrow> True | ECS_IPI \<Rightarrow> True | _ \<Rightarrow> False" for D1
  proof (rule Closed)
    show "evtchn_close_pass env s d p d2 = Done (Finished 0 (s(d \<mapsto> free_chan p D1)))"
      using that(1) by (simp add: close_free_alt upd_dom_def)
    note c = evolves_close [OF inv d that(2,3) conjunct1 [OF True] that(4-6)]
    show "evolves s (s(d \<mapsto> free_chan p D1))" by (rule c)
    show "chans (s(d \<mapsto> free_chan p D1)) = (case chans s (d, p) of
         Some (ECS_INTERDOMAIN r rp) \<Rightarrow> (chans s)((r, rp) \<mapsto> ECS_UNBOUND d, (d, p) := None)
       | _ \<Rightarrow> (chans s)((d, p) := None))"
      using c(2) that(6) by (auto simp: ch split: evtchn_state.splits)
    show "chans (s(d \<mapsto> free_chan p D1)) (d, p) = None" using c(2) by simp
  qed (use True that(6) in \<open>auto simp: ch\<close>)
  have pass: "evtchn_close_pass env s d p d2 = (case state (evtchn_from_port D p) of
          ECS_FREE \<Rightarrow> Done (Finished (- EINVAL) s)
        | ECS_RESERVED \<Rightarrow> Done (Finished (- EINVAL) s)
        | ECS_UNBOUND _ \<Rightarrow> Done (close_free (s(d \<mapsto> D)) d p)
        | ECS_PIRQ pirq \<Rightarrow> Done (close_free (s(d \<mapsto>
            D\<lparr>pirq_to_evtchn := (pirq_to_evtchn D)(pirq := 0)\<rparr>)) d p)
        | ECS_VIRQ virq \<Rightarrow> Done (close_free (s(d \<mapsto> for_each_vcpu D (clear_virq virq p))) d p)
        | ECS_IPI \<Rightarrow> Done (close_free (s(d \<mapsto> D)) d p)
        | ECS_INTERDOMAIN r rp \<Rightarrow>
           (case d2 of
              None \<Rightarrow> bug_on (s r = None \<or> \<not> get_domain (the (s r)))
                 (if domain_lt env d r then close_peer s d p r rp
                  else if d \<noteq> r then Done (Again r) else close_peer s d p r rp)
            | Some e \<Rightarrow> if e \<noteq> r then Done (Finished (- EINVAL) s) else close_peer s d p e rp))"
  proof -
    have "s(d \<mapsto> D) = s" using d by auto
    moreover have "(\<lambda>v. if virq_to_evtchn v q \<noteq> p then v
        else v\<lparr>virq_to_evtchn := (virq_to_evtchn v)(q := 0)\<rparr>) = clear_virq q p" for q
      by (simp add: fun_eq_iff clear_virq_def)
    ultimately show ?thesis
      using True d unfolding evtchn_close_pass_def
      by (simp add: Let_def upd_dom_def split: evtchn_state.split)
  qed
  show thesis
  proof (cases "state (evtchn_from_port D p)")
    case (ECS_INTERDOMAIN r rp)
    obtain R where R: "s r = Some R" "\<not> refcnt_destroyed R" "port_is_valid R rp"
      "state (evtchn_from_port R rp) = ECS_INTERDOMAIN d p"
      using linked [OF inv d conjunct1 [OF True] ECS_INTERDOMAIN] by metis
    have peer: "close_peer s d p r rp = Done (Finished 0 (upd_dom (upd_dom s r
        (\<lambda>d1. upd_evtchn d1 rp (\<lambda>c. c\<lparr>state := ECS_UNBOUND d\<rparr>))) d (free_chan p)))" (is "_ = Done (Finished 0 ?s)")
      using R by (simp add: close_peer_def close_free_alt)
    have ev: "evolves s ?s" "chans ?s = (chans s)((r, rp) \<mapsto> ECS_UNBOUND d, (d, p) := None)"
      using evolves_disconnect [OF inv d conjunct1 [OF True] conjunct2 [OF True] ECS_INTERDOMAIN R(1,3,4)]
      by blast+
    have cl: thesis if "evtchn_close_pass env s d p d2 = Done (Finished 0 ?s)"
      by (rule Closed [OF that ev(1)]) (use ev(2) True ch ECS_INTERDOMAIN in auto)
    consider "d2 = Some r \<or> d2 = None \<and> (domain_lt env d r \<or> d = r)"
      | e where "d2 = Some e" "e \<noteq> r" | "d2 = None" "\<not> domain_lt env d r" "d \<noteq> r"
      by (cases d2) blast+
    then show thesis
    proof cases
      case 1
      then have "evtchn_close_pass env s d p d2 = close_peer s d p r rp"
        using R by (auto simp: pass ECS_INTERDOMAIN get_domain_def)
      with peer cl show thesis by simp
    next
      case 2
      then have "evtchn_close_pass env s d p d2 = Done (Finished (- EINVAL) s)"
        unfolding pass ECS_INTERDOMAIN by simp
      then show thesis by (rule Invalid) (use 2 ch ECS_INTERDOMAIN in simp)
    next
      case 3
      then have "evtchn_close_pass env s d p d2 = Done (Again r)"
        unfolding pass ECS_INTERDOMAIN using R by (simp add: get_domain_def)
      then show thesis by (rule Restart) (use 3 ch ECS_INTERDOMAIN in simp_all)
    qed
  next
    case ECS_FREE
    then show thesis using Invalid ch by (simp add: pass)
  next
    case ECS_RESERVED
    then show thesis using Invalid ch by (simp add: pass)
  next
    case (ECS_UNBOUND r)
    then show thesis
      using ok True by (intro plain [of D] dom_inv_free [OF i]) (simp_all add: pass chan_ok_def)
  next
    case ECS_IPI
    then show thesis
      using ok True by (intro plain [of D] dom_inv_free [OF i]) (simp_all add: pass chan_ok_def)
  next
    case (ECS_PIRQ q)
    show thesis
      by (rule plain [OF _ dom_inv_free_pirq [OF i conjunct1 [OF True] ECS_PIRQ]])
        (use True in \<open>simp_all add: pass ECS_PIRQ dom_evolves_def\<close>)
  next
    case (ECS_VIRQ q)
    show thesis
      by (rule plain [OF _ dom_inv_free_virq [OF i conjunct1 [OF True] ECS_VIRQ]])
        (use True in \<open>simp_all add: pass ECS_VIRQ dom_evolves_def\<close>)
  qed
qed

text \<open>
  What other CPUs may do where a lock is not held: everything that keeps the system in order and changes the table of
  channels by its steps, the creation of domains, the operations of this theory and the destruction of the channels
  of a dying domain among it. Domains and virtual CPUs stay in existence.
\<close>

definition interference :: "(system \<Rightarrow> system) \<Rightarrow> bool" where
  "interference f \<longleftrightarrow> (\<forall>s. sys_inv s \<longrightarrow> evolves s (f s))"

lemma interference_id: "interference (\<lambda>s. s)"
  by (simp add: interference_def evolves_refl)

lemma evtchn_close'_evolves:
  assumes inv: "sys_inv s" and d: "s d = Some D" and o: "interference f"
  shows "\<exists>rc s'. evtchn_close' env f s d p = Done (rc, s') \<and> evolves s s'"
  using inv d
proof (cases rule: evtchn_close_pass_cases [where env = env and p = p and ?d2.0 = None])
  case Invalid
  then show ?thesis using inv evolves_refl by (simp add: evtchn_close'_def)
next
  case (Closed s')
  then show ?thesis by (simp add: evtchn_close'_def)
next
  case (Restart r rp)
  have e: "evolves s (f s)" using o inv by (simp add: interference_def)
  obtain D' where D': "f s d = Some D'" using evolves_dom [OF e d] by blast
  show ?thesis
    using evolves_inv [OF e] D'
  proof (cases rule: evtchn_close_pass_cases [where env = env and p = p and ?d2.0 = "Some r"])
    case (Closed s')
    then show ?thesis using Restart(1) evolves_trans [OF e] by (simp add: evtchn_close'_def)
  qed (use Restart(1) e in \<open>simp_all add: evtchn_close'_def\<close>)
qed

section \<open>Operations that keep the table\<close>

lemma evolves_same_chans:
  assumes "sys_inv s" and "s d = Some D" and "same_chans D D'"
  shows "evolves s (s(d \<mapsto> D'))"
  using evolves_none [OF assms(1,2) dom_inv_same [OF assms(3) sys_inv_dom [OF assms(1,2)]]
      same_chans_dchans [OF assms(3)] dom_evolves_same [OF assms(3)]] .

lemma same_chans_upd_vcpu:
  assumes "\<And>v. virq_to_evtchn (f v) = virq_to_evtchn v"
  shows "same_chans d (upd_vcpu d vid f)"
  using assms by (auto simp: same_chans_def option.map_comp comp_def intro: option.map_cong)

lemma evtchn_send_evolves:
  assumes inv: "sys_inv s" and d: "s d = Some D" and op: "evtchn_send env s d p = Done (rc, s')"
  shows "evolves s s'"
proof (cases "port_is_valid D p \<and> \<not> consumer_is_xen (evtchn_from_port D p) \<and> xsm_evtchn_send (xsm_ops env) d p = 0")
  case False
  then have "s' = s" using op d by (auto simp: evtchn_send_def Let_def split: if_splits)
  with evolves_refl [OF inv] show ?thesis by simp
next
  case True
  show ?thesis
  proof (cases "state (evtchn_from_port D p)")
    case (ECS_INTERDOMAIN rd rp)
    with inv d True obtain R where R: "s rd = Some R" "port_is_valid R rp"
      using linked [OF inv d, of p rd rp] by metis
    show ?thesis
    proof (cases "consumer_is_xen (evtchn_from_port R rp)")
      case x: True
      let ?v = "notify_vcpu_id (evtchn_from_port R rp)"
      have "s' = s(rd \<mapsto> upd_vcpu R ?v (\<lambda>v. if VPF_blocked_in_xen v
          then vcpu_wake env R (v\<lparr>VPF_blocked_in_xen := False\<rparr>) else v))"
        using op d True ECS_INTERDOMAIN R x
        by (auto simp: evtchn_send_def Let_def outcome_simps upd_dom_def)
      with evolves_same_chans [OF inv R(1) same_chans_upd_vcpu] show ?thesis
        by (simp add: vcpu_frame)
    next
      case x: False
      then obtain r where "set_pending_in env s rd (notify_vcpu_id (evtchn_from_port R rp)) rp = Done (r, s')"
        using op d True ECS_INTERDOMAIN R
        by (auto simp: evtchn_send_def Let_def outcome_simps)
      from evolves_set_pending [OF inv _ this] R(1) show ?thesis by simp
    qed
  next
    case ECS_IPI
    then obtain r where "set_pending_in env s d (notify_vcpu_id (evtchn_from_port D p)) p = Done (r, s')"
      using op d True by (auto simp: evtchn_send_def Let_def outcome_simps)
    from evolves_set_pending [OF inv _ this] d show ?thesis by simp
  qed (use op d True evolves_refl [OF inv] in \<open>auto simp: evtchn_send_def Let_def\<close>)
qed

lemma evtchn_bind_vcpu_evolves:
  assumes inv: "sys_inv s" and cur: "s (current_dom env) \<noteq> None"
    and op: "evtchn_bind_vcpu env s p v = Done (rc, s')"
  shows "evolves s s'"
proof -
  let ?d = "current_dom env"
  obtain D where D: "s ?d = Some D" using cur by blast
  note i = sys_inv_dom [OF inv D]
  let ?D = "upd_evtchn D p (\<lambda>c. c\<lparr>notify_vcpu_id := v\<rparr>)"
  consider "s' = s" | "s' = s(?d \<mapsto> ?D)" "port_is_valid D p" "vcpu D v \<noteq> None"
    "case state (evtchn_from_port D p) of ECS_VIRQ q \<Rightarrow> virq_class q | ECS_UNBOUND _ \<Rightarrow> True
      | ECS_INTERDOMAIN _ _ \<Rightarrow> True | ECS_PIRQ _ \<Rightarrow> True | _ \<Rightarrow> False"
    using op D
    by (auto simp: evtchn_bind_vcpu_def virq_is_global_def Let_def upd_dom_def outcome_simps
        split: if_splits evtchn_state.splits)
  then show ?thesis
  proof cases
    case 1
    with evolves_refl [OF inv] show ?thesis by simp
  next
    case 2
    have dc: "dchans ?D = dchans D" using 2(2) by (auto simp: dchans_upd_evtchn dchans_def fun_eq_iff)
    have "dom_evolves D ?D" using 2(2) dc by (simp add: dom_evolves_def)
    with evolves_none [OF inv D dom_inv_notify [OF i 2(2-4)] dc] 2(1) show ?thesis by simp
  qed
qed

lemma evtchn_unmask_evolves:
  assumes inv: "sys_inv s" and cur: "s (current_dom env) \<noteq> None"
    and op: "evtchn_unmask env s p = Done (rc, s')"
  shows "evolves s s'"
proof -
  let ?d = "current_dom env"
  obtain D where D: "s ?d = Some D" using cur by blast
  let ?D = "D\<lparr>evtchn_mask := (evtchn_mask D)(p := False)\<rparr>"
  consider "s' = s" | "s' = s(?d \<mapsto> ?D)" | vid where "s' = s(?d \<mapsto> set_pending_sel env ?d ?D vid p)"
    using op D by (auto simp: evtchn_unmask_def Let_def outcome_simps split: if_splits)
  then show ?thesis
  proof cases
    case 3
    with evolves_same_chans [OF inv D same_chans_trans [OF same_chans_fields(2) set_pending_sel_same]]
    show ?thesis by simp
  qed (use evolves_refl [OF inv] evolves_same_chans [OF inv D same_chans_fields(2)] in simp_all)
qed

section \<open>No operation stops the machine\<close>

text \<open>Every domain has its first virtual CPU, the one that channels notify by default.\<close>

definition vcpus_up :: "system \<Rightarrow> bool" where
  "vcpus_up s \<longleftrightarrow> (\<forall>d D. s d = Some D \<longrightarrow> vcpu D 0 \<noteq> None)"

lemma notify_vcpu:
  assumes "dom_inv D" and "port_is_valid D p" and "vcpu D 0 \<noteq> None"
  shows "vcpu D (notify_vcpu_id (evtchn_from_port D p)) \<noteq> None"
  using chan_inv [OF assms(1,2)] assms(3) by (auto simp: chan_ok_def)

lemma set_pending_in_Done:
  assumes "s d = Some D" and "vcpu D v \<noteq> None"
  shows "\<exists>r s'. set_pending_in env s d v p = Done (r, s')"
  using assms by (auto simp: set_pending_in_def evtchn_set_pending_def Let_def)

lemma evtchn_send_Done:
  assumes inv: "sys_inv s" and up: "vcpus_up s" and d: "s d = Some D"
  shows "\<exists>rc s'. evtchn_send env s d p = Done (rc, s')"
proof (cases "port_is_valid D p \<and> \<not> consumer_is_xen (evtchn_from_port D p) \<and> xsm_evtchn_send (xsm_ops env) d p = 0")
  case False
  then show ?thesis using d by (auto simp: evtchn_send_def Let_def)
next
  case True
  show ?thesis
  proof (cases "state (evtchn_from_port D p)")
    case (ECS_INTERDOMAIN rd rp)
    with inv d True obtain R where R: "s rd = Some R" "port_is_valid R rp"
      using linked [OF inv d, of p rd rp] by metis
    have v: "vcpu R (notify_vcpu_id (evtchn_from_port R rp)) \<noteq> None"
      using R up by (intro notify_vcpu [OF sys_inv_dom [OF inv R(1)]]) (auto simp: vcpus_up_def)
    from set_pending_in_Done [where s = s, OF R(1) v, of env rp] R v show ?thesis
      using d True ECS_INTERDOMAIN port_is_valid_bucket [OF R(2)]
      by (auto simp: evtchn_send_def Let_def)
  next
    case ECS_IPI
    have v: "vcpu D (notify_vcpu_id (evtchn_from_port D p)) \<noteq> None"
      using d True up by (intro notify_vcpu [OF sys_inv_dom [OF inv d]]) (auto simp: vcpus_up_def)
    from set_pending_in_Done [where s = s, OF d v, of env p] show ?thesis
      using d True ECS_IPI by (auto simp: evtchn_send_def Let_def)
  qed (use d True in \<open>simp_all add: evtchn_send_def Let_def\<close>)
qed

lemma evtchn_bind_virq_Done: "\<exists>rc s' b'. evtchn_bind_virq env s b = Done (rc, s', b')"
  by (auto simp: evtchn_bind_virq_def virq_is_global_def Let_def split: option.splits prod.splits)

lemma evtchn_bind_vcpu_Done:
  assumes inv: "sys_inv s" and cur: "s (current_dom env) \<noteq> None"
  shows "\<exists>rc s'. evtchn_bind_vcpu env s p v = Done (rc, s')"
proof -
  obtain D where D: "s (current_dom env) = Some D" using cur by blast
  have "0 \<le> q \<and> q < NR_VIRQS" if "port_is_valid D p" "state (evtchn_from_port D p) = ECS_VIRQ q" for q
    using chan_inv [OF sys_inv_dom [OF inv D] that(1)] that(2) by (simp add: chan_ok_def)
  then show ?thesis
    using D by (auto simp: evtchn_bind_vcpu_def virq_is_global_def Let_def split: evtchn_state.split)
qed

lemma evtchn_unmask_Done:
  assumes inv: "sys_inv s" and up: "vcpus_up s" and cur: "s (current_dom env) \<noteq> None"
  shows "\<exists>rc s'. evtchn_unmask env s p = Done (rc, s')"
proof -
  obtain D where D: "s (current_dom env) = Some D" using cur by blast
  have "vcpu D (notify_vcpu_id (evtchn_from_port D p)) \<noteq> None" if "port_is_valid D p"
    using D up that by (intro notify_vcpu [OF sys_inv_dom [OF inv D]]) (auto simp: vcpus_up_def)
  then show ?thesis using D by (auto simp: evtchn_unmask_def Let_def)
qed

lemma evtchn_bind_interdomain_Done:
  assumes inv: "sys_inv s" and up: "vcpus_up s" and l: "labels_ok env" and cur: "s (current_dom env) \<noteq> None"
  shows "\<exists>rc s' b'. evtchn_bind_interdomain env s b = Done (rc, s', b')"
proof -
  let ?ld = "current_dom env" and ?rp = "bi_remote_port b"
  let ?rd = "if bi_remote_dom b = DOMID_SELF then ?ld else bi_remote_dom b"
  obtain L where L: "s ?ld = Some L" using cur by blast
  obtain p L' where g: "get_free_port env L = (p, L')" by fastforce
  note f = get_free_port_evolves [OF inv L g l]
  define s3 where "s3 = upd_dom (upd_dom (s(?ld \<mapsto> L')) ?ld
      (\<lambda>d. upd_evtchn d p (\<lambda>c. c\<lparr>state := ECS_INTERDOMAIN ?rd (to_u16 ?rp)\<rparr>)))
      ?rd (\<lambda>d. upd_evtchn d ?rp (\<lambda>c. c\<lparr>state := ECS_INTERDOMAIN ?ld (to_u16 p)\<rparr>))"
  have v: "\<exists>D. s3 ?ld = Some D \<and> vcpu D 0 \<noteq> None"
    using up L grown_fields(2) [OF f(4)] by (auto simp: s3_def vcpus_up_def)
  have n: "notify_vcpu_id (evtchn_from_port (the (s3 ?ld)) p) = 0" 
    if "\<not> p < 0" "port_is_valid (the ((s(?ld \<mapsto> L')) ?rd)) ?rp"
  proof -
    have "port_is_valid L' p" "evtchn_from_port L' p = zero_evtchn" using f(6) that(1) by auto
    then show ?thesis using that(2) by (auto simp: s3_def zero_evtchn_def)
  qed
  obtain r s' where r: "set_pending_in env s3 ?ld 0 p = Done (r, s')"
    using v set_pending_in_Done [of s3 ?ld _ 0 env p] by blast
  show ?thesis
  proof (cases "s ?rd")
    case None
    then show ?thesis by (simp add: evtchn_bind_interdomain_def rcu_lock_domain_by_id_def Let_def)
  next
    case (Some R0)
    then obtain R where R: "(s(?ld \<mapsto> L')) ?rd = Some R" by (cases "?rd = ?ld") auto
    show ?thesis
    proof (cases "\<not> p < 0 \<and> port_is_valid R ?rp \<and> state (evtchn_from_port R ?rp) = ECS_UNBOUND ?ld \<and>
        xsm_evtchn_interdomain (xsm_ops env) ?ld p ?rd ?rp = 0")
      case True
      with R have "notify_vcpu_id (evtchn_from_port (the (s3 ?ld)) p) = 0" by (intro n) simp_all
      then have "evtchn_bind_interdomain env s b =
          bind_outcome (set_pending_in env s3 ?ld 0 p) (\<lambda>(_, s4). Done (0, s4, b\<lparr>bi_local_port := p\<rparr>))"
        using L g Some R True
        by (simp add: evtchn_bind_interdomain_def rcu_lock_domain_by_id_def Let_def s3_def)
      then show ?thesis using r by simp
    next
      case False
      then show ?thesis
        using L g Some R
        by (auto simp: evtchn_bind_interdomain_def rcu_lock_domain_by_id_def Let_def)
    qed
  qed
qed

section \<open>Closing every channel\<close>

lemma reset_from_evolves:
  assumes "sys_inv s" and "s d = Some D" and o: "\<forall>p. interference (other p)" "\<forall>p. interference (between p)"
  shows "\<exists>s'. reset_from env other between s d i = Done s' \<and> evolves s s'"
  using assms
proof (induction env other between s d i arbitrary: D rule: reset_from.induct)
  case (1 env other between s d i)
  note inv = "1.prems"(1) and d = "1.prems"(2) and o = "1.prems"(3,4)
  show ?case
  proof (cases "port_is_valid D i")
    case True
    obtain rc s1 where c: "evtchn_close' env (other i) s d i = Done (rc, s1)" "evolves s s1"
      using evtchn_close'_evolves [OF inv d spec [OF o(1)]] by blast
    have e: "evolves s (between i s1)"
      using c(2) o(2) evolves_inv [OF c(2)] evolves_trans by (auto simp: interference_def)
    obtain D' where "between i s1 d = Some D'" using evolves_dom [OF e d] by blast
    with "1.IH" [OF _ c(1) refl evolves_inv [OF e] this o] True d
    obtain s' where "reset_from env other between (between i s1) d (i + 1) = Done s'"
      "evolves (between i s1) s'"
      by auto
    then show ?thesis
      using True d c(1) evolves_trans [OF e] by (simp add: reset_from.simps [of env other between s])
  next
    case False
    then show ?thesis
      using d evolves_refl [OF inv] by (simp add: reset_from.simps [of env other between s])
  qed
qed

lemma rcu_lock_target_Some:
  assumes "rcu_lock_target_domain_by_id env s dm = Inr d" and "s (current_dom env) \<noteq> None"
  shows "s d \<noteq> None"
  using assms by (auto simp: rcu_lock_target_domain_by_id_def rcu_lock_domain_by_id_def split: if_splits)

lemma evtchn_reset_evolves:
  assumes inv: "sys_inv s" and cur: "s (current_dom env) \<noteq> None"
    and o: "\<forall>p. interference (other p)" "\<forall>p. interference (between p)"
  shows "\<exists>rc s'. evtchn_reset env other between s dm = Done (rc, s') \<and> evolves s s'"
proof (cases "rcu_lock_target_domain_by_id env s dm")
  case (Inl e)
  then show ?thesis using evolves_refl [OF inv] by (simp add: evtchn_reset_def)
next
  case (Inr d)
  then obtain D where "s d = Some D" using rcu_lock_target_Some [OF Inr cur] by blast
  from reset_from_evolves [OF inv this o, where env = env and i = 0] Inr evolves_refl [OF inv] show ?thesis
    by (auto simp: evtchn_reset_def Let_def)
qed

section \<open>The hypercall\<close>

lemma do_event_channel_op_evolves:
  assumes inv: "sys_inv s" and up: "vcpus_up s" and l: "labels_ok env" and cur: "s (current_dom env) \<noteq> None"
    and o: "\<forall>p. interference (other p)" "\<forall>p. interference (between p)"
  shows "\<exists>r s'. do_event_channel_op env other between s arg = Done (r, s') \<and> evolves s s'"
proof (cases "case arg of EVTCHNOP_other _ \<Rightarrow> False | _ \<Rightarrow> \<not> copy_from_guest_ok env")
  case True
  then show ?thesis using evolves_refl [OF inv] by (simp add: do_event_channel_op_def)
next
  case False
  obtain C where C: "s (current_dom env) = Some C" using cur by blast
  show ?thesis
  proof (cases arg)
    case (EVTCHNOP_alloc_unbound a)
    obtain rc s' a' where "evtchn_alloc_unbound env s a = (rc, s', a')" by (metis prod_cases3)
    with evtchn_alloc_unbound_evolves [OF inv l cur this] False show ?thesis
      by (simp add: do_event_channel_op_def EVTCHNOP_alloc_unbound)
  next
    case (EVTCHNOP_bind_interdomain b)
    obtain rc s' b' where "evtchn_bind_interdomain env s b = Done (rc, s', b')"
      using evtchn_bind_interdomain_Done [OF inv up l cur] by blast
    with evtchn_bind_interdomain_evolves [OF inv l cur this] False show ?thesis
      by (simp add: do_event_channel_op_def EVTCHNOP_bind_interdomain)
  next
    case (EVTCHNOP_bind_virq b)
    obtain rc s' b' where "evtchn_bind_virq env s b = Done (rc, s', b')"
      using evtchn_bind_virq_Done by blast
    with evtchn_bind_virq_evolves [OF inv l cur this] False show ?thesis
      by (simp add: do_event_channel_op_def EVTCHNOP_bind_virq)
  next
    case (EVTCHNOP_bind_ipi b)
    obtain rc s' b' where "evtchn_bind_ipi env s b = (rc, s', b')" by (metis prod_cases3)
    with evtchn_bind_ipi_evolves [OF inv l cur this] False show ?thesis
      by (simp add: do_event_channel_op_def EVTCHNOP_bind_ipi)
  next
    case (EVTCHNOP_bind_pirq b)
    obtain rc s' b' where "evtchn_bind_pirq env s b = (rc, s', b')" by (metis prod_cases3)
    with evtchn_bind_pirq_evolves [OF inv l cur this] False show ?thesis
      by (simp add: do_event_channel_op_def EVTCHNOP_bind_pirq)
  next
    case (EVTCHNOP_close p)
    from evtchn_close'_evolves [OF inv C spec [OF o(1)], of env p p] False show ?thesis
      by (auto simp: do_event_channel_op_def EVTCHNOP_close evtchn_close_def)
  next
    case (EVTCHNOP_send p)
    obtain rc s' where "evtchn_send env s (current_dom env) p = Done (rc, s')"
      using evtchn_send_Done [OF inv up C] by blast
    with evtchn_send_evolves [OF inv C this] False show ?thesis
      by (simp add: do_event_channel_op_def EVTCHNOP_send)
  next
    case (EVTCHNOP_status st)
    then show ?thesis using False evolves_refl [OF inv]
      by (simp add: do_event_channel_op_def split: prod.split)
  next
    case (EVTCHNOP_bind_vcpu p v)
    obtain rc s' where "evtchn_bind_vcpu env s p v = Done (rc, s')"
      using evtchn_bind_vcpu_Done [OF inv cur] by blast
    with evtchn_bind_vcpu_evolves [OF inv cur this] False show ?thesis
      by (simp add: do_event_channel_op_def EVTCHNOP_bind_vcpu)
  next
    case (EVTCHNOP_unmask p)
    obtain rc s' where "evtchn_unmask env s p = Done (rc, s')"
      using evtchn_unmask_Done [OF inv up cur] by blast
    with evtchn_unmask_evolves [OF inv cur this] False show ?thesis
      by (simp add: do_event_channel_op_def EVTCHNOP_unmask)
  next
    case (EVTCHNOP_reset dm)
    from evtchn_reset_evolves [OF inv cur o, where dm = dm] False show ?thesis
      by (auto simp: do_event_channel_op_def EVTCHNOP_reset)
  next
    case (EVTCHNOP_other c)
    then show ?thesis using evolves_refl [OF inv] by (simp add: do_event_channel_op_def)
  qed
qed

end
