(* ===== verification/Event_Channel_Life.thy ===== *)
theory Event_Channel_Life
  imports Event_Channel_Ops
begin

text \<open>
  The channels that end in the hypervisor, the interrupts it delivers, and the creation and
  destruction of a domain's channels; then the systems that can be reached by all of these, every one of
  which is in order.
\<close>

section \<open>Channels that end in the hypervisor\<close>

lemma upd_evtchn_id:
  assumes "f (evtchn_from_port d p) = evtchn_from_port d p"
  shows "upd_evtchn d p f = d"
proof -
  have "(evtchn d)(p div EVTCHNS_PER_BUCKET :=
     map_option (\<lambda>b. b(p AND (EVTCHNS_PER_BUCKET - 1) := f (evtchn_from_port d p))) (bucket_from_port d p)) = evtchn d"
    using assms
    by (cases "bucket_from_port d p") (auto simp: fun_eq_iff evtchn_from_port_def bucket_from_port_def)
  then show ?thesis by (simp add: upd_evtchn_def)
qed

lemma evolves_consumer:
  assumes inv: "sys_inv s" and d: "s d = Some D" and p: "port_is_valid D p"
  defines "D' \<equiv> upd_evtchn D p (\<lambda>c. c\<lparr>consumer_is_xen := False\<rparr>)"
  shows "evolves s (s(d \<mapsto> D'))"
proof (cases "consumer_is_xen (evtchn_from_port D p)")
  case True
  have dc: "dchans D' = dchans D" unfolding D'_def using p by (auto simp: dchans_upd_evtchn dchans_def fun_eq_iff)
  have ok: "chan_ok D p (evtchn_from_port D p)" using inv d p sys_inv_dom chan_inv by blast
  have "dom_inv D'"
    unfolding D'_def using ok True
    by (intro dom_inv_upd [OF sys_inv_dom [OF inv d] p])
      (auto simp: chan_ok_def split: evtchn_state.splits)
  moreover have "dom_evolves D D'"
    unfolding D'_def using dc [unfolded D'_def] p by (intro dom_evolves_upd) simp_all
  ultimately show ?thesis using evolves_none [OF inv d _ dc] by blast
next
  case False
  then have "D' = D" unfolding D'_def by (intro upd_evtchn_id) simp
  then have "s(d \<mapsto> D') = s" using d by auto
  with evolves_refl [OF inv] show ?thesis by simp
qed

lemma alloc_unbound_xen_evolves:
  assumes inv: "sys_inv s" and l: "labels_ok env" and d: "s d = Some D" and v: "vcpu D vid \<noteq> None"
    and op: "alloc_unbound_xen_event_channel env s d vid r = (port, s')"
  shows "evolves s s'"
proof -
  obtain p D' where g: "get_free_port env D = (p, D')" by fastforce
  note f = get_free_port_evolves [OF inv d g l]
  let ?s1 = "s(d \<mapsto> D')"
  let ?D = "upd_evtchn D' p (\<lambda>c. c\<lparr>state := ECS_UNBOUND r, consumer_is_xen := True, notify_vcpu_id := vid\<rparr>)"
  show ?thesis
  proof (cases "p < 0")
    case True
    with op d g f(1) show ?thesis by (simp add: alloc_unbound_xen_event_channel_def Let_def)
  next
    case False
    have p: "port_is_valid D' p" "0 < p" "evtchn_from_port D' p = zero_evtchn"
      "is_dying D' = DOMDYING_alive" "chans s (d, p) = None"
      using f(6) False by auto
    have s': "s' = ?s1(d \<mapsto> ?D)"
      using op d g False by (auto simp: alloc_unbound_xen_event_channel_def Let_def upd_dom_def)
    have "evolves ?s1 (?s1(d \<mapsto> ?D))"
    proof (rule evolves_allocate [OF f(2)])
      show "dom_inv ?D" using f(3) p v grown_fields(2) [OF f(4)]
        by (intro dom_inv_upd) (simp_all add: zero_evtchn_def chan_ok_def)
      show "dchans ?D = (dchans D')(p \<mapsto> ECS_UNBOUND r)" using p by (simp add: dchans_upd_evtchn)
    qed (use p f(5) in simp_all)
    from evolves_trans [OF f(1) this] show ?thesis by (simp only: s')
  qed
qed

lemma free_xen_evolves:
  assumes inv: "sys_inv s" and d: "s d = Some D"
    and o: "\<forall>p. interference (other p)" "\<forall>p. interference (between p)"
    and op: "free_xen_event_channel env other between s d p = Done s'"
  shows "evolves s s'"
proof (cases "is_dying D = DOMDYING_alive")
  case True
  define s1 where "s1 = s(d \<mapsto> upd_evtchn D p (\<lambda>c. c\<lparr>consumer_is_xen := False\<rparr>))"
  have v: "port_is_valid D p"
    and c: "\<exists>rc. evtchn_close' env (other p) (between p s1) d p = Done (rc, s')"
    using op d True by (auto simp: free_xen_event_channel_def Let_def outcome_simps upd_dom_def s1_def)
  have e1: "evolves s s1" unfolding s1_def using evolves_consumer [OF inv d v] .
  have "evolves s1 (between p s1)" using o(2) evolves_inv [OF e1] by (simp add: interference_def)
  with e1 have e2: "evolves s (between p s1)" by (rule evolves_trans)
  obtain D2 where "between p s1 d = Some D2" using evolves_dom [OF e2 d] by blast
  from evtchn_close'_evolves [OF evolves_inv [OF e2] this spec [OF o(1)], of env p p] c
  have "evolves (between p s1) s'" by auto
  with e2 show ?thesis by (rule evolves_trans)
next
  case False
  with op d evolves_refl [OF inv] show ?thesis by (simp add: free_xen_event_channel_def)
qed

section \<open>Deliveries by the hypervisor\<close>

lemma send_guest_vcpu_virq_evolves:
  assumes inv: "sys_inv s" and d: "s d = Some D" and op: "send_guest_vcpu_virq env s d vid q = Done s'"
  shows "evolves s s'"
proof -
  have "s' = s \<or> (\<exists>r p. set_pending_in env s d vid p = Done (r, s'))"
    using op by (auto simp: send_guest_vcpu_virq_def outcome_simps Let_def split: option.splits if_splits)
  with evolves_refl [OF inv] evolves_set_pending [OF inv, of d env vid] d show ?thesis by blast
qed

lemma send_guest_global_virq_evolves:
  assumes inv: "sys_inv s" and d: "s d = Some D" and op: "send_guest_global_virq env s (Some d) q = Done s'"
  shows "evolves s s'"
proof -
  have "s' = s \<or> (\<exists>r v p. set_pending_in env s d v p = Done (r, s'))"
    using op by (auto simp: send_guest_global_virq_def outcome_simps Let_def split: option.splits if_splits)
  with evolves_refl [OF inv] evolves_set_pending [OF inv, of d env] d show ?thesis by blast
qed

lemma send_guest_pirq_evolves:
  assumes inv: "sys_inv s" and d: "s d = Some D" and op: "send_guest_pirq env s d q = Done (r, s')"
  shows "evolves s s'"
proof -
  have "\<exists>v p. set_pending_in env s d v p = Done (r, s')"
    using op by (auto simp: send_guest_pirq_def outcome_simps Let_def)
  with evolves_set_pending [OF inv, of d env] d show ?thesis by blast
qed

lemma notify_via_xen_evolves:
  assumes inv: "sys_inv s" and cur: "s (current_dom env) = Some C"
    and op: "notify_via_xen_event_channel env s p = Done s'"
  shows "evolves s s'"
proof -
  have "s' = s \<or> (\<exists>rd r v p. s rd \<noteq> None \<and> set_pending_in env s rd v p = Done (r, s'))"
    using op
    by (auto simp: notify_via_xen_event_channel_def outcome_simps Let_def split: evtchn_state.splits)
  with evolves_refl [OF inv] evolves_set_pending [OF inv, where env = env] show ?thesis by blast
qed

section \<open>Creating and destroying\<close>

text \<open>A domain as it is before its event channels are set up.\<close>

definition fresh_domain :: "domain \<Rightarrow> bool" where
  "fresh_domain D \<longleftrightarrow> is_dying D = DOMDYING_alive \<and> \<not> refcnt_destroyed D \<and>
     (\<forall>b. evtchn D b = None \<and> \<not> evtchn_freed D b) \<and> (\<forall>q. pirq_to_evtchn D q = 0) \<and>
     (\<forall>v x q. vcpu D v = Some x \<longrightarrow> virq_to_evtchn x q = 0)"

lemma evtchn_init_spec:
  assumes f: "fresh_domain D" and l: "labels_ok env" and op: "evtchn_init env D = (0, D')"
  shows "dom_inv D'" and "dchans D' = [0 \<mapsto> ECS_RESERVED]"
proof -
  have nv: "\<not> port_is_valid D p" for p
    using f by (simp add: fresh_domain_def port_is_valid_def bucket_from_port_def)
  obtain p D1 where g: "get_free_port env D = (p, D1)" by fastforce
  have "p = 0" and D': "D' = upd_evtchn D1 0 (\<lambda>c. c\<lparr>state := ECS_RESERVED\<rparr>)"
    using op g by (auto simp: evtchn_init_def split: if_splits)
  have gr: "grown D D1" and v: "port_is_valid D1 0"
    using get_free_port_cases [OF g l] \<open>p = 0\<close> f by (auto simp: fresh_domain_def)
  note gf = grown_fields [OF gr]
  have z: "evtchn_from_port D1 q = zero_evtchn" if "port_is_valid D1 q" for q
    using gr nv that by (simp add: grown_def)
  show "dchans D' = [0 \<mapsto> ECS_RESERVED]"
    using v z by (auto simp: D' dchans_def fun_eq_iff zero_evtchn_def)
  have "ports_prefix D1" using gr nv by (simp add: grown_def ports_prefix_def)
  moreover have "\<forall>b. \<not> evtchn_freed D1 b" using gr f by (auto simp: grown_def fresh_domain_def)
  ultimately show "dom_inv D'"
    using v z f gf
    by (auto simp: D' dom_inv_def pirqs_ok_def virqs_ok_def life_ok_def ports_prefix_def
        chan_ok_def zero_evtchn_def fresh_domain_def)
qed

lemma evolves_create:
  assumes inv: "sys_inv s" and n: "s d = None" and i: "dom_inv D" and c: "dchans D = [0 \<mapsto> ECS_RESERVED]"
  shows "evolves s (s(d \<mapsto> D))"
proof (rule evolvesI [OF inv])
  have "chans (s(d \<mapsto> D)) = (chans s)((d, 0) \<mapsto> ECS_RESERVED)"
    using n c by (auto simp: chans_def fun_eq_iff)
  moreover have "chans s (d, 0) = None" using n by (simp add: chans_def)
  ultimately show "chan_step (chans s) (chans (s(d \<mapsto> D)))" using chan_step.Reserve [of "chans s" d] by simp
  show "\<exists>D''. (s(d \<mapsto> D)) d' = Some D'' \<and> dom_evolves D' D''" if "s d' = Some D'" for d' D'
    using that n by auto
  show "dom_inv D'" if "(s(d \<mapsto> D)) d' = Some D'" for d' D'
    using that i sys_inv_dom [OF inv] by (auto split: if_splits)
qed

text \<open>A channel of a dying domain is closed whatever happens in the gap.\<close>

lemma close_dying:
  assumes inv: "sys_inv s" and d: "s d = Some D" and dy: "is_dying D \<noteq> DOMDYING_alive" and p: "p \<noteq> 0"
    and nc: "port_is_valid D p \<longrightarrow> \<not> consumer_is_xen (evtchn_from_port D p)" and o: "interference f"
    and op: "evtchn_close' env f s d p = Done (rc, s')"
  shows "chans s' (d, p) = None"
proof -
  have nores: "chans t (d, p) \<noteq> Some ECS_RESERVED" if "sys_inv t" for t
  proof
    assume "chans t (d, p) = Some ECS_RESERVED"
    then obtain E where "t d = Some E" "port_is_valid E p" "state (evtchn_from_port E p) = ECS_RESERVED"
      using chans_SomeD by blast
    with chan_inv [OF sys_inv_dom [OF that]] p show False by (fastforce simp: chan_ok_def)
  qed
  have nv: "chans t (d, p) = None" if "t d = Some E" "\<not> port_is_valid E p" for t E
    using that by (simp add: chans_def dchans_def)
  show ?thesis
    using inv d
  proof (cases rule: evtchn_close_pass_cases [where env = env and p = p and ?d2.0 = None])
    case Invalid
    then have "s' = s" using op by (simp add: evtchn_close'_def)
    with Invalid(2) nores [OF inv] nv [of s D] d nc show ?thesis by auto
  next
    case (Closed t)
    then show ?thesis using op by (simp add: evtchn_close'_def)
  next
    case (Restart r rp)
    have e: "evolves s (f s)" using o inv by (simp add: interference_def)
    obtain E where E: "f s d = Some E" "dom_evolves D E" using evolves_dom [OF e d] by blast
    have "winding (dchans D p) (dchans E p)" using E(2) dy by (simp add: dom_evolves_def)
    then have w: "winding (Some (ECS_INTERDOMAIN r rp)) (chans (f s) (d, p))"
      using E(1) Restart(4) d by (simp add: chans_def)
    show ?thesis
      using evolves_inv [OF e] E(1)
    proof (cases rule: evtchn_close_pass_cases [where env = env and p = p and ?d2.0 = "Some r"])
      case Invalid
      then have "s' = f s" using op Restart(1) by (simp add: evtchn_close'_def)
      moreover have "port_is_valid E p \<longrightarrow> \<not> consumer_is_xen (evtchn_from_port E p)"
        using E(2) dy nc by (auto simp: dom_evolves_def)
      ultimately show ?thesis
        using Invalid(2) nores [OF evolves_inv [OF e]] nv [of "f s" E] E(1) w by (auto simp: winding_def)
    next
      case (Closed t)
      then show ?thesis using op Restart(1) by (simp add: evtchn_close'_def)
    qed (use Restart in simp)
  qed
qed

lemma destroy_from_closes:
  assumes "sys_inv s" and "s d = Some D" and "is_dying D \<noteq> DOMDYING_alive"
    and "\<forall>p. interference (other p)" and "\<forall>p. interference (cleared p)" and "\<forall>p. interference (between p)"
    and "0 \<le> i" and "\<forall>q. 0 < q \<longrightarrow> q < i \<longrightarrow> dchans D q = None"
  shows "\<exists>s' D'. destroy_from env other cleared between s d i = Done s' \<and> evolves s s' \<and> s' d = Some D' \<and>
    is_dying D' \<noteq> DOMDYING_alive \<and> (\<forall>q. q \<noteq> 0 \<longrightarrow> dchans D' q = None)"
  using assms
proof (induction env other cleared between s d i arbitrary: D rule: destroy_from.induct)
  case (1 env other cleared between s d i)
  note inv = "1.prems"(1) and d = "1.prems"(2) and dy = "1.prems"(3) and o = "1.prems"(4-6)
  show ?case
  proof (cases "port_is_valid D i")
    case True
    let ?D0 = "upd_evtchn D i (\<lambda>c. c\<lparr>consumer_is_xen := False\<rparr>)"
    let ?s0 = "s(d \<mapsto> ?D0)"
    have s0: "upd_dom s d (\<lambda>d. upd_evtchn d i (\<lambda>c. c\<lparr>consumer_is_xen := False\<rparr>)) = ?s0"
      using d by (simp add: upd_dom_def)
    let ?sc = "cleared i ?s0"
    have e0: "evolves s ?s0" using evolves_consumer [OF inv d True] .
    have ec: "evolves ?s0 ?sc" using o(2) evolves_inv [OF e0] by (simp add: interference_def)
    obtain Dc where Dc: "?sc d = Some Dc" "dom_evolves ?D0 Dc" using evolves_dom [OF ec, of d ?D0] by auto
    have dyc: "is_dying Dc \<noteq> DOMDYING_alive" "port_is_valid Dc i \<longrightarrow> \<not> consumer_is_xen (evtchn_from_port Dc i)"
      using Dc(2) dy True by (auto simp: dom_evolves_def)
    obtain rc s1 where c: "evtchn_close' env (other i) ?sc d i = Done (rc, s1)" "evolves ?sc s1"
      using evtchn_close'_evolves [OF evolves_inv [OF ec] Dc(1) spec [OF o(1)], of env i i] by blast
    let ?s2 = "between i s1"
    have e1: "evolves s s1" using evolves_trans [OF e0 evolves_trans [OF ec c(2)]] .
    have e12: "evolves s1 ?s2" using o(3) evolves_inv [OF e1] by (simp add: interference_def)
    have e2: "evolves s ?s2" using e1 e12 by (rule evolves_trans)
    obtain D2 where D2: "?s2 d = Some D2" "dom_evolves D D2" using evolves_dom [OF e2 d] by blast
    obtain D1 where D1: "s1 d = Some D1" "dom_evolves D D1" using evolves_dom [OF e1 d] by blast
    have dy2: "is_dying D2 \<noteq> DOMDYING_alive" "is_dying D1 \<noteq> DOMDYING_alive"
      using D2 D1 dy by (auto simp: dom_evolves_def)
    have "dchans D2 q = None" if q: "0 < q" "q < i + 1" for q
    proof (cases "q = i")
      case True
      have "chans s1 (d, i) = None"
        using close_dying [OF evolves_inv [OF ec] Dc(1) dyc(1) _ dyc(2) spec [OF o(1)] c(1)] q True by simp
      then have "dchans D1 q = None" using D1(1) True by (simp add: chans_def)
      moreover obtain D3 where "?s2 d = Some D3" "dom_evolves D1 D3" using evolves_dom [OF e12 D1(1)] by blast
      ultimately show ?thesis using D2(1) dy2 by (auto simp: dom_evolves_def winding_def)
    next
      case False
      then have "dchans D q = None" using "1.prems"(8) q by simp
      then show ?thesis using D2(2) dy by (auto simp: dom_evolves_def winding_def)
    qed
    with "1.IH" [OF _ c(1) [folded s0] refl evolves_inv [OF e2] D2(1) dy2(1) o] True d "1.prems"(7)
    obtain s' D' where "destroy_from env other cleared between ?s2 d (i + 1) = Done s'" "evolves ?s2 s'" "s' d = Some D'"
      "is_dying D' \<noteq> DOMDYING_alive" "\<forall>q. q \<noteq> 0 \<longrightarrow> dchans D' q = None"
      by auto
    then show ?thesis
      using True d c(1) s0 evolves_trans [OF e2] by (simp add: destroy_from.simps [of env other cleared between s])
  next
    case False
    have "ports_prefix D" using sys_inv_dom [OF inv d] by (simp add: dom_inv_def life_ok_def)
    with False "1.prems"(7) have "\<not> port_is_valid D q" if "i \<le> q" for q
      using that by (auto simp: ports_prefix_def)
    moreover have "\<not> port_is_valid D q" if "q < 0" for q using that by (simp add: port_is_valid_def)
    ultimately have "dchans D q = None" if "q \<noteq> 0" for q
      using "1.prems"(8) that by (cases "i \<le> q"; cases "q < 0") (auto simp: dchans_def)
    then show ?thesis
      using False d dy evolves_refl [OF inv] by (simp add: destroy_from.simps [of env other cleared between s])
  qed
qed

lemma evtchn_destroy_spec:
  assumes inv: "sys_inv s" and d: "s d = Some D" and dy: "is_dying D \<noteq> DOMDYING_alive"
    and o: "\<forall>p. interference (other p)" "\<forall>p. interference (cleared p)" "\<forall>p. interference (between p)"
  shows "\<exists>s' D'. evtchn_destroy env other cleared between s d = Done s' \<and> evolves s s' \<and> s' d = Some D' \<and>
    (\<forall>p. \<not> port_is_valid D' p) \<and> (\<forall>q. pirq_to_evtchn D' q = 0) \<and>
    (\<forall>v x q. vcpu D' v = Some x \<longrightarrow> virq_to_evtchn x q = 0) \<and>
    (\<forall>x p. chans s' x \<noteq> Some (ECS_INTERDOMAIN d p))"
proof -
  obtain s1 D1 where c: "destroy_from env other cleared between s d 0 = Done s1" "evolves s s1" "s1 d = Some D1"
    "is_dying D1 \<noteq> DOMDYING_alive" and none: "\<forall>q. q \<noteq> 0 \<longrightarrow> dchans D1 q = None"
    using destroy_from_closes [OF inv d dy o, of 0 env] by auto
  note inv1 = evolves_inv [OF c(2)]
  note i1 = sys_inv_dom [OF inv1 c(3)]
  define D2 where "D2 = D1\<lparr>evtchn := (\<lambda>i. if 0 \<le> i \<and> i < NR_EVTCHN_BUCKETS then None else evtchn D1 i)\<rparr>"
  let ?s2 = "s1(d \<mapsto> D2)"
  have op: "evtchn_destroy env other cleared between s d = Done ?s2"
    using c d dy by (simp add: evtchn_destroy_def D2_def upd_dom_def)
  have nv: "\<not> port_is_valid D2 p" for p
    by (auto simp: D2_def port_is_valid_def MAX_EVTCHNS_def bucket_from_port_def NR_EVTCHN_BUCKETS_def
        NR_EVENT_CHANNELS_def EVTCHNS_PER_BUCKET_def split: if_splits)
  have pz: "pirq_to_evtchn D1 q = 0" for q
  proof (rule ccontr)
    assume nz: "pirq_to_evtchn D1 q \<noteq> 0"
    then have "dchans D1 (pirq_to_evtchn D1 q) = None" using none by blast
    then show False using pirq_port [OF i1 nz] by (simp add: dchans_def)
  qed
  have vz: "virq_to_evtchn x q = 0" if "vcpu D1 v = Some x" for v x q
  proof (rule ccontr)
    assume nz: "virq_to_evtchn x q \<noteq> 0"
    then have "dchans D1 (virq_to_evtchn x q) = None" using none by blast
    then show False using virq_port [OF i1 that nz] by (simp add: dchans_def)
  qed
  have i2: "dom_inv D2"
    using nv i1 pz vz c(4)
    by (auto simp: dom_inv_def pirqs_ok_def virqs_ok_def life_ok_def ports_prefix_def D2_def)
  have ch: "chans ?s2 = (chans s1)((d, 0) := None)"
    using none c(3) nv by (auto simp: chans_def fun_eq_iff dchans_def)
  have "chans s1 (d, 0) = None \<or> chans s1 (d, 0) = Some ECS_RESERVED"
    using chan_inv [OF i1, of 0] c(3) by (auto simp: chans_def dchans_def chan_ok_def split: evtchn_state.splits)
  then have st: "chan_steps (chans s1) (chans ?s2)"
  proof
    assume "chans s1 (d, 0) = None"
    then have "chans ?s2 = chans s1" unfolding ch by (rule fun_upd_idem)
    then show ?thesis by simp
  qed (use chan_step.Release ch in auto)
  have "peers (chans ?s2)" using peers_steps [OF st] inv1 by (simp add: sys_inv_def)
  then have inv2: "sys_inv ?s2" using i2 sys_inv_dom [OF inv1] by (auto simp: sys_inv_def)
  moreover have "chans ?s2 (d', p') \<noteq> Some (ECS_INTERDOMAIN d p)" for d' p' p
  proof
    assume "chans ?s2 (d', p') = Some (ECS_INTERDOMAIN d p)"
    from peersD [OF \<open>peers (chans ?s2)\<close> this] nv show False by (simp add: chans_def dchans_def)
  qed
  moreover have "dom_evolves D1 D2"
    using c(4) nv by (simp add: dom_evolves_def D2_def [symmetric]) (simp add: D2_def winding_def dchans_def nv [unfolded D2_def])
  then have "evolves s1 ?s2" using inv2 st c(3) by (auto simp: evolves_def)
  then have "evolves s ?s2" using c(2) evolves_trans by blast
  ultimately show ?thesis using op nv pz vz by (auto simp: D2_def)
qed

section \<open>Reachable systems\<close>

lemma do_event_channel_op_Done_evolves:
  assumes inv: "sys_inv s" and l: "labels_ok env" and cur: "s (current_dom env) \<noteq> None"
    and o: "\<forall>p. interference (other p)" "\<forall>p. interference (between p)"
    and op: "do_event_channel_op env other between s arg = Done (r, s')"
  shows "evolves s s'"
proof (cases "case arg of EVTCHNOP_other _ \<Rightarrow> False | _ \<Rightarrow> \<not> copy_from_guest_ok env")
  case True
  then show ?thesis using op evolves_refl [OF inv] by (simp add: do_event_channel_op_def)
next
  case False
  obtain C where C: "s (current_dom env) = Some C" using cur by blast
  show ?thesis
  proof (cases arg)
    case (EVTCHNOP_alloc_unbound a)
    then show ?thesis using op False evtchn_alloc_unbound_evolves [OF inv l cur]
      by (auto simp: do_event_channel_op_def split: prod.splits)
  next
    case (EVTCHNOP_bind_interdomain b)
    then show ?thesis using op False evtchn_bind_interdomain_evolves [OF inv l cur]
      by (auto simp: do_event_channel_op_def outcome_simps)
  next
    case (EVTCHNOP_bind_virq b)
    then show ?thesis using op False evtchn_bind_virq_evolves [OF inv l cur]
      by (auto simp: do_event_channel_op_def outcome_simps)
  next
    case (EVTCHNOP_bind_ipi b)
    then show ?thesis using op False evtchn_bind_ipi_evolves [OF inv l cur]
      by (auto simp: do_event_channel_op_def split: prod.splits)
  next
    case (EVTCHNOP_bind_pirq b)
    then show ?thesis using op False evtchn_bind_pirq_evolves [OF inv l cur]
      by (auto simp: do_event_channel_op_def split: prod.splits)
  next
    case (EVTCHNOP_close p)
    then show ?thesis using op False evtchn_close'_evolves [OF inv C spec [OF o(1)], of env p p]
      by (auto simp: do_event_channel_op_def outcome_simps evtchn_close_def)
  next
    case (EVTCHNOP_send p)
    then show ?thesis using op False evtchn_send_evolves [OF inv C]
      by (auto simp: do_event_channel_op_def outcome_simps)
  next
    case (EVTCHNOP_bind_vcpu p v)
    then show ?thesis using op False evtchn_bind_vcpu_evolves [OF inv cur]
      by (auto simp: do_event_channel_op_def outcome_simps)
  next
    case (EVTCHNOP_unmask p)
    then show ?thesis using op False evtchn_unmask_evolves [OF inv cur]
      by (auto simp: do_event_channel_op_def outcome_simps)
  next
    case (EVTCHNOP_reset dm)
    then show ?thesis using op False evtchn_reset_evolves [OF inv cur o, of dm]
      by (auto simp: do_event_channel_op_def outcome_simps)
  qed (use op False evolves_refl [OF inv] in \<open>auto simp: do_event_channel_op_def split: prod.splits\<close>)
qed

text \<open>
  The life of the system: domains are created with their first port reserved, get virtual CPUs, use the
  hypercall, receive interrupts, are killed, lose their channels and go away. Everything
  that leaves the bindings alone (the guest's writes to its shared page, the scheduler) is \<open>Other\<close>.
\<close>

inductive reachable :: "system \<Rightarrow> bool" where
  Boot: "reachable (\<lambda>_. None)"
| Create: "reachable s \<Longrightarrow> s d = None \<Longrightarrow> fresh_domain D \<Longrightarrow> labels_ok env \<Longrightarrow>
    evtchn_init (env :: evtchn_env) D = (0, D') \<Longrightarrow> reachable (s(d \<mapsto> D'))"
| Add_Vcpu: "reachable s \<Longrightarrow> s d = Some D \<Longrightarrow> vcpu D v = None \<Longrightarrow> \<forall>q. virq_to_evtchn x q = 0 \<Longrightarrow>
    reachable (s(d \<mapsto> D\<lparr>vcpu := (vcpu D)(v \<mapsto> x)\<rparr>))"
| Hypercall: "reachable s \<Longrightarrow> s (current_dom env) \<noteq> None \<Longrightarrow> labels_ok env \<Longrightarrow>
    \<forall>p. interference (other p) \<Longrightarrow> \<forall>p. interference (between p) \<Longrightarrow>
    do_event_channel_op (env :: evtchn_env) other between s arg = Done (r, s') \<Longrightarrow> reachable s'"
| Vcpu_Virq: "reachable s \<Longrightarrow> s d \<noteq> None \<Longrightarrow> send_guest_vcpu_virq (e :: env) s d v q = Done s' \<Longrightarrow> reachable s'"
| Global_Virq: "reachable s \<Longrightarrow> s d \<noteq> None \<Longrightarrow> send_guest_global_virq (e :: env) s (Some d) q = Done s' \<Longrightarrow>
    reachable s'"
| Pirq: "reachable s \<Longrightarrow> s d \<noteq> None \<Longrightarrow> send_guest_pirq (e :: env) s d q = Done (rc, s') \<Longrightarrow> reachable s'"
| Xen_Alloc: "reachable s \<Longrightarrow> s d = Some D \<Longrightarrow> vcpu D v \<noteq> None \<Longrightarrow> labels_ok env \<Longrightarrow>
    alloc_unbound_xen_event_channel (env :: evtchn_env) s d v rdom = (port, s') \<Longrightarrow> reachable s'"
| Xen_Free: "reachable s \<Longrightarrow> s d \<noteq> None \<Longrightarrow> \<forall>p. interference (other p) \<Longrightarrow> \<forall>p. interference (between p) \<Longrightarrow>
    free_xen_event_channel (env :: evtchn_env) other between s d p = Done s' \<Longrightarrow> reachable s'"
| Xen_Notify: "reachable s \<Longrightarrow> s (current_dom env) \<noteq> None \<Longrightarrow>
    notify_via_xen_event_channel (env :: evtchn_env) s p = Done s' \<Longrightarrow> reachable s'"
| Other: "reachable s \<Longrightarrow> s d = Some D \<Longrightarrow> same_chans D D' \<Longrightarrow> reachable (s(d \<mapsto> D'))"
| Kill: "reachable s \<Longrightarrow> s d = Some D \<Longrightarrow> reachable (s(d \<mapsto> D\<lparr>is_dying := DOMDYING_dying\<rparr>))"
| Destroy: "reachable s \<Longrightarrow> s d = Some D \<Longrightarrow> is_dying D \<noteq> DOMDYING_alive \<Longrightarrow>
    \<forall>p. interference (other p) \<Longrightarrow> \<forall>p. interference (cleared p) \<Longrightarrow> \<forall>p. interference (between p) \<Longrightarrow>
    evtchn_destroy (env :: evtchn_env) other cleared between s d = Done s' \<Longrightarrow> reachable s'"
| Gone: "reachable s \<Longrightarrow> s d = Some D \<Longrightarrow> is_dying D \<noteq> DOMDYING_alive \<Longrightarrow> \<forall>p. \<not> port_is_valid D p \<Longrightarrow>
    reachable (s(d := None))"

lemma sys_inv_one:
  assumes "sys_inv s" and "s d = Some D" and "dom_inv D'" and "dchans D' = dchans D"
  shows "sys_inv (s(d \<mapsto> D'))"
  using assms chans_same [where s = s, OF assms(2,4)] by (auto simp: sys_inv_def)

lemma dom_inv_add_vcpu:
  assumes inv: "dom_inv D" and v: "vcpu D v = None" and x: "\<forall>q. virq_to_evtchn x q = 0"
  shows "dom_inv (D\<lparr>vcpu := (vcpu D)(v \<mapsto> x)\<rparr>)" (is "dom_inv ?D")
proof (rule dom_invI)
  fix p
  assume "port_is_valid ?D p"
  then have ok: "chan_ok D p (evtchn_from_port D p)" using chan_inv [OF inv] by simp
  have "vcpu ?D w = Some y" if "vcpu D w = Some y" for w y using that v by auto
  with ok show "chan_ok ?D p (evtchn_from_port ?D p)"
    by (fastforce simp: chan_ok_def split: evtchn_state.splits)
next
  fix q assume "pirq_to_evtchn ?D q \<noteq> 0"
  then show "port_is_valid ?D (pirq_to_evtchn ?D q) \<and>
     state (evtchn_from_port ?D (pirq_to_evtchn ?D q)) = ECS_PIRQ q"
    using pirq_port [OF inv] by simp
next
  fix w y q assume "vcpu ?D w = Some y" and nz: "virq_to_evtchn y q \<noteq> 0"
  then have "vcpu D w = Some y" using x by (auto split: if_splits)
  from virq_port [OF inv this nz] show "port_is_valid ?D (virq_to_evtchn y q) \<and>
     state (evtchn_from_port ?D (virq_to_evtchn y q)) = ECS_VIRQ q \<and>
     w = virq_home q (evtchn_from_port ?D (virq_to_evtchn y q))"
    by simp
next
  have "life_ok ?D = life_ok D" by (rule life_ok_cong) simp_all
  then show "life_ok ?D" using inv by (simp add: dom_inv_def)
qed

lemma dchans_fields' [simp]:
  "dchans (d\<lparr>vcpu := x1\<rparr>) = dchans d" "dchans (d\<lparr>is_dying := x2\<rparr>) = dchans d"
  by (simp_all add: fun_eq_iff dchans_def port_is_valid_def MAX_EVTCHNS_def evtchn_from_port_def bucket_from_port_def)

lemma dom_inv_kill:
  assumes "dom_inv D"
  shows "dom_inv (D\<lparr>is_dying := DOMDYING_dying\<rparr>)" (is "dom_inv ?D")
proof -
  have v: "port_is_valid ?D p = port_is_valid D p" "evtchn_from_port ?D p = evtchn_from_port D p" for p
    by (simp_all add: port_is_valid_def MAX_EVTCHNS_def evtchn_from_port_def bucket_from_port_def)
  have "chan_ok ?D p c = chan_ok D p c" for p c by (rule chan_ok_cong) simp_all
  with assms v show ?thesis
    by (simp add: dom_inv_def pirqs_ok_def virqs_ok_def life_ok_def ports_prefix_def)
qed

lemma sys_inv_gone:
  assumes inv: "sys_inv s" and d: "s d = Some D" and n: "\<forall>p. \<not> port_is_valid D p"
  shows "sys_inv (s(d := None))"
proof -
  have "chans (s(d := None)) = chans s" using d n by (auto simp: chans_def dchans_def fun_eq_iff)
  with inv show ?thesis by (simp add: sys_inv_def)
qed

lemma reachable_inv:
  assumes "reachable s"
  shows "sys_inv s"
  using assms
proof induction
  case Boot
  then show ?case by (simp add: sys_inv_def chans_def peers_def)
next
  case (Create s d D env D')
  from evtchn_init_spec [OF Create(3-5)] show ?case
    using evolves_create [OF Create.IH Create(2)] evolves_inv by blast
next
  case (Add_Vcpu s d D v x)
  then show ?case
    by (intro sys_inv_one [OF Add_Vcpu.IH] dom_inv_add_vcpu sys_inv_dom [OF Add_Vcpu.IH]) simp_all
next
  case (Hypercall s env other between arg r s')
  then show ?case using do_event_channel_op_Done_evolves evolves_inv by blast
next
  case (Vcpu_Virq s d e v q s')
  then show ?case using send_guest_vcpu_virq_evolves evolves_inv by blast
next
  case (Global_Virq s d e q s')
  then show ?case using send_guest_global_virq_evolves evolves_inv by blast
next
  case (Pirq s d e q rc s')
  then show ?case using send_guest_pirq_evolves evolves_inv by blast
next
  case (Xen_Alloc s d D v env rdom port s')
  then show ?case using alloc_unbound_xen_evolves evolves_inv by blast
next
  case (Xen_Free s d other between env p s')
  then show ?case using free_xen_evolves evolves_inv by blast
next
  case (Xen_Notify s env p s')
  then show ?case using notify_via_xen_evolves evolves_inv by blast
next
  case (Other s d D D')
  then show ?case using evolves_same_chans evolves_inv by blast
next
  case (Kill s d D)
  then show ?case by (intro sys_inv_one [OF Kill.IH] dom_inv_kill sys_inv_dom [OF Kill.IH]) simp_all
next
  case (Destroy s d D other cleared between env s')
  then show ?case using evtchn_destroy_spec [OF Destroy.IH Destroy(2-6), of env] evolves_inv by auto
next
  case (Gone s d D)
  then show ?case using sys_inv_gone by blast
qed

end
