(* ===== verification/Event_Channel_Props.thy ===== *)
theory Event_Channel_Props
  imports Event_Channel_Life
begin

text \<open>
  What the event channels guarantee: the hypercall as a refinement of the table of channels, the order of
  reachable systems, the effect of each operation, and two faults of the code.
\<close>

section \<open>A small system\<close>

text \<open>Two domains, the first of them privileged, with two virtual CPUs each, as the hypervisor
  creates them; \<open>run\<close> is the system after a hypercall with no interference.\<close>

definition sample_vcpu :: vcpu where
  "sample_vcpu = \<lparr>processor = 0, runstate = RUNSTATE_blocked, runstate_time = (\<lambda>_. 0), state_entry_time = 0,
     v_is_polling = False, is_running = False, VPF_blocked = True, VPF_down = False,
     VPF_blocked_in_xen = False, VPF_migrating = False, v_pause_count = 0,
     virq_to_evtchn = (\<lambda>_. 0), evtchn_upcall_pending = False, evtchn_pending_sel = (\<lambda>_. False),
     sched_wakes = 0, kick_softirqs = 0, callback_irqs = 0\<rparr>"

definition sample_domain :: "bool \<Rightarrow> domain" where
  "sample_domain priv = \<lparr>iomem_caps = \<lparr>range_list = [], rname = [], rflags = 0\<rparr>,
     irq_caps = \<lparr>range_list = [\<lparr>rs = 0, re = 15\<rparr>], rname = [], rflags = 0\<rparr>,
     is_dying = DOMDYING_alive, is_privileged = priv, target = None, is_hvm = False, is_compat = False,
     d_pause_count = 0, refcnt_destroyed = False,
     vcpu = (\<lambda>v. if v = 0 \<or> v = 1 then Some sample_vcpu else None),
     evtchn = (\<lambda>_. None), evtchn_freed = (\<lambda>_. False), pirq_to_evtchn = (\<lambda>_. 0), d_is_polling = False,
     evtchn_pending = (\<lambda>_. False), evtchn_mask = (\<lambda>_. False)\<rparr>"

definition sample_env :: "domid \<Rightarrow> evtchn_env" where
  "sample_env d = \<lparr>current_dom = d, current_vcpu = 0, in_irq = False, NOW = 0, xmalloc_ok = True,
     domain_lt = (<), xsm_ops = dummy_xsm_ops, pirq_guest_bind_rc = 0,
     copy_from_guest_ok = True, copy_to_guest_ok = True\<rparr>"

definition sample0 :: system where
  "sample0 = [0 \<mapsto> snd (evtchn_init (sample_env 0) (sample_domain True)),
              1 \<mapsto> snd (evtchn_init (sample_env 0) (sample_domain False))]"

definition run :: "domid \<Rightarrow> system \<Rightarrow> evtchnop \<Rightarrow> system" where
  "run d s arg = (case do_event_channel_op (sample_env d) (\<lambda>_ s. s) (\<lambda>_ s. s) s arg of
     Done (_, s') \<Rightarrow> s' | BUG \<Rightarrow> s)"

definition sample1 :: system where
  "sample1 = run 0 sample0 (EVTCHNOP_alloc_unbound \<lparr>au_dom = DOMID_SELF, au_remote_dom = 1, au_port = 0\<rparr>)"

definition sample2 :: system where
  "sample2 = run 1 sample1 (EVTCHNOP_bind_interdomain \<lparr>bi_remote_dom = 0, bi_remote_port = 1, bi_local_port = 0\<rparr>)"

definition sample3 :: system where
  "sample3 = run 1 sample2 (EVTCHNOP_bind_virq \<lparr>bv_virq = 0, bv_vcpu = 1, bv_port = 0\<rparr>)"

lemma labels_ok_sample: "labels_ok (sample_env d)"
  by (simp add: labels_ok_def sample_env_def dummy_xsm_ops_def)

lemma fresh_sample: "fresh_domain (sample_domain priv)"
  by (auto simp: fresh_domain_def sample_domain_def sample_vcpu_def split: if_splits)

lemma init_sample: "evtchn_init (sample_env 0) (sample_domain priv) =
    (0, snd (evtchn_init (sample_env 0) (sample_domain priv)))"
proof -
  have "fst (evtchn_init (sample_env 0) (sample_domain True)) = 0"
    "fst (evtchn_init (sample_env 0) (sample_domain False)) = 0"
    by code_simp+
  then have "fst (evtchn_init (sample_env 0) (sample_domain priv)) = 0" by (cases priv) simp_all
  then show ?thesis by (metis prod.collapse)
qed

lemma reachable_run:
  assumes "reachable s" and "s d \<noteq> None"
  shows "reachable (run d s arg)"
proof (cases "do_event_channel_op (sample_env d) (\<lambda>_ s. s) (\<lambda>_ s. s) s arg")
  case (Done x)
  have "s (current_dom (sample_env d)) \<noteq> None" using assms(2) by (simp add: sample_env_def)
  moreover obtain r s' where x: "x = (r, s')" by (cases x)
  ultimately have "reachable s'"
    using Hypercall [OF assms(1) _ labels_ok_sample _ _ Done [unfolded x]] interference_id by blast
  then show ?thesis using Done x by (simp add: run_def)
next
  case BUG
  then show ?thesis using assms(1) by (simp add: run_def)
qed

lemma reachable_samples: "reachable sample0" "reachable sample1" "reachable sample2" "reachable sample3"
proof -
  show 0: "reachable sample0"
    unfolding sample0_def
    by (rule Create [OF Create [OF Boot _ fresh_sample labels_ok_sample init_sample] _
        fresh_sample labels_ok_sample init_sample]) simp_all
  show 1: "reachable sample1" unfolding sample1_def by (rule reachable_run [OF 0]) (simp add: sample0_def)
  have "sample1 1 \<noteq> None" by code_simp
  then show 2: "reachable sample2" unfolding sample2_def by (rule reachable_run [OF 1])
  have "sample2 1 \<noteq> None" by code_simp
  then show "reachable sample3" unfolding sample3_def by (rule reachable_run [OF 2])
qed

lemma sample_states:
  "state (evtchn_from_port (the (sample2 0)) 1) = ECS_INTERDOMAIN 1 1"
  "state (evtchn_from_port (the (sample2 1)) 1) = ECS_INTERDOMAIN 0 1"
  "state (evtchn_from_port (the (sample3 1)) 2) = ECS_VIRQ 0"
  by code_simp+

section \<open>What a delivery does\<close>

lemma set_pending_sel_effect:
  assumes "vcpu d vid = Some v" and "\<not> evtchn_pending_sel v (port div BITS_PER_GUEST_LONG d)"
  shows "\<exists>v'. vcpu (set_pending_sel env did d vid port) vid = Some v' \<and>
    evtchn_pending_sel v' (port div BITS_PER_GUEST_LONG d) \<and> evtchn_upcall_pending v' \<and>
    (\<not> is_hvm d \<and> \<not> evtchn_upcall_pending v \<longrightarrow> \<not> VPF_blocked v')"
  using assms by (simp add: set_pending_sel_def Let_def vcpu_frame vcpu_mark_events_pending_unblocks)

lemma set_pending_poll_vcpu:
  assumes "vcpu d vid = Some v"
  shows "\<exists>v'. vcpu (set_pending_poll env d) vid = Some v' \<and>
    evtchn_pending_sel v' = evtchn_pending_sel v \<and> evtchn_upcall_pending v' = evtchn_upcall_pending v \<and>
    (\<not> VPF_blocked v \<longrightarrow> \<not> VPF_blocked v')"
  using assms by (simp add: set_pending_poll_def vcpu_frame)

lemma set_pending_poll_bits [simp]:
  "evtchn_pending (set_pending_poll env d) = evtchn_pending d"
  "evtchn_mask (set_pending_poll env d) = evtchn_mask d"
  by (simp_all add: set_pending_poll_def)

lemma set_pending_sel_bits [simp]:
  "evtchn_pending (set_pending_sel env did d vid p) = evtchn_pending d"
  "evtchn_mask (set_pending_sel env did d vid p) = evtchn_mask d"
  by (simp_all add: set_pending_sel_def)

lemma evtchn_set_pending_bits:
  assumes "evtchn_set_pending env did d vid port = Done (r, d')"
  shows "evtchn_pending d' = (evtchn_pending d)(port := True)"
    and "r = (if evtchn_pending d port then 1 else 0)"
  using assms by (auto simp: evtchn_set_pending_def outcome_simps Let_def fun_eq_iff split: if_splits)

text \<open>An unmasked event that was not pending reaches its virtual CPU.\<close>

lemma evtchn_set_pending_upcall:
  assumes op: "evtchn_set_pending env did d vid port = Done (r, d')"
    and new: "\<not> evtchn_pending d port" "\<not> evtchn_mask d port"
    and v: "vcpu d vid = Some v" "\<not> evtchn_pending_sel v (port div BITS_PER_GUEST_LONG d)"
  shows "\<exists>v'. vcpu d' vid = Some v' \<and> evtchn_pending_sel v' (port div BITS_PER_GUEST_LONG d) \<and>
    evtchn_upcall_pending v' \<and> (\<not> is_hvm d \<and> \<not> evtchn_upcall_pending v \<longrightarrow> \<not> VPF_blocked v')"
proof -
  let ?d1 = "d\<lparr>evtchn_pending := (evtchn_pending d)(port := True)\<rparr>"
  have b: "BITS_PER_GUEST_LONG ?d1 = BITS_PER_GUEST_LONG d" by (simp add: BITS_PER_GUEST_LONG_def)
  have d': "d' = set_pending_poll env (set_pending_sel env did ?d1 vid port)"
    using op new by (simp add: evtchn_set_pending_def outcome_simps Let_def)
  from set_pending_sel_effect [of ?d1 vid v port env did] v b
  obtain v1 where v1: "vcpu (set_pending_sel env did ?d1 vid port) vid = Some v1"
    "evtchn_pending_sel v1 (port div BITS_PER_GUEST_LONG d)" "evtchn_upcall_pending v1"
    "\<not> is_hvm d \<and> \<not> evtchn_upcall_pending v \<longrightarrow> \<not> VPF_blocked v1"
    by auto
  from set_pending_poll_vcpu [OF v1(1), of env] v1(2-4) show ?thesis unfolding d' by auto
qed

lemma set_pending_in_at:
  assumes "set_pending_in env s d vid p = Done (r, s')" and "s d = Some D"
  obtains D' where "s' = s(d \<mapsto> D')" "evtchn_set_pending env d D vid p = Done (r, D')"
  using assms by (auto simp: set_pending_in_def outcome_simps)

lemma sample_some:
  "sample2 0 = Some (the (sample2 0))" "sample2 1 = Some (the (sample2 1))"
  "sample3 1 = Some (the (sample3 1))"
proof -
  have "sample2 0 \<noteq> None" "sample2 1 \<noteq> None" "sample3 1 \<noteq> None" by code_simp+
  then show "sample2 0 = Some (the (sample2 0))" "sample2 1 = Some (the (sample2 1))"
    "sample3 1 = Some (the (sample3 1))"
    by auto
qed

section \<open>The hypercall as a refinement\<close>

text \<open>C1: Started in a system in order, where every domain has its first virtual CPU and the security module labels
  new channels, every command of the hypercall returns: no \<open>BUG\<close>, no assertion and no \<open>NULL\<close> pointer is met, whatever
  other CPUs do while no lock is held, as long as they keep the system in order and leave every domain and virtual CPU
  in existence. The system is in order afterwards, every domain that was there still has its first virtual CPU, and
  the table of channels has changed by steps of its specification only.\<close>

theorem evtchn_hypercall_refines:
  assumes "sys_inv s" and "vcpus_up s" and "labels_ok env" and "s (current_dom env) \<noteq> None"
    and "\<forall>p. interference (other p)" and "\<forall>p. interference (between p)"
  shows "\<exists>r s'. do_event_channel_op env other between s arg = Done (r, s') \<and> sys_inv s' \<and>
    chan_steps (chans s) (chans s') \<and> (\<forall>d. s d \<noteq> None \<longrightarrow> (\<exists>D'. s' d = Some D' \<and> vcpu D' 0 \<noteq> None))"
proof -
  obtain r s' where op: "do_event_channel_op env other between s arg = Done (r, s')" and e: "evolves s s'"
    using do_event_channel_op_evolves [OF assms, of arg] by blast
  have "\<exists>D'. s' d = Some D' \<and> vcpu D' 0 \<noteq> None" if d: "s d \<noteq> None" for d
  proof -
    obtain D where D: "s d = Some D" using d by blast
    then have "vcpu D 0 \<noteq> None" using assms(2) unfolding vcpus_up_def by blast
    then show ?thesis using evolves_dom [OF e D] unfolding dom_evolves_def by blast
  qed
  with op e show ?thesis by (auto simp: evolves_def)
qed

lemma vcpus_up_sample0: "vcpus_up sample0"
proof -
  have "vcpu (snd (evtchn_init (sample_env 0) (sample_domain True))) 0 \<noteq> None"
    "vcpu (snd (evtchn_init (sample_env 0) (sample_domain False))) 0 \<noteq> None"
    by code_simp+
  then show ?thesis by (auto simp: vcpus_up_def sample0_def split: if_splits)
qed

theorem evtchn_hypercall_refines_witness:
  "\<exists>r s'. do_event_channel_op (sample_env 0) (\<lambda>_ s. s) (\<lambda>_ s. s) sample0 (EVTCHNOP_reset 1) = Done (r, s') \<and>
    sys_inv s' \<and> chan_steps (chans sample0) (chans s') \<and>
    (\<forall>d. sample0 d \<noteq> None \<longrightarrow> (\<exists>D'. s' d = Some D' \<and> vcpu D' 0 \<noteq> None))"
proof (rule evtchn_hypercall_refines)
  show "sample0 (current_dom (sample_env 0)) \<noteq> None" by (simp add: sample0_def sample_env_def)
qed (simp_all add: reachable_inv reachable_samples vcpus_up_sample0 labels_ok_sample interference_id)

text \<open>C6: In every system the hypervisor can reach, the two ends of a connected channel name each other,
  and the other end exists.\<close>

theorem reachable_connected:
  assumes "reachable s" and "s d = Some D" and "port_is_valid D p"
    and "state (evtchn_from_port D p) = ECS_INTERDOMAIN d2 p2"
  shows "\<exists>D2. s d2 = Some D2 \<and> port_is_valid D2 p2 \<and>
    state (evtchn_from_port D2 p2) = ECS_INTERDOMAIN d p \<and> get_domain D2"
  using linked [OF reachable_inv [OF assms(1)] assms(2-4)] by (metis get_domain_def)

theorem reachable_connected_witness:
  "\<exists>D2. sample2 0 = Some D2 \<and> port_is_valid D2 1 \<and>
    state (evtchn_from_port D2 1) = ECS_INTERDOMAIN 1 1 \<and> get_domain D2"
proof -
  have "sample2 1 = Some (the (sample2 1))" by (rule sample_some)
  moreover have "port_is_valid (the (sample2 1)) 1" by code_simp
  ultimately show ?thesis
    using reachable_connected [OF reachable_samples(3)] sample_states(2) by blast
qed

text \<open>C22: In every system the hypervisor can reach, the tables of a domain that lead from physical and virtual
  interrupts to ports agree with the states of its channels, in both directions.\<close>

theorem reachable_interrupts:
  assumes "reachable s" and "s d = Some D"
  shows "(\<forall>q p. p \<noteq> 0 \<longrightarrow> (pirq_to_evtchn D q = p \<longleftrightarrow>
      port_is_valid D p \<and> state (evtchn_from_port D p) = ECS_PIRQ q)) \<and>
    (\<forall>q p. p \<noteq> 0 \<longrightarrow> ((\<exists>vid v. vcpu D vid = Some v \<and> virq_to_evtchn v q = p) \<longleftrightarrow>
      port_is_valid D p \<and> state (evtchn_from_port D p) = ECS_VIRQ q))"
proof -
  have inv: "dom_inv D" using reachable_inv [OF assms(1)] assms(2) by (rule sys_inv_dom)
  have "pirq_to_evtchn D q = p \<longleftrightarrow> port_is_valid D p \<and> state (evtchn_from_port D p) = ECS_PIRQ q" if "p \<noteq> 0" for q p
    using pirq_port [OF inv, of q] chan_inv [OF inv, of p] that by (auto simp: chan_ok_def)
  moreover have "(\<exists>vid v. vcpu D vid = Some v \<and> virq_to_evtchn v q = p) \<longleftrightarrow>
      port_is_valid D p \<and> state (evtchn_from_port D p) = ECS_VIRQ q" if "p \<noteq> 0" for q p
  proof
    assume "\<exists>vid v. vcpu D vid = Some v \<and> virq_to_evtchn v q = p"
    with virq_port [OF inv] that show "port_is_valid D p \<and> state (evtchn_from_port D p) = ECS_VIRQ q" by blast
  next
    assume "port_is_valid D p \<and> state (evtchn_from_port D p) = ECS_VIRQ q"
    with chan_inv [OF inv, of p]
    have "\<exists>v. vcpu D (virq_home q (evtchn_from_port D p)) = Some v \<and> virq_to_evtchn v q = p"
      by (simp add: chan_ok_def)
    then show "\<exists>vid v. vcpu D vid = Some v \<and> virq_to_evtchn v q = p" by blast
  qed
  ultimately show ?thesis by blast
qed

theorem reachable_interrupts_witness:
  "\<exists>vid v. vcpu (the (sample3 1)) vid = Some v \<and> virq_to_evtchn v 0 = 2"
proof -
  have "sample3 1 = Some (the (sample3 1))" by (rule sample_some)
  moreover have "port_is_valid (the (sample3 1)) 2" by code_simp
  ultimately show ?thesis
    using reachable_interrupts [OF reachable_samples(4), of 1 "the (sample3 1)"] sample_states(3) by auto
qed

text \<open>C11: Closing a port that is not valid, a channel of the hypervisor's own, or a channel that is free or reserved is refused with
  \<open>-EINVAL\<close> and changes nothing. Closing any other channel succeeds: it leaves the table, and if it was
  connected the other end stays as an unbound channel that waits for this domain; nothing else in the table changes,
  beyond what other CPUs did if the lock was given up in between. Only when they changed the channel in
  that gap, or the hypervisor took it, the call is refused.\<close>

theorem evtchn_close_effect:
  assumes "sys_inv s" and "s d = Some D" and "interference f"
  shows "if \<not> port_is_valid D p \<or> consumer_is_xen (evtchn_from_port D p) \<or> chans s (d, p) \<in> {None, Some ECS_RESERVED}
    then evtchn_close' env f s d p = Done (- EINVAL, s)
    else (\<exists>t \<in> {s, f s}. \<exists>s'. evtchn_close' env f s d p = Done (0, s') \<and> sys_inv s' \<and>
        chans s' = (case chans t (d, p) of
            Some (ECS_INTERDOMAIN d2 p2) \<Rightarrow> (chans t)((d2, p2) \<mapsto> ECS_UNBOUND d, (d, p) := None)
          | _ \<Rightarrow> (chans t)((d, p) := None))) \<or>
      evtchn_close' env f s d p = Done (- EINVAL, f s) \<and>
        (chans (f s) (d, p) \<noteq> chans s (d, p) \<or> consumer_is_xen (evtchn_from_port (the (f s d)) p))"
  using assms(1,2)
proof (cases rule: evtchn_close_pass_cases [where env = env and p = p and ?d2.0 = None])
  case Invalid
  then show ?thesis by (auto simp: evtchn_close'_def)
next
  case (Closed s')
  then show ?thesis using evolves_inv by (auto simp: evtchn_close'_def)
next
  case (Restart r rp)
  note first = this
  have e: "evolves s (f s)" using assms(1,3) by (simp add: interference_def)
  obtain E where E: "f s d = Some E" using evolves_dom [OF e assms(2)] by blast
  have again: "evtchn_close' env f s d p = (case evtchn_close_pass env (f s) d p (Some r) of
      Done (Finished rc s1) \<Rightarrow> Done (rc, s1) | _ \<Rightarrow> BUG)"
    using first(1) by (simp add: evtchn_close'_def split: outcome.splits close_result.splits)
  have ok: "port_is_valid D p" "\<not> consumer_is_xen (evtchn_from_port D p)" "chans s (d, p) \<notin> {None, Some ECS_RESERVED}"
    using first assms(2) by (auto simp: evtchn_close_pass_def Let_def split: if_splits)
  show ?thesis
    using evolves_inv [OF e] E
  proof (cases rule: evtchn_close_pass_cases [where env = env and p = p and ?d2.0 = "Some r"])
    case Invalid
    have "chans (f s) (d, p) = None" if "\<not> port_is_valid E p" using that E by (simp add: chans_def dchans_def)
    then have "chans (f s) (d, p) \<noteq> chans s (d, p) \<or> consumer_is_xen (evtchn_from_port E p)"
      using Invalid(2) first(4) by auto
    then show ?thesis using Invalid(1) ok first(4) E by (simp add: again)
  next
    case (Closed s')
    then show ?thesis using ok first(4) evolves_inv by (auto simp: again)
  qed simp
qed

theorem evtchn_close_effect_witness:
  "\<exists>s'. evtchn_close' (sample_env 1) (\<lambda>s. s) sample2 1 1 = Done (0, s') \<and> sys_inv s' \<and>
    chans s' = (chans sample2)((0, 1) \<mapsto> ECS_UNBOUND 1, (1, 1) := None)"
proof -
  have "sample2 1 = Some (the (sample2 1))" by (rule sample_some)
  moreover have "port_is_valid (the (sample2 1)) 1" by code_simp
  moreover have "\<not> consumer_is_xen (evtchn_from_port (the (sample2 1)) 1)" by code_simp
  moreover have "chans sample2 (1, 1) = Some (ECS_INTERDOMAIN 0 1)" by code_simp
  ultimately show ?thesis
    using evtchn_close_effect [OF reachable_inv [OF reachable_samples(3)] _ interference_id,
        of 1 "the (sample2 1)" 1 "sample_env 1"] by auto
qed

text \<open>C23: Where the security module labels new channels, a binding to a remote port succeeds only on a port that waits for the calling domain. It then
  connects it with a local port that was not in use, returns that port and leaves a
  notification pending on it; on an error the table is unchanged.\<close>

theorem evtchn_bind_interdomain_connects:
  assumes "sys_inv s" and "labels_ok env" and "s (current_dom env) \<noteq> None"
    and "evtchn_bind_interdomain env s b = Done (rc, s', b')"
  shows "rc \<noteq> 0 \<and> chans s' = chans s \<and> b' = b \<or>
    rc = 0 \<and> (let ld = current_dom env; lp = bi_local_port b'; rp = bi_remote_port b;
        rd = (if bi_remote_dom b = DOMID_SELF then ld else bi_remote_dom b)
      in chans s (ld, lp) = None \<and> chans s (rd, rp) = Some (ECS_UNBOUND ld) \<and>
         chans s' = (chans s)((ld, lp) \<mapsto> ECS_INTERDOMAIN rd rp, (rd, rp) \<mapsto> ECS_INTERDOMAIN ld lp) \<and>
         evtchn_pending (the (s' ld)) lp)"
proof (rule evtchn_bind_interdomain_cases [OF assms])
  fix ld rd lp rp s3 r
  assume h: "rc = 0" "ld = current_dom env" "rp = bi_remote_port b"
    "rd = (if bi_remote_dom b = DOMID_SELF then ld else bi_remote_dom b)"
    "chans s (ld, lp) = None" "chans s (rd, rp) = Some (ECS_UNBOUND ld)" "s3 ld \<noteq> None"
    "chans s3 = (chans s)((ld, lp) \<mapsto> ECS_INTERDOMAIN rd rp, (rd, rp) \<mapsto> ECS_INTERDOMAIN ld lp)"
    "set_pending_in env s3 ld 0 lp = Done (r, s')" "b' = b\<lparr>bi_local_port := lp\<rparr>"
  obtain D3 where D3: "s3 ld = Some D3" using h(7) by blast
  obtain D' where D': "s' = s3(ld \<mapsto> D')" "evtchn_set_pending env ld D3 0 lp = Done (r, D')"
    using set_pending_in_at [OF h(9) D3] by blast
  have "chans s' = chans s3"
    unfolding D'(1) using D3 same_chans_dchans [OF evtchn_set_pending_same [OF D'(2)]] by (rule chans_same)
  moreover have "evtchn_pending D' lp" using evtchn_set_pending_bits(1) [OF D'(2)] by simp
  ultimately have "chans s' = (chans s)((ld, lp) \<mapsto> ECS_INTERDOMAIN rd rp, (rd, rp) \<mapsto> ECS_INTERDOMAIN ld lp)"
    "evtchn_pending (the (s' ld)) lp" "bi_local_port b' = lp"
    using h(8,10) D'(1) by simp_all
  with h(1,5,6) show ?thesis
    unfolding Let_def h(2) [symmetric] h(3) [symmetric] h(4) [symmetric] by simp
qed (simp_all add: Let_def)

theorem evtchn_bind_interdomain_connects_witness:
  "\<exists>rc s' b'. evtchn_bind_interdomain (sample_env 1) sample1
      \<lparr>bi_remote_dom = 0, bi_remote_port = 1, bi_local_port = 0\<rparr> = Done (rc, s', b') \<and> rc = 0 \<and>
    chans s' = (chans sample1)((1, 1) \<mapsto> ECS_INTERDOMAIN 0 1, (0, 1) \<mapsto> ECS_INTERDOMAIN 1 1) \<and>
    evtchn_pending (the (s' 1)) 1"
proof -
  let ?b = "\<lparr>bi_remote_dom = 0, bi_remote_port = 1, bi_local_port = 0\<rparr>"
  have ok: "(case evtchn_bind_interdomain (sample_env 1) sample1 ?b of
      Done (rc, _, b') \<Rightarrow> rc = 0 \<and> bi_local_port b' = 1 | BUG \<Rightarrow> False)"
    by code_simp
  then obtain s' b' where op: "evtchn_bind_interdomain (sample_env 1) sample1 ?b = Done (0, s', b')"
    and lp: "bi_local_port b' = 1"
    by (auto split: outcome.splits)
  have cur: "sample1 (current_dom (sample_env 1)) \<noteq> None" by code_simp
  from evtchn_bind_interdomain_connects [OF reachable_inv [OF reachable_samples(2)] labels_ok_sample cur op] op lp
  show ?thesis by (auto simp: Let_def sample_env_def DOMID_SELF_def)
qed

text \<open>C15: Sending on a connected channel that the security module allows, with neither end the hypervisor's own, sets the event pending
  at the other end. If it was neither pending nor masked there, and its group of ports had no event
  selected, the virtual CPU it notifies has an upcall pending; and if the domain is not a hardware virtual machine and no upcall
  was pending before, the virtual CPU is not left blocked.\<close>

theorem evtchn_send_delivers:
  assumes "sys_inv s" and "s d = Some D" and "port_is_valid D p" and "\<not> consumer_is_xen (evtchn_from_port D p)"
    and "state (evtchn_from_port D p) = ECS_INTERDOMAIN d2 p2" and "xsm_evtchn_send (xsm_ops env) d p = 0"
    and "s d2 = Some D2" and "\<not> consumer_is_xen (evtchn_from_port D2 p2)"
    and "vcpu D2 (notify_vcpu_id (evtchn_from_port D2 p2)) = Some v"
  shows "\<exists>D2' v'. evtchn_send env s d p = Done (0, s(d2 \<mapsto> D2')) \<and> evtchn_pending D2' p2 \<and>
    vcpu D2' (notify_vcpu_id (evtchn_from_port D2 p2)) = Some v' \<and>
    (\<not> evtchn_pending D2 p2 \<and> \<not> evtchn_mask D2 p2 \<and>
       \<not> evtchn_pending_sel v (p2 div BITS_PER_GUEST_LONG D2) \<longrightarrow>
     evtchn_upcall_pending v' \<and> (\<not> is_hvm D2 \<and> \<not> evtchn_upcall_pending v \<longrightarrow> \<not> VPF_blocked v'))"
proof -
  let ?n = "notify_vcpu_id (evtchn_from_port D2 p2)"
  have b: "bucket_from_port D2 p2 \<noteq> None"
    using linked [OF assms(1-3,5)] assms(7) port_is_valid_bucket by (metis option.inject)
  obtain r s' where r: "set_pending_in env s d2 ?n p2 = Done (r, s')"
    using set_pending_in_Done [where s = s, OF assms(7), of ?n env p2] assms(9) by auto
  obtain D' where D': "s' = s(d2 \<mapsto> D')" "evtchn_set_pending env d2 D2 ?n p2 = Done (r, D')"
    using set_pending_in_at [OF r assms(7)] by blast
  have "evtchn_send env s d p = Done (0, s(d2 \<mapsto> D'))"
    using assms b r D'(1) by (auto simp: evtchn_send_def Let_def)
  moreover have "evtchn_pending D' p2" using evtchn_set_pending_bits(1) [OF D'(2)] by simp
  moreover obtain v' where v': "vcpu D' ?n = Some v'"
    using same_chans_vcpu [OF evtchn_set_pending_same [OF D'(2)] assms(9)] by blast
  ultimately show ?thesis
    using evtchn_set_pending_upcall [OF D'(2) _ _ assms(9)] by fastforce
qed

theorem evtchn_send_delivers_witness:
  "\<exists>D2'. evtchn_send (sample_env 1) sample2 1 1 = Done (0, sample2(0 \<mapsto> D2')) \<and> evtchn_pending D2' 1"
proof -
  have "port_is_valid (the (sample2 1)) 1" by code_simp
  moreover have "\<not> consumer_is_xen (evtchn_from_port (the (sample2 1)) 1)" by code_simp
  moreover have "\<not> consumer_is_xen (evtchn_from_port (the (sample2 0)) 1)" by code_simp
  moreover have "vcpu (the (sample2 0)) (notify_vcpu_id (evtchn_from_port (the (sample2 0)) 1)) \<noteq> None" by code_simp
  moreover have "xsm_evtchn_send (xsm_ops (sample_env 1)) 1 1 = 0" by code_simp
  ultimately show ?thesis
    using evtchn_send_delivers [OF reachable_inv [OF reachable_samples(3)] sample_some(2) _ _ sample_states(2)
        _ sample_some(1), of "sample_env 1"]
    by auto
qed

text \<open>C24: Unmasking a port does not lose an event that came while the port was masked: afterwards the port is not
  masked, and if its event is pending and its group had no event selected, the group is selected for
  the virtual CPU that the port notifies, which has an upcall pending.\<close>

theorem evtchn_unmask_delivers:
  assumes "s (current_dom env) = Some D" and "port_is_valid D p" and "evtchn_mask D p" and "evtchn_pending D p"
    and "vcpu D (notify_vcpu_id (evtchn_from_port D p)) = Some v"
  shows "\<exists>D' v'. evtchn_unmask env s p = Done (0, s(current_dom env \<mapsto> D')) \<and>
    \<not> evtchn_mask D' p \<and> evtchn_pending D' p \<and>
    vcpu D' (notify_vcpu_id (evtchn_from_port D p)) = Some v' \<and>
    evtchn_pending_sel v' (p div BITS_PER_GUEST_LONG D) \<and>
    (\<not> evtchn_pending_sel v (p div BITS_PER_GUEST_LONG D) \<longrightarrow> evtchn_upcall_pending v')"
proof -
  let ?D = "D\<lparr>evtchn_mask := (evtchn_mask D)(p := False)\<rparr>" and ?n = "notify_vcpu_id (evtchn_from_port D p)"
  let ?D' = "set_pending_sel env (current_dom env) ?D ?n p"
  have b: "BITS_PER_GUEST_LONG ?D = BITS_PER_GUEST_LONG D" by (simp add: BITS_PER_GUEST_LONG_def)
  have "evtchn_unmask env s p = Done (0, s(current_dom env \<mapsto> ?D'))"
    using assms by (simp add: evtchn_unmask_def Let_def)
  moreover have "\<not> evtchn_mask ?D' p" "evtchn_pending ?D' p" using assms(4) by simp_all
  moreover have "\<exists>v'. vcpu ?D' ?n = Some v' \<and> evtchn_pending_sel v' (p div BITS_PER_GUEST_LONG D) \<and>
    (\<not> evtchn_pending_sel v (p div BITS_PER_GUEST_LONG D) \<longrightarrow> evtchn_upcall_pending v')"
  proof (cases "evtchn_pending_sel v (p div BITS_PER_GUEST_LONG D)")
    case True
    then show ?thesis using assms(5) b by (simp add: set_pending_sel_def Let_def)
  next
    case False
    then show ?thesis using set_pending_sel_effect [of ?D ?n v p env "current_dom env"] assms(5) b by auto
  qed
  ultimately show ?thesis by blast
qed

theorem evtchn_unmask_delivers_witness:
  "\<exists>D'. evtchn_unmask (sample_env 0) [0 \<mapsto> (snd (evtchn_init (sample_env 0) (sample_domain True)))
      \<lparr>evtchn_mask := (\<lambda>_. True), evtchn_pending := (\<lambda>p. p = 5)\<rparr>] 5 = Done (0, [0 \<mapsto> D']) \<and>
    evtchn_pending D' 5 \<and> \<not> evtchn_mask D' 5"
proof -
  let ?D = "(snd (evtchn_init (sample_env 0) (sample_domain True)))
      \<lparr>evtchn_mask := (\<lambda>_. True), evtchn_pending := (\<lambda>p. p = 5)\<rparr>"
  have "port_is_valid ?D 5" by code_simp
  moreover have "vcpu ?D (notify_vcpu_id (evtchn_from_port ?D 5)) \<noteq> None" by code_simp
  then obtain v where "vcpu ?D (notify_vcpu_id (evtchn_from_port ?D 5)) = Some v" by blast
  ultimately show ?thesis
    using evtchn_unmask_delivers [of "[0 \<mapsto> ?D]" "sample_env 0" ?D 5 v] by (auto simp: sample_env_def)
qed

lemma dchans_used: "dchans D q \<noteq> None \<longleftrightarrow> port_is_valid D q \<and> state (evtchn_from_port D q) \<noteq> ECS_FREE"
  by (simp add: dchans_def)

text \<open>The four ways in which the search for a free port ends.\<close>

lemma get_free_port_ends:
  fixes env :: "'e evtchn_env_scheme"
  assumes "get_free_port env D = (p, D')" and "dom_inv D"
  obtains (Dying) "is_dying D \<noteq> DOMDYING_alive" "p = - EINVAL" "D' = D"
  | (Full) "is_dying D = DOMDYING_alive" "\<forall>q. 0 \<le> q \<longrightarrow> q < MAX_EVTCHNS D \<longrightarrow> dchans D q \<noteq> None"
      "p = - ENOSPC" "D' = D"
  | (Free) "is_dying D = DOMDYING_alive" "0 \<le> p" "p < MAX_EVTCHNS D" "dchans D p = None"
      "\<forall>q. 0 \<le> q \<longrightarrow> q < p \<longrightarrow> dchans D q \<noteq> None" "port_is_valid D p \<or> xmalloc_ok env \<and> labels_ok env"
      "port_is_valid D' p" "evtchn_from_port D' p = zero_evtchn" "dom_inv D'" "dchans D' = dchans D"
  | (No_memory) q where "is_dying D = DOMDYING_alive" "0 \<le> q" "q < MAX_EVTCHNS D" "\<not> port_is_valid D q"
      "\<forall>r. 0 \<le> r \<longrightarrow> r < q \<longrightarrow> dchans D r \<noteq> None" "p = - ENOMEM" "\<not> xmalloc_ok env \<or> \<not> labels_ok env"
      "labels_ok env \<longrightarrow> D' = D"
proof (cases "is_dying D = DOMDYING_alive")
  case alive: True
  obtain i found where fr: "free_port_from D 0 = (i, found)" by fastforce
  have "0 \<le> MAX_EVTCHNS D" by (simp add: MAX_EVTCHNS_def NR_EVENT_CHANNELS_def)
  note sp = free_port_from_spec [OF fr _ this, simplified]
  have low: "\<forall>q. 0 \<le> q \<longrightarrow> q < i \<longrightarrow> dchans D q \<noteq> None" unfolding dchans_used using sp by blast
  have lab: "(\<exists>i \<in> set [0..EVTCHNS_PER_BUCKET - 1]. xsm_alloc_security_evtchn (xsm_ops env) i \<noteq> 0) \<longleftrightarrow> \<not> labels_ok env"
    by (auto simp: labels_ok_def)
  consider (f) found | (full) "\<not> found" "i = MAX_EVTCHNS D" | (bad) "\<not> found" "i < MAX_EVTCHNS D" "\<not> xmalloc_ok env \<or> \<not> labels_ok env"
    | (new) "\<not> found" "i < MAX_EVTCHNS D" "xmalloc_ok env" "labels_ok env"
    using sp by fastforce
  then show thesis
  proof cases
    case f
    then have "p = i" "D' = D" using assms(1) fr alive by (simp_all add: get_free_port_def)
    moreover have "port_is_valid D i" "state (evtchn_from_port D i) = ECS_FREE" "0 \<le> i" "i < MAX_EVTCHNS D"
      using sp f by (simp_all add: port_is_valid_def)
    moreover from this have "evtchn_from_port D i = zero_evtchn"
      using chan_inv [OF assms(2), of i] by (simp add: chan_ok_def zero_evtchn_def)
    ultimately show thesis using Free alive low assms(2) by (simp add: dchans_def)
  next
    case full
    then show thesis using Full assms(1) fr alive low by (simp add: get_free_port_def)
  next
    case bad
    then have "p = - ENOMEM" "labels_ok env \<longrightarrow> D' = D"
      using assms(1) fr alive unfolding get_free_port_def Let_def lab by (auto split: if_splits)
    then show thesis using No_memory [of i] bad alive low sp by simp
  next
    case new
    then have p: "p = i" using assms(1) fr alive unfolding get_free_port_def Let_def lab by simp
    have "0 \<le> p" "dchans D p = None" using sp new p by (simp_all add: dchans_def)
    moreover note ok = get_free_port_ok [OF assms(1) new(4) assms(2)]
    ultimately show thesis using Free alive low new p grown_dchans [OF ok(2)] ok(1,3) by blast
  qed
next
  case False
  then show thesis using Dying assms(1) by (simp add: get_free_port_def)
qed

text \<open>C25: The search for a free port returns the lowest port that is not in use, enlarging the
  domain's array of channels if it must, and leaves every channel as it was. It returns \<open>-EINVAL\<close> exactly for a
  domain that is dying, \<open>-ENOSPC\<close> exactly when the domain is alive and every port of it is in use, and \<open>-ENOMEM\<close> exactly
  when the lowest port that is not in use needs a new bucket and there is no memory for it or the security module
  fails to label it. Nothing changes on an error, unless a label failed.\<close>

theorem get_free_port_lowest:
  assumes "dom_inv D" and "get_free_port env D = (p, D')"
  shows "(p = - EINVAL \<longleftrightarrow> is_dying D \<noteq> DOMDYING_alive) \<and>
    (p = - ENOSPC \<longleftrightarrow> is_dying D = DOMDYING_alive \<and> (\<forall>q. 0 \<le> q \<and> q < MAX_EVTCHNS D \<longrightarrow> dchans D q \<noteq> None)) \<and>
    (p = - ENOMEM \<longleftrightarrow> is_dying D = DOMDYING_alive \<and> (\<not> xmalloc_ok env \<or> \<not> labels_ok env) \<and>
       (\<exists>q. 0 \<le> q \<and> q < MAX_EVTCHNS D \<and> \<not> port_is_valid D q \<and> (\<forall>r. 0 \<le> r \<and> r < q \<longrightarrow> dchans D r \<noteq> None))) \<and>
    (if p < 0 then p \<in> {- EINVAL, - ENOSPC, - ENOMEM} \<and> (labels_ok env \<longrightarrow> D' = D)
     else dchans D p = None \<and> (\<forall>q. 0 \<le> q \<and> q < p \<longrightarrow> dchans D q \<noteq> None) \<and>
       port_is_valid D' p \<and> evtchn_from_port D' p = zero_evtchn \<and> dom_inv D' \<and> dchans D' = dchans D)"
  using assms(2,1)
proof (cases rule: get_free_port_ends)
  case Dying
  then show ?thesis by simp
next
  case Full
  have "port_is_valid D q" if "0 \<le> q" "q < MAX_EVTCHNS D" for q using Full(2) that unfolding dchans_used by blast
  with Full show ?thesis by auto
next
  case Free
  have "\<not> (0 \<le> q \<and> q < MAX_EVTCHNS D \<and> \<not> port_is_valid D q \<and> (\<forall>r. 0 \<le> r \<and> r < q \<longrightarrow> dchans D r \<noteq> None))"
    if "\<not> xmalloc_ok env \<or> \<not> labels_ok env" for q
    using Free(2,4,5,6) that dchans_used [of D q] by (cases q p rule: linorder_cases) auto
  with Free show ?thesis by auto
next
  case (No_memory q)
  have "dchans D q = None" using No_memory(4) by (simp add: dchans_def)
  with No_memory show ?thesis by auto
qed

theorem get_free_port_lowest_witness:
  "fst (get_free_port (sample_env 0) (the (sample2 0))) = 2 \<and> dchans (the (sample2 0)) 1 \<noteq> None"
proof -
  have two: "fst (get_free_port (sample_env 0) (the (sample2 0))) = 2" by code_simp
  then have "get_free_port (sample_env 0) (the (sample2 0)) = (2, snd (get_free_port (sample_env 0) (the (sample2 0))))"
    by (metis prod.collapse)
  from get_free_port_lowest [OF sys_inv_dom [OF reachable_inv [OF reachable_samples(3)] sample_some(1)] this]
    two show ?thesis by auto
qed

text \<open>C28: A domain that is not privileged over another can neither allocate a port in it, nor reset its
  channels, nor read the state of its ports: the calls return \<open>-EPERM\<close>, or \<open>-ESRCH\<close> if there is no such
  domain, and change nothing.\<close>

theorem unprivileged_confined:
  assumes "s (current_dom env) = Some C" and "dm \<noteq> DOMID_SELF" and "\<not> IS_PRIV_FOR C dm"
  shows "\<exists>rc \<in> {- EPERM, - ESRCH}.
    (\<forall>a. au_dom a = dm \<longrightarrow> evtchn_alloc_unbound env s a = (rc, s, a)) \<and>
    evtchn_reset env other between s dm = Done (rc, s) \<and>
    (\<forall>st. st_dom st = dm \<longrightarrow> evtchn_status env s st = (rc, st))"
proof -
  obtain rc where "rc \<in> {- EPERM, - ESRCH}" "rcu_lock_target_domain_by_id env s dm = Inl rc"
    using assms
    by (cases "s dm") (simp_all add: rcu_lock_target_domain_by_id_def rcu_lock_domain_by_id_def)
  then show ?thesis
    by (intro bexI [of _ rc]) (auto simp: evtchn_alloc_unbound_def evtchn_reset_def evtchn_status_def)
qed

theorem unprivileged_confined_witness:
  "\<exists>rc \<in> {- EPERM, - ESRCH}. evtchn_reset (sample_env 1) (\<lambda>_ s. s) (\<lambda>_ s. s) sample2 0 = Done (rc, sample2)"
proof -
  have "sample2 (current_dom (sample_env 1)) = Some (the (sample2 1))"
    using sample_some(2) by (simp add: sample_env_def)
  moreover have "\<not> IS_PRIV_FOR (the (sample2 1)) 0" by code_simp
  ultimately show ?thesis
    using unprivileged_confined [of sample2 "sample_env 1" "the (sample2 1)" 0 "\<lambda>_ s. s" "\<lambda>_ s. s"]
    by (auto simp: DOMID_SELF_def)
qed

text \<open>C26: A virtual interrupt arrives where it was bound. In a system in order where the security module labels new channels, after a successful binding the port,
  which was not in use, is bound to the interrupt, and the interrupt, when it is raised, is pending on
  that port. This is so for the interrupts of one virtual CPU and for the global ones, which are bound to the first
  virtual CPU only and are raised for the whole domain.\<close>

theorem virq_bind_send:
  assumes "sys_inv s" and "labels_ok env" and "s (current_dom env) \<noteq> None"
    and "evtchn_bind_virq env s b = Done (0, s', b')"
  shows "chans s (current_dom env, bv_port b') = None \<and>
    chans s' (current_dom env, bv_port b') = Some (ECS_VIRQ (bv_virq b)) \<and>
    guest_enabled_event (vcpu (the (s' (current_dom env))) (bv_vcpu b)) (bv_virq b) \<and>
    (virq_class (bv_virq b) \<longrightarrow> bv_vcpu b = 0) \<and>
    (\<exists>D. (if virq_class (bv_virq b) then send_guest_global_virq env s' (Some (current_dom env)) (bv_virq b)
        else send_guest_vcpu_virq env s' (current_dom env) (bv_vcpu b) (bv_virq b)) =
       Done (s'(current_dom env \<mapsto> D)) \<and> evtchn_pending D (bv_port b'))"
proof -
  let ?d = "current_dom env" and ?q = "bv_virq b" and ?v = "bv_vcpu b"
  obtain D where D: "s ?d = Some D" using assms(3) by blast
  obtain p D1 where g: "get_free_port env D = (p, D1)" by fastforce
  note f = get_free_port_evolves [OF assms(1) D g assms(2)]
  let ?D = "upd_vcpu (upd_evtchn D1 p (\<lambda>c. c\<lparr>state := ECS_VIRQ ?q, notify_vcpu_id := ?v\<rparr>)) ?v
    (\<lambda>v. v\<lparr>virq_to_evtchn := (virq_to_evtchn v)(?q := p)\<rparr>)"
  obtain x where x: "\<not> p < 0" "0 \<le> ?q" "?q < NR_VIRQS" "vcpu D ?v = Some x" "virq_class ?q \<longrightarrow> ?v = 0" and s': "s' = (s(?d \<mapsto> D1))(?d \<mapsto> ?D)"
    and b': "b' = b\<lparr>bv_port := p\<rparr>"
    using assms(4) D g
    by (auto simp: evtchn_bind_virq_def virq_is_global_def outcome_simps Let_def upd_dom_def
        split: if_splits option.splits)
  have p: "port_is_valid D1 p" "0 < p" "chans s (?d, p) = None" using f(6) x(1) by auto
  have v: "vcpu D1 ?v = Some x" using x(4) grown_fields(2) [OF f(4)] by simp
  have s'd: "s' ?d = Some ?D" by (simp add: s')
  obtain r s2 where r: "set_pending_in env s' ?d ?v p = Done (r, s2)"
    using set_pending_in_Done [where s = s', OF s'd, of ?v env p] v by auto
  obtain E where E: "s2 = s'(?d \<mapsto> E)" "evtchn_set_pending env ?d ?D ?v p = Done (r, E)"
    using set_pending_in_at [OF r s'd] by blast
  have "(if virq_class ?q then send_guest_global_virq env s' (Some ?d) ?q else send_guest_vcpu_virq env s' ?d ?v ?q) =
      Done (s'(?d \<mapsto> E))"
  proof (cases "virq_class ?q")
    case True
    then have "?v = 0" using x(5) by simp
    moreover have "bucket_from_port ?D p \<noteq> None" using port_is_valid_bucket [of ?D p] p(1) by simp
    moreover have "notify_vcpu_id (evtchn_from_port ?D p) = ?v" using p(1) by simp
    ultimately show ?thesis
      using True s'd v x p(2) r E(1) by (auto simp: send_guest_global_virq_def virq_is_global_def Let_def)
  next
    case False
    then show ?thesis using s'd v x p r E(1) by (simp add: send_guest_vcpu_virq_def virq_is_global_def Let_def)
  qed
  moreover have "evtchn_pending E p" using evtchn_set_pending_bits(1) [OF E(2)] by simp
  moreover have "chans s' (?d, p) = Some (ECS_VIRQ ?q)" using s'd p by (simp add: chans_def dchans_def)
  moreover have "guest_enabled_event (vcpu (the (s' ?d)) ?v) ?q" using s'd v p by (simp add: guest_enabled_event_def)
  ultimately show ?thesis using p b' x(5) by auto
qed

theorem virq_bind_send_witness:
  "\<exists>s' b'. evtchn_bind_virq (sample_env 1) sample2 \<lparr>bv_virq = 0, bv_vcpu = 1, bv_port = 0\<rparr> = Done (0, s', b') \<and>
    chans s' (1, bv_port b') = Some (ECS_VIRQ 0)"
proof -
  let ?b = "\<lparr>bv_virq = 0, bv_vcpu = 1, bv_port = 0\<rparr>"
  have "(case evtchn_bind_virq (sample_env 1) sample2 ?b of Done (rc, _, _) \<Rightarrow> rc = 0 | BUG \<Rightarrow> False)"
    by code_simp
  then obtain s' b' where op: "evtchn_bind_virq (sample_env 1) sample2 ?b = Done (0, s', b')"
    by (auto split: outcome.splits)
  have "sample2 (current_dom (sample_env 1)) \<noteq> None" by code_simp
  from virq_bind_send [OF reachable_inv [OF reachable_samples(3)] labels_ok_sample this op] op show ?thesis
    by (simp add: sample_env_def virq_class_def)
qed

text \<open>C27: Where the security module labels new channels and allows the status to be read, the state of a port that was allocated for a remote domain reads back as unbound and waiting for
  that domain, with notifications to the first virtual CPU.\<close>

theorem alloc_unbound_status:
  assumes "sys_inv s" and "labels_ok env" and "s (current_dom env) \<noteq> None"
    and "evtchn_alloc_unbound env s a = (0, s', a')" and "st_dom st = au_dom a" and "st_port st = au_port a'"
    and "\<And>d p. xsm_evtchn_status (xsm_ops env) d p = 0"
  shows "evtchn_status env s' st = (0, st\<lparr>st_status := EVTCHNSTAT_unbound
      (if au_remote_dom a = DOMID_SELF then current_dom env else au_remote_dom a), st_vcpu := 0\<rparr>)"
proof -
  let ?r = "if au_remote_dom a = DOMID_SELF then current_dom env else au_remote_dom a"
  obtain d where d: "rcu_lock_target_domain_by_id env s (au_dom a) = Inr d"
    using assms(4)
    by (cases "rcu_lock_target_domain_by_id env s (au_dom a)")
      (auto simp: evtchn_alloc_unbound_def rcu_lock_target_domain_by_id_def split: if_splits option.splits)
  obtain D where D: "s d = Some D" using rcu_lock_target_Some [OF d assms(3)] by blast
  obtain p D1 where g: "get_free_port env D = (p, D1)" by fastforce
  note f = get_free_port_evolves [OF assms(1) D g assms(2)]
  let ?D = "upd_evtchn D1 p (\<lambda>c. c\<lparr>state := ECS_UNBOUND ?r\<rparr>)"
  have p0: "\<not> p < 0" and s': "s' = s(d \<mapsto> ?D)" and a': "au_port a' = p"
    using assms(4) d D g by (auto simp: evtchn_alloc_unbound_def Let_def upd_dom_def split: if_splits)
  have p: "port_is_valid D1 p" "evtchn_from_port D1 p = zero_evtchn" using f(6) p0 by auto
  have "IS_PRIV_FOR (the (s' c)) t = IS_PRIV_FOR (the (s c)) t" if "s c \<noteq> None" for c t
    using D that grown_fields(6,7) [OF f(4)] by (auto simp: s' IS_PRIV_FOR_def)
  then have "rcu_lock_target_domain_by_id env s' (au_dom a) = Inr d"
    using d D assms(3)
    by (auto simp: rcu_lock_target_domain_by_id_def rcu_lock_domain_by_id_def s' split: if_splits)
  then show ?thesis
    using p assms(5-7) a' by (simp add: evtchn_status_def Let_def s' zero_evtchn_def)
qed

theorem alloc_unbound_status_witness:
  "\<exists>s' a'. evtchn_alloc_unbound (sample_env 0) sample0 \<lparr>au_dom = 1, au_remote_dom = DOMID_SELF, au_port = 0\<rparr> = (0, s', a') \<and>
    evtchn_status (sample_env 0) s' \<lparr>st_dom = 1, st_port = au_port a', st_status = EVTCHNSTAT_closed, st_vcpu = 7\<rparr> =
      (0, \<lparr>st_dom = 1, st_port = au_port a', st_status = EVTCHNSTAT_unbound 0, st_vcpu = 0\<rparr>)"
proof -
  let ?a = "\<lparr>au_dom = 1, au_remote_dom = DOMID_SELF, au_port = 0\<rparr>"
  have "(case evtchn_alloc_unbound (sample_env 0) sample0 ?a of (rc, _, _) \<Rightarrow> rc = 0)" by code_simp
  then obtain s' a' where op: "evtchn_alloc_unbound (sample_env 0) sample0 ?a = (0, s', a')" by auto
  have "sample0 (current_dom (sample_env 0)) \<noteq> None" by (simp add: sample0_def sample_env_def)
  from alloc_unbound_status [OF reachable_inv [OF reachable_samples(1)] labels_ok_sample this op,
      of "\<lparr>st_dom = 1, st_port = au_port a', st_status = EVTCHNSTAT_closed, st_vcpu = 7\<rparr>"] op show ?thesis
    by (simp add: sample_env_def dummy_xsm_ops_def)
qed

text \<open>C8: Destroying the channels of a dying domain returns and frees them all, whatever other CPUs do at
  the same time, as long as they keep the system in order and leave every domain and virtual CPU in existence: no port of the domain is valid any more, no interrupt leads to a port, and no
  channel of any other domain is connected to it.\<close>

theorem evtchn_destroy_closes_all:
  assumes "sys_inv s" and "s d = Some D" and "is_dying D \<noteq> DOMDYING_alive"
    and "\<forall>p. interference (other p)" and "\<forall>p. interference (cleared p)" and "\<forall>p. interference (between p)"
  shows "\<exists>s' D'. evtchn_destroy env other cleared between s d = Done s' \<and> sys_inv s' \<and> s' d = Some D' \<and>
    (\<forall>p. \<not> port_is_valid D' p) \<and> (\<forall>q. pirq_to_evtchn D' q = 0) \<and>
    (\<forall>v x q. vcpu D' v = Some x \<longrightarrow> virq_to_evtchn x q = 0) \<and>
    (\<forall>x p. chans s' x \<noteq> Some (ECS_INTERDOMAIN d p))"
  using evtchn_destroy_spec [OF assms, of env] evolves_inv by blast

theorem evtchn_destroy_closes_all_witness:
  "\<exists>s'. evtchn_destroy (sample_env 0) (\<lambda>_ s. s) (\<lambda>_ s. s) (\<lambda>_ s. s)
      (sample2(1 \<mapsto> (the (sample2 1))\<lparr>is_dying := DOMDYING_dying\<rparr>)) 1 = Done s' \<and>
    chans s' (0, 1) \<noteq> Some (ECS_INTERDOMAIN 1 1)"
proof -
  have "reachable (sample2(1 \<mapsto> (the (sample2 1))\<lparr>is_dying := DOMDYING_dying\<rparr>))"
    using reachable_samples(3) sample_some(2) by (rule Kill)
  from evtchn_destroy_closes_all [OF reachable_inv [OF this], of 1 _ "\<lambda>_ s. s" "\<lambda>_ s. s" "\<lambda>_ s. s" "sample_env 0"]
  show ?thesis by (auto simp: interference_id)
qed

text \<open>C29: A new event wakes the virtual CPUs that poll for events: afterwards none of the domain is marked as
  polling, and none of those that were is blocked.\<close>

theorem set_pending_wakes_pollers:
  assumes "evtchn_set_pending env did d vid port = Done (0, d')" and "d_is_polling d"
  shows "\<not> d_is_polling d' \<and> (\<forall>w x'. vcpu d' w = Some x' \<longrightarrow> \<not> v_is_polling x' \<and>
    (\<exists>x. vcpu d w = Some x \<and> (v_is_polling x \<longrightarrow> \<not> VPF_blocked x')))"
proof -
  let ?d1 = "d\<lparr>evtchn_pending := (evtchn_pending d)(port := True)\<rparr>"
  define d2 where "d2 = (if \<not> evtchn_mask ?d1 port then set_pending_sel env did ?d1 vid port else ?d1)"
  have d': "d' = set_pending_poll env d2"
    using assms(1) by (auto simp: evtchn_set_pending_def outcome_simps Let_def d2_def split: if_splits)
  have p2: "d_is_polling d2" using assms(2) by (simp add: d2_def set_pending_sel_def)
  have old: "\<exists>x. vcpu d w = Some x \<and> v_is_polling y = v_is_polling x" if "vcpu d2 w = Some y" for w y
    using that by (auto simp: d2_def set_pending_sel_def Let_def vcpu_frame split: if_splits)
  have "\<not> v_is_polling x' \<and> (\<exists>x. vcpu d w = Some x \<and> (v_is_polling x \<longrightarrow> \<not> VPF_blocked x'))"
    if w: "vcpu d' w = Some x'" for w x'
  proof -
    obtain y where y: "vcpu d2 w = Some y" and x': "x' = (if \<not> v_is_polling y then y
        else vcpu_unblock env d2 (y\<lparr>v_is_polling := False\<rparr>))"
      using w p2 by (auto simp: d' set_pending_poll_def)
    from old [OF y] x' show ?thesis by (auto simp: vcpu_frame)
  qed
  moreover have "\<not> d_is_polling d'" using p2 by (simp add: d' set_pending_poll_def)
  ultimately show ?thesis by blast
qed

theorem set_pending_wakes_pollers_witness:
  "\<exists>d'. evtchn_set_pending (sample_env 0) 0 ((sample_domain True)\<lparr>d_is_polling := True,
      vcpu := (\<lambda>v. if v = 1 then Some (sample_vcpu\<lparr>v_is_polling := True\<rparr>) else None)\<rparr>) 1 3 = Done (0, d') \<and>
    \<not> d_is_polling d'"
proof -
  let ?d = "(sample_domain True)\<lparr>d_is_polling := True,
      vcpu := (\<lambda>v. if v = 1 then Some (sample_vcpu\<lparr>v_is_polling := True\<rparr>) else None)\<rparr>"
  obtain d' where op: "evtchn_set_pending (sample_env 0) 0 ?d 1 3 = Done (0, d')"
    by (simp add: evtchn_set_pending_def sample_domain_def Let_def)
  from set_pending_wakes_pollers [OF op] op show ?thesis by simp
qed

section \<open>Two faults\<close>

lemma free_port_from_found:
  assumes "\<forall>q. i \<le> q \<longrightarrow> q < p \<longrightarrow> port_is_valid d q \<and> state (evtchn_from_port d q) \<noteq> ECS_FREE"
    and "port_is_valid d p" and "state (evtchn_from_port d p) = ECS_FREE" and "i \<le> p"
  shows "free_port_from d i = (p, True)"
  using assms
proof (induction d i rule: free_port_from.induct)
  case (1 d i)
  show ?case
  proof (cases "i = p")
    case True
    then show ?thesis using "1.prems" by (simp add: free_port_from.simps [of d p])
  next
    case False
    then have "port_is_valid d i" "state (evtchn_from_port d i) \<noteq> ECS_FREE" using "1.prems" by auto
    then show ?thesis using "1.IH" "1.prems" False by (simp add: free_port_from.simps [of d i])
  qed
qed

text \<open>C30: When the security module fails to label a channel of a new bucket, the bucket is freed but the
  domain keeps the pointer to it: the port counts as valid, and the next search for a free port
  returns it, with its channel in freed memory.\<close>

theorem get_free_port_dangling:
  assumes "is_dying D = DOMDYING_alive" and "free_port_from D 0 = (p, False)" and "p < MAX_EVTCHNS D"
    and "xmalloc_ok env" and "0 \<le> i" and "i < EVTCHNS_PER_BUCKET"
    and "xsm_alloc_security_evtchn (xsm_ops env) i \<noteq> 0"
  shows "\<exists>D'. get_free_port env D = (- ENOMEM, D') \<and> port_is_valid D' p \<and>
    evtchn_freed D' (p div EVTCHNS_PER_BUCKET) \<and> get_free_port env' D' = (p, D')"
proof -
  have "0 \<le> MAX_EVTCHNS D" by (simp add: MAX_EVTCHNS_def NR_EVENT_CHANNELS_def)
  note sp = free_port_from_spec [OF assms(2) _ this, simplified]
  let ?b = "p div EVTCHNS_PER_BUCKET"
  let ?D = "D\<lparr>evtchn := (evtchn D)(?b := Some (\<lambda>_. zero_evtchn)), evtchn_freed := (evtchn_freed D)(?b := True)\<rparr>"
  have fail: "\<exists>i \<in> set [0..EVTCHNS_PER_BUCKET - 1]. xsm_alloc_security_evtchn (xsm_ops env) i \<noteq> 0"
    using assms(5-7) by auto
  have op: "get_free_port env D = (- ENOMEM, ?D)"
    unfolding get_free_port_def using assms fail by (simp add: Let_def)
  have v: "port_is_valid ?D p" "evtchn_from_port ?D p = zero_evtchn"
    using sp assms(3) by (simp_all add: port_is_valid_def MAX_EVTCHNS_def bucket_from_port_def evtchn_from_port_def)
  have bn: "evtchn D ?b = None"
    using first_invalid_port(1) [of p D] sp assms(3) by auto
  have old: "port_is_valid ?D q \<and> state (evtchn_from_port ?D q) \<noteq> ECS_FREE" if "0 \<le> q" "q < p" for q
  proof -
    have q: "port_is_valid D q" "state (evtchn_from_port D q) \<noteq> ECS_FREE" using sp that by auto
    then have "q div EVTCHNS_PER_BUCKET \<noteq> ?b" using bn by (auto simp: port_is_valid_def bucket_from_port_def)
    with q show ?thesis
      by (simp add: port_is_valid_def MAX_EVTCHNS_def bucket_from_port_def evtchn_from_port_def)
  qed
  have "free_port_from ?D 0 = (p, True)"
    using v old sp by (intro free_port_from_found) (simp_all add: zero_evtchn_def)
  then have "get_free_port env' ?D = (p, ?D)" using assms(1) by (simp add: get_free_port_def)
  with op v show ?thesis by (intro exI [of _ ?D]) simp
qed

theorem get_free_port_dangling_witness:
  "\<exists>D'. get_free_port ((sample_env 0)\<lparr>xsm_ops := dummy_xsm_ops\<lparr>xsm_alloc_security_evtchn := (\<lambda>i. if i = 3 then - 12 else 0)\<rparr>\<rparr>)
      (sample_domain True) = (- ENOMEM, D') \<and> port_is_valid D' 0 \<and> get_free_port (sample_env 0) D' = (0, D')"
proof -
  let ?e = "(sample_env 0)\<lparr>xsm_ops := dummy_xsm_ops\<lparr>xsm_alloc_security_evtchn := (\<lambda>i. if i = 3 then - 12 else 0)\<rparr>\<rparr>"
  have "free_port_from (sample_domain True) 0 = (0, False)" by code_simp
  from get_free_port_dangling [OF _ this, of ?e 3 "sample_env 0"] show ?thesis
    by (auto simp: sample_domain_def sample_env_def dummy_xsm_ops_def MAX_EVTCHNS_def NR_EVENT_CHANNELS_def
        EVTCHNS_PER_BUCKET_def)
qed

lemma null_system:
  "\<exists>s D D2 p2. reachable s \<and> s 0 = Some D \<and> is_privileged D \<and> s 1 = Some D2 \<and> (\<forall>v \<in> {0..<MAX_VIRT_CPUS}. vcpu D2 v = None) \<and>
     port_is_valid D 1 \<and> \<not> consumer_is_xen (evtchn_from_port D 1) \<and> state (evtchn_from_port D 1) = ECS_INTERDOMAIN 1 p2 \<and>
     \<not> consumer_is_xen (evtchn_from_port D2 p2) \<and> notify_vcpu_id (evtchn_from_port D2 p2) = 0"
proof -
  let ?D = "(sample_domain False)\<lparr>vcpu := (\<lambda>_. None)\<rparr>"
  let ?D1 = "snd (evtchn_init (sample_env 0) ?D)"
  define s1 :: system where "s1 = [0 \<mapsto> snd (evtchn_init (sample_env 0) (sample_domain True)), 1 \<mapsto> ?D1]"
  define s2 where "s2 = run 0 s1 (EVTCHNOP_alloc_unbound \<lparr>au_dom = 1, au_remote_dom = DOMID_SELF, au_port = 0\<rparr>)"
  define s3 where "s3 = run 0 s2 (EVTCHNOP_bind_interdomain \<lparr>bi_remote_dom = 1, bi_remote_port = 1, bi_local_port = 0\<rparr>)"
  have f: "fresh_domain ?D" by (simp add: fresh_domain_def sample_domain_def)
  have "fst (evtchn_init (sample_env 0) ?D) = 0" by code_simp
  then have i: "evtchn_init (sample_env 0) ?D = (0, ?D1)" by (metis prod.collapse)
  have r1: "reachable s1"
    unfolding s1_def
    by (rule Create [OF Create [OF Boot _ fresh_sample labels_ok_sample init_sample] _ f labels_ok_sample i]) simp_all
  have r2: "reachable s2" unfolding s2_def by (rule reachable_run [OF r1]) (simp add: s1_def)
  have "s2 0 \<noteq> None" unfolding s2_def s1_def by code_simp
  then have r3: "reachable s3" unfolding s3_def by (rule reachable_run [OF r2])
  have "(case (s3 0, s3 1) of (Some D, Some D2) \<Rightarrow> is_privileged D \<and> port_is_valid D 1 \<and>
      \<not> consumer_is_xen (evtchn_from_port D 1) \<and> state (evtchn_from_port D 1) = ECS_INTERDOMAIN 1 1 \<and>
      \<not> consumer_is_xen (evtchn_from_port D2 1) \<and> notify_vcpu_id (evtchn_from_port D2 1) = 0 \<and> list_all (\<lambda>v. vcpu D2 v = None) [0..MAX_VIRT_CPUS - 1] | _ \<Rightarrow> False)"
    unfolding s3_def s2_def s1_def by code_simp
  then obtain D D2 where D: "s3 0 = Some D" "s3 1 = Some D2" "is_privileged D" "port_is_valid D 1"
    "\<not> consumer_is_xen (evtchn_from_port D 1)" "state (evtchn_from_port D 1) = ECS_INTERDOMAIN 1 1"
    "\<not> consumer_is_xen (evtchn_from_port D2 1)" "notify_vcpu_id (evtchn_from_port D2 1) = 0" "list_all (\<lambda>v. vcpu D2 v = None) [0..MAX_VIRT_CPUS - 1]"
    by (auto split: option.splits)
  then have "\<forall>v \<in> {0..<MAX_VIRT_CPUS}. vcpu D2 v = None" by (auto simp: list_all_iff)
  with D r3 show ?thesis by blast
qed

text \<open>C31: Sending on a connected channel, where neither end is the hypervisor's own and the security module allows it, stops the
  machine exactly when the other domain does not have the virtual CPU to notify: the delivery follows its \<open>NULL\<close> pointer. This
  happens: there is a reachable system in which a privileged domain has connected a channel to a domain that has no
  virtual CPU yet.\<close>

theorem evtchn_send_null_vcpu:
  assumes "sys_inv s" and "s d = Some D" and "port_is_valid D p" and "\<not> consumer_is_xen (evtchn_from_port D p)"
    and "state (evtchn_from_port D p) = ECS_INTERDOMAIN d2 p2" and "xsm_evtchn_send (xsm_ops env) d p = 0"
    and "s d2 = Some D2" and "\<not> consumer_is_xen (evtchn_from_port D2 p2)"
  shows "(evtchn_send env s d p = BUG \<longleftrightarrow> vcpu D2 (notify_vcpu_id (evtchn_from_port D2 p2)) = None) \<and>
    (\<exists>s D D2 p2. reachable s \<and> s 0 = Some D \<and> is_privileged D \<and> s 1 = Some D2 \<and> (\<forall>v \<in> {0..<MAX_VIRT_CPUS}. vcpu D2 v = None) \<and>
       port_is_valid D 1 \<and> \<not> consumer_is_xen (evtchn_from_port D 1) \<and> state (evtchn_from_port D 1) = ECS_INTERDOMAIN 1 p2 \<and>
       \<not> consumer_is_xen (evtchn_from_port D2 p2) \<and> notify_vcpu_id (evtchn_from_port D2 p2) = 0)"
proof -
  let ?n = "notify_vcpu_id (evtchn_from_port D2 p2)"
  have b: "bucket_from_port D2 p2 \<noteq> None"
    using linked [OF assms(1-3,5)] assms(7) port_is_valid_bucket by (metis option.inject)
  have "evtchn_send env s d p = bind_outcome (set_pending_in env s d2 ?n p2) (\<lambda>(_, s). Done (0, s))"
    using assms b by (auto simp: evtchn_send_def Let_def)
  moreover have "set_pending_in env s d2 ?n p2 = BUG \<longleftrightarrow> vcpu D2 ?n = None"
    using assms(7) by (auto simp: set_pending_in_def evtchn_set_pending_def Let_def bug_on_def)
  ultimately have "evtchn_send env s d p = BUG \<longleftrightarrow> vcpu D2 ?n = None"
    by (cases "set_pending_in env s d2 ?n p2") auto
  with null_system show ?thesis by blast
qed

theorem evtchn_send_null_vcpu_witness:
  "\<exists>s D2. reachable s \<and> s 1 = Some D2 \<and> (\<forall>v \<in> {0..<MAX_VIRT_CPUS}. vcpu D2 v = None) \<and> evtchn_send (sample_env 0) s 0 1 = BUG"
proof -
  obtain s D D2 p2 where s: "reachable s" "s 0 = Some D" "s 1 = Some D2" "\<forall>v \<in> {0..<MAX_VIRT_CPUS}. vcpu D2 v = None" "port_is_valid D 1"
    "\<not> consumer_is_xen (evtchn_from_port D 1)" "state (evtchn_from_port D 1) = ECS_INTERDOMAIN 1 p2"
    "\<not> consumer_is_xen (evtchn_from_port D2 p2)" "notify_vcpu_id (evtchn_from_port D2 p2) = 0"
    using null_system by blast
  then have n: "vcpu D2 (notify_vcpu_id (evtchn_from_port D2 p2)) = None" by (simp add: MAX_VIRT_CPUS_def)
  have "xsm_evtchn_send (xsm_ops (sample_env 0)) 0 1 = 0" by code_simp
  from evtchn_send_null_vcpu [OF reachable_inv [OF s(1)] s(2,5-7) this s(3,8)] s n show ?thesis by blast
qed

end
