(* ===== verification/Timer.thy ===== *)
theory Timer
  imports Xen_Prelude
begin

text \<open>
  Timers: \<open>xen/common/timer.c\<close> and \<open>xen/include/xen/timer.h\<close>.

  A pointer to a timer is a number, and \<open>tm\<close> the store of timers. A CPU keeps its active timers in
  a binary heap ordered by expiry, an array of pointers with the size and the limit of the heap in
  its first slot, and, when the heap is full, in an overflow list in the order of expiry. The list is
  a list of pointers here; the code links it through \<open>list_next\<close>, which shares its memory
  with \<open>heap_offset\<close>. Taking the lock of a CPU's timers is left out: every operation holds the
  locks of all the queues it touches. The callback of a timer runs without the lock, so
  it is a function on the whole state that also stands for what other CPUs do meanwhile. The softirq
  gives up its lock for a moment between growing the heap and moving the list into it; the two are one step here.
  Times are integers: a 64-bit count of nanoseconds does not overflow for 292 years after the start of the machine.
\<close>

section \<open>Data\<close>

type_synonym tid = nat

datatype timer_status =
  TIMER_STATUS_inactive | TIMER_STATUS_killed | TIMER_STATUS_in_heap | TIMER_STATUS_in_list

text \<open>The member \<open>callback\<close> stands for the members \<open>function\<close> and \<open>data\<close>.\<close>

record timer =
  expires :: int
  heap_offset :: nat
  callback :: nat
  cpu :: cpuid
  status :: timer_status

record heap =
  heap_size :: nat
  heap_limit :: nat
  slot :: "nat \<Rightarrow> tid"

record timers =
  heap :: heap
  tlist :: "tid list"
  running :: "tid option"

record tstate =
  tm :: "tid \<Rightarrow> timer"
  per_cpu_timers :: "cpuid \<Rightarrow> timers"
  TIMER_SOFTIRQ :: "cpuid \<Rightarrow> bool"
  timer_deadline :: "cpuid \<Rightarrow> int"

definition TIMER_SLOP :: int where
  "TIMER_SLOP = 50 * 1000"

text \<open>The size and the limit of a heap are kept in 16 bits.\<close>

definition SET_HEAP_SIZE :: "heap \<Rightarrow> nat \<Rightarrow> heap" where
  "SET_HEAP_SIZE h v = h\<lparr>heap_size := v mod 2 ^ 16\<rparr>"

definition SET_HEAP_LIMIT :: "heap \<Rightarrow> nat \<Rightarrow> heap" where
  "SET_HEAP_LIMIT h v = h\<lparr>heap_limit := v mod 2 ^ 16\<rparr>"

definition active_timer :: "timer \<Rightarrow> bool" where
  "active_timer t = (status t = TIMER_STATUS_in_heap \<or> status t = TIMER_STATUS_in_list)"

definition init_timer :: "nat \<Rightarrow> cpuid \<Rightarrow> timer" where
  "init_timer f c = \<lparr>expires = 0, heap_offset = 0, callback = f, cpu = c mod 2 ^ 16,
     status = TIMER_STATUS_inactive\<rparr>"

section \<open>Heap operations\<close>

type_synonym tstore = "tid \<Rightarrow> timer"

definition set_offset :: "tstore \<Rightarrow> tid \<Rightarrow> nat \<Rightarrow> tstore" where
  "set_offset m t pos = m(t := (m t)\<lparr>heap_offset := pos\<rparr>)"

text \<open>\<open>heap[pos] = t; t->heap_offset = pos\<close>.\<close>

definition place :: "tstore \<times> heap \<Rightarrow> tid \<Rightarrow> nat \<Rightarrow> tstore \<times> heap" where
  "place mh t pos = (set_offset (fst mh) t pos, (snd mh)\<lparr>slot := (slot (snd mh))(pos := t)\<rparr>)"

text \<open>The loop of \<open>down_heap\<close>, with the position at which it ends. Positions start at 1; for
  position 0, which is never asked for, the model stops at once.\<close>

function down_loop :: "tstore \<times> heap \<Rightarrow> tid \<Rightarrow> nat \<Rightarrow> (tstore \<times> heap) \<times> nat" where
  "down_loop mh t pos =
     (let m = fst mh; h = snd mh; sz = heap_size h; nxt = 2 * pos in
      if pos = 0 \<or> \<not> nxt \<le> sz then (mh, pos)
      else
        let nxt = (if nxt + 1 \<le> sz \<and> expires (m (slot h (nxt + 1))) < expires (m (slot h nxt))
                   then nxt + 1 else nxt)
        in if expires (m (slot h nxt)) > expires (m t) then (mh, pos)
           else down_loop (place mh (slot h nxt) pos) t nxt)"
  by pat_completeness auto
termination
  by (relation "measure (\<lambda>(mh, t, pos). heap_size (snd mh) - pos)")
    (auto simp: place_def Let_def split: if_splits)

declare down_loop.simps [simp del]

definition down_heap :: "tstore \<times> heap \<Rightarrow> nat \<Rightarrow> tstore \<times> heap" where
  "down_heap mh pos =
     (let t = slot (snd mh) pos; (mh1, pos1) = down_loop mh t pos in place mh1 t pos1)"

function up_loop :: "tstore \<times> heap \<Rightarrow> tid \<Rightarrow> nat \<Rightarrow> (tstore \<times> heap) \<times> nat" where
  "up_loop mh t pos =
     (if pos > 1 \<and> expires (fst mh t) < expires (fst mh (slot (snd mh) (pos div 2)))
      then up_loop (place mh (slot (snd mh) (pos div 2)) pos) t (pos div 2)
      else (mh, pos))"
  by pat_completeness auto
termination
  by (relation "measure (\<lambda>(mh, t, pos). pos)") auto

declare up_loop.simps [simp del]

definition up_heap :: "tstore \<times> heap \<Rightarrow> nat \<Rightarrow> tstore \<times> heap" where
  "up_heap mh pos =
     (let t = slot (snd mh) pos; (mh1, pos1) = up_loop mh t pos in place mh1 t pos1)"

definition remove_from_heap :: "tstore \<times> heap \<Rightarrow> tid \<Rightarrow> bool \<times> (tstore \<times> heap)" where
  "remove_from_heap mh t =
     (let sz = heap_size (snd mh); pos = heap_offset (fst mh t) in
      if pos = sz then (pos = 1, (fst mh, SET_HEAP_SIZE (snd mh) (sz - 1)))
      else
        let (m, h) = place mh (slot (snd mh) sz) pos;
            h = SET_HEAP_SIZE h (sz - 1);
            up = (pos > 1 \<and> expires (m (slot h pos)) < expires (m (slot h (pos div 2))))
        in (pos = 1, if up then up_heap (m, h) pos else down_heap (m, h) pos))"

definition add_to_heap :: "tstore \<times> heap \<Rightarrow> tid \<Rightarrow> bool \<times> (tstore \<times> heap)" where
  "add_to_heap mh t =
     (let sz = heap_size (snd mh) in
      if sz = heap_limit (snd mh) then (False, mh)
      else
        let (m, h) = place (fst mh, SET_HEAP_SIZE (snd mh) (sz + 1)) t (sz + 1);
            mh1 = up_heap (m, h) (sz + 1)
        in (heap_offset (fst mh1 t) = 1, mh1))"

section \<open>Linked list operations\<close>

text \<open>The result of the walk is the list, and whether the pointer that changed is the head. Walking off
  the end of the list follows a \<open>NULL\<close> pointer.\<close>

fun remove_from_list :: "tid list \<Rightarrow> tid \<Rightarrow> (bool \<times> tid list) outcome" where
  "remove_from_list [] t = BUG"
| "remove_from_list (cur # xs) t =
     (if cur = t then Done (True, xs)
      else bind_outcome (remove_from_list xs t) (\<lambda>(_, ys). Done (False, cur # ys)))"

fun add_to_list :: "tstore \<Rightarrow> tid list \<Rightarrow> tid \<Rightarrow> bool \<times> tid list" where
  "add_to_list m [] t = (True, [t])"
| "add_to_list m (cur # xs) t =
     (if expires (m cur) \<le> expires (m t) then (False, cur # snd (add_to_list m xs t))
      else (True, t # cur # xs))"

section \<open>Timer operations\<close>

definition set_status :: "tstore \<Rightarrow> tid \<Rightarrow> timer_status \<Rightarrow> tstore" where
  "set_status m t st = m(t := (m t)\<lparr>status := st\<rparr>)"

definition remove_entry :: "tstore \<Rightarrow> timers \<Rightarrow> tid \<Rightarrow> (bool \<times> tstore \<times> timers) outcome" where
  "remove_entry m ts t =
     (case status (m t) of
        TIMER_STATUS_in_heap \<Rightarrow>
          let (rc, m1, h) = remove_from_heap (m, heap ts) t in
          Done (rc, set_status m1 t TIMER_STATUS_inactive, ts\<lparr>heap := h\<rparr>)
      | TIMER_STATUS_in_list \<Rightarrow>
          bind_outcome (remove_from_list (tlist ts) t) (\<lambda>(rc, xs).
            Done (rc, set_status m t TIMER_STATUS_inactive, ts\<lparr>tlist := xs\<rparr>))
      | _ \<Rightarrow> BUG)"

definition add_entry :: "tstore \<Rightarrow> timers \<Rightarrow> tid \<Rightarrow> (bool \<times> tstore \<times> timers) outcome" where
  "add_entry m ts t =
     bug_on (status (m t) \<noteq> TIMER_STATUS_inactive)
      (let m1 = set_status (set_offset m t 0) t TIMER_STATUS_in_heap;
           (rc, m2, h) = add_to_heap (m1, heap ts) t
       in if heap_offset (m2 t) \<noteq> 0 then Done (rc, m2, ts\<lparr>heap := h\<rparr>)
          else
            let m3 = set_status m2 t TIMER_STATUS_in_list;
                (rc, xs) = add_to_list m3 (tlist ts) t
            in Done (rc, m3, ts\<lparr>heap := h, tlist := xs\<rparr>))"

definition raise_timer_softirq :: "tstate \<Rightarrow> bool \<Rightarrow> cpuid \<Rightarrow> tstate" where
  "raise_timer_softirq s rc c = (if rc then s\<lparr>TIMER_SOFTIRQ := (TIMER_SOFTIRQ s)(c := True)\<rparr> else s)"

definition put_queue :: "tstate \<Rightarrow> cpuid \<Rightarrow> tstore \<Rightarrow> timers \<Rightarrow> tstate" where
  "put_queue s c m ts = s\<lparr>tm := m, per_cpu_timers := (per_cpu_timers s)(c := ts)\<rparr>"

definition add_timer' :: "tstate \<Rightarrow> tid \<Rightarrow> tstate outcome" where
  "add_timer' s t =
     (let c = cpu (tm s t) in
      bind_outcome (add_entry (tm s) (per_cpu_timers s c) t) (\<lambda>(rc, m, ts).
        Done (raise_timer_softirq (put_queue s c m ts) rc c)))"

definition stop_timer' :: "tstate \<Rightarrow> tid \<Rightarrow> tstate outcome" where
  "stop_timer' s t =
     (let c = cpu (tm s t) in
      bind_outcome (remove_entry (tm s) (per_cpu_timers s c) t) (\<lambda>(rc, m, ts).
        Done (raise_timer_softirq (put_queue s c m ts) rc c)))"

definition stop_timer :: "tstate \<Rightarrow> tid \<Rightarrow> tstate outcome" where
  "stop_timer s t = (if active_timer (tm s t) then stop_timer' s t else Done s)"

definition set_timer :: "tstate \<Rightarrow> tid \<Rightarrow> int \<Rightarrow> tstate outcome" where
  "set_timer s t e =
     bind_outcome (if active_timer (tm s t) then stop_timer' s t else Done s) (\<lambda>s1.
       let s2 = s1\<lparr>tm := (tm s1)(t := (tm s1 t)\<lparr>expires := e\<rparr>)\<rparr> in
       if status (tm s2 t) \<noteq> TIMER_STATUS_killed then add_timer' s2 t else Done s2)"

definition set_cpu :: "tstate \<Rightarrow> tid \<Rightarrow> cpuid \<Rightarrow> tstate" where
  "set_cpu s t c = s\<lparr>tm := (tm s)(t := (tm s t)\<lparr>cpu := c mod 2 ^ 16\<rparr>)\<rparr>"

definition migrate_timer :: "tstate \<Rightarrow> tid \<Rightarrow> cpuid \<Rightarrow> tstate outcome" where
  "migrate_timer s t new_cpu =
     (if cpu (tm s t) = new_cpu then Done s
      else if active_timer (tm s t) then
        bind_outcome (stop_timer' s t) (\<lambda>s1. add_timer' (set_cpu s1 t new_cpu) t)
      else Done (set_cpu s t new_cpu))"

text \<open>\<open>kill_timer\<close> up to its last loop, and that loop: it ends once no CPU runs the timer. \<open>others\<close> is what
  the other CPUs do while it waits; \<open>None\<close> is that it waits still.\<close>

definition kill_timer_stop :: "tstate \<Rightarrow> cpuid \<Rightarrow> tid \<Rightarrow> tstate outcome" where
  "kill_timer_stop s this t =
     bug_on (running (per_cpu_timers s this) = Some t)
      (bind_outcome (if active_timer (tm s t) then stop_timer' s t else Done s) (\<lambda>s1.
         Done (s1\<lparr>tm := set_status (tm s1) t TIMER_STATUS_killed\<rparr>)))"

definition kill_timer ::
  "tstate \<Rightarrow> cpuid \<Rightarrow> cpuid list \<Rightarrow> (tstate \<Rightarrow> tstate) \<Rightarrow> tid \<Rightarrow> tstate option outcome" where
  "kill_timer s this online others t =
     bind_outcome (kill_timer_stop s this t) (\<lambda>s1.
       let s2 = others s1 in
       Done (if \<exists>c \<in> set online. running (per_cpu_timers s2 c) = Some t then None else Some s2))"

section \<open>The softirq\<close>

text \<open>A larger heap is a copy of the old one with a new limit; \<open>mem\<close> says whether there is memory for it.\<close>

definition grow_heap :: "bool \<Rightarrow> tstate \<Rightarrow> cpuid \<Rightarrow> tstate" where
  "grow_heap mem s c =
     (let ts = per_cpu_timers s c in
      if tlist ts \<noteq> [] then
        let old_limit = heap_limit (heap ts); new_limit = (old_limit + 1) * 2 ^ 4 - 1 in
        if mem then put_queue s c (tm s) (ts\<lparr>heap := SET_HEAP_LIMIT (heap ts) new_limit\<rparr>) else s
      else s)"

fun move_list :: "tstore \<Rightarrow> timers \<Rightarrow> tid list \<Rightarrow> (tstore \<times> timers) outcome" where
  "move_list m ts [] = Done (m, ts)"
| "move_list m ts (t # next) =
     bind_outcome (add_entry (set_status m t TIMER_STATUS_inactive) ts t)
       (\<lambda>(_, m1, ts1). move_list m1 ts1 next)"

definition set_running :: "tstate \<Rightarrow> cpuid \<Rightarrow> tid option \<Rightarrow> tstate" where
  "set_running s c r = put_queue s c (tm s) ((per_cpu_timers s c)\<lparr>running := r\<rparr>)"

text \<open>The two loops that run what is due. A callback may set timers again, so the loops need not end: \<open>None\<close>
  is that they do not.\<close>

partial_function (option) run_heap ::
  "(tid \<Rightarrow> tstate \<Rightarrow> tstate) \<Rightarrow> int \<Rightarrow> tstate \<Rightarrow> cpuid \<Rightarrow> tstate outcome option" where
  "run_heap fn now s c =
     (let ts = per_cpu_timers s c; t = slot (heap ts) 1 in
      if heap_size (heap ts) \<noteq> 0 \<and> expires (tm s t) < now + TIMER_SLOP then
        (case remove_entry (tm s) ts t of
           BUG \<Rightarrow> Some BUG
         | Done r \<Rightarrow>
             run_heap fn now (fn t (set_running (put_queue s c (fst (snd r)) (snd (snd r))) c (Some t))) c)
      else Some (Done s))"

definition heap_deadline :: "tstate \<Rightarrow> cpuid \<Rightarrow> int" where
  "heap_deadline s c =
     (let h = heap (per_cpu_timers s c) in if heap_size h \<noteq> 0 then expires (tm s (slot h 1)) else 0)"

partial_function (option) run_list ::
  "(tid \<Rightarrow> tstate \<Rightarrow> tstate) \<Rightarrow> int \<Rightarrow> int \<Rightarrow> tstate \<Rightarrow> cpuid \<Rightarrow> (int \<times> tstate) option" where
  "run_list fn now deadline s c =
     (case tlist (per_cpu_timers s c) of
        [] \<Rightarrow> Some (deadline, s)
      | t # next \<Rightarrow>
          if expires (tm s t) \<ge> now + TIMER_SLOP then
            Some (if deadline = 0 \<or> deadline > expires (tm s t) then expires (tm s t) else deadline, s)
          else
            run_list fn now deadline
              (fn t (set_running (put_queue s c (set_status (tm s) t TIMER_STATUS_inactive)
                 ((per_cpu_timers s c)\<lparr>tlist := next\<rparr>)) c (Some t))) c)"

definition timer_softirq_action ::
  "bool \<Rightarrow> (tid \<Rightarrow> tstate \<Rightarrow> tstate) \<Rightarrow> int \<Rightarrow> (int \<Rightarrow> bool) \<Rightarrow> tstate \<Rightarrow> cpuid \<Rightarrow> tstate outcome option" where
  "timer_softirq_action mem fn now reprogram_timer s c =
     (let s1 = grow_heap mem s c; ts = per_cpu_timers s1 c in
      case move_list (tm s1) (ts\<lparr>tlist := []\<rparr>) (tlist ts) of
        BUG \<Rightarrow> Some BUG
      | Done (m, ts1) \<Rightarrow>
         (case run_heap fn now (put_queue s1 c m ts1) c of
            None \<Rightarrow> None
          | Some BUG \<Rightarrow> Some BUG
          | Some (Done s2) \<Rightarrow>
             (case run_list fn now (heap_deadline s2 c) s2 c of
                None \<Rightarrow> None
              | Some (deadline, s3) \<Rightarrow>
                  let s4 = (set_running s3 c None)\<lparr>timer_deadline := (timer_deadline s3)(c := deadline)\<rparr> in
                  Some (Done (if \<not> reprogram_timer deadline then raise_timer_softirq s4 True c else s4)))))"

definition process_pending_timers ::
  "bool \<Rightarrow> bool \<Rightarrow> (tid \<Rightarrow> tstate \<Rightarrow> tstate) \<Rightarrow> int \<Rightarrow> (int \<Rightarrow> bool) \<Rightarrow> tstate \<Rightarrow> cpuid \<Rightarrow> tstate outcome option" where
  "process_pending_timers irqs_on mem fn now reprogram_timer s c =
     (if \<not> irqs_on then Some BUG
      else if TIMER_SOFTIRQ s c then
        timer_softirq_action mem fn now reprogram_timer (s\<lparr>TIMER_SOFTIRQ := (TIMER_SOFTIRQ s)(c := False)\<rparr>) c
      else Some (Done s))"

definition timer_init :: "tstore \<Rightarrow> tstate" where
  "timer_init m = \<lparr>tm = m,
     per_cpu_timers = (\<lambda>_. \<lparr>heap = \<lparr>heap_size = 0, heap_limit = 0, slot = (\<lambda>_. 0)\<rparr>, tlist = [], running = None\<rparr>),
     TIMER_SOFTIRQ = (\<lambda>_. False), timer_deadline = (\<lambda>_. 0)\<rparr>"

end
