(* ===== verification/Timer_Heap.thy ===== *)
theory Timer_Heap
  imports Timer
begin

text \<open>The heap of timers: sifting keeps the timers, restores the order and keeps every offset.\<close>

definition heap_ord :: "(tid \<Rightarrow> int) \<Rightarrow> (nat \<Rightarrow> tid) \<Rightarrow> nat \<Rightarrow> bool" where
  "heap_ord e a n \<longleftrightarrow> (\<forall>i. 2 \<le> i \<and> i \<le> n \<longrightarrow> e (a (i div 2)) \<le> e (a i))"

text \<open>The order with an entry that may be too large for its place, or too small.\<close>

definition sink_ord :: "(tid \<Rightarrow> int) \<Rightarrow> (nat \<Rightarrow> tid) \<Rightarrow> nat \<Rightarrow> nat \<Rightarrow> bool" where
  "sink_ord e a n pos \<longleftrightarrow>
     (\<forall>i. 2 \<le> i \<and> i \<le> n \<and> i div 2 \<noteq> pos \<longrightarrow> e (a (i div 2)) \<le> e (a i)) \<and>
     (\<forall>i. 2 \<le> i \<and> i \<le> n \<and> i div 2 = pos \<and> 2 \<le> pos \<longrightarrow> e (a (pos div 2)) \<le> e (a i))"

definition float_ord :: "(tid \<Rightarrow> int) \<Rightarrow> (nat \<Rightarrow> tid) \<Rightarrow> nat \<Rightarrow> nat \<Rightarrow> bool" where
  "float_ord e a n pos \<longleftrightarrow>
     (\<forall>i. 2 \<le> i \<and> i \<le> n \<and> i \<noteq> pos \<longrightarrow> e (a (i div 2)) \<le> e (a i)) \<and>
     (\<forall>i. 2 \<le> i \<and> i \<le> n \<and> i div 2 = pos \<and> 2 \<le> pos \<longrightarrow> e (a (pos div 2)) \<le> e (a i))"

lemma heap_ord_top:
  "heap_ord e a n \<Longrightarrow> 1 \<le> i \<Longrightarrow> i \<le> n \<Longrightarrow> e (a 1) \<le> e (a i)"
proof (induction i rule: less_induct)
  case (less i)
  show ?case
  proof (cases "i = 1")
    case False
    then have "e (a 1) \<le> e (a (i div 2))" using less by auto
    moreover have "e (a (i div 2)) \<le> e (a i)"
      using less.prems False by (auto simp: heap_ord_def)
    ultimately show ?thesis by linarith
  qed simp
qed

lemma sink_ord_step:
  assumes "sink_ord e a n pos" "1 \<le> pos" "nxt \<le> n" "nxt div 2 = pos" "e (a nxt) \<le> e (a pos)"
    and min: "\<And>i. i \<le> n \<Longrightarrow> i div 2 = pos \<Longrightarrow> e (a nxt) \<le> e (a i)"
  shows "sink_ord e (a(pos := a nxt, nxt := a pos)) n nxt"
proof -
  let ?b = "a(pos := a nxt, nxt := a pos)"
  have up: "\<And>i. 2 \<le> i \<Longrightarrow> i \<le> n \<Longrightarrow> i div 2 \<noteq> pos \<Longrightarrow> e (a (i div 2)) \<le> e (a i)"
    and par: "2 \<le> pos \<Longrightarrow> e (a (pos div 2)) \<le> e (a nxt)"
    using assms(1,2,3,4) by (auto simp: sink_ord_def)
  have ne: "nxt \<noteq> pos" "pos div 2 \<noteq> pos" "pos div 2 \<noteq> nxt" using assms(2,4) by auto
  show ?thesis
    unfolding sink_ord_def
  proof (intro conjI allI impI)
    fix i assume i: "2 \<le> i \<and> i \<le> n \<and> i div 2 \<noteq> nxt"
    consider "i = pos" | "i = nxt" | "i \<noteq> pos" "i \<noteq> nxt" "i div 2 = pos" | "i \<noteq> pos" "i \<noteq> nxt" "i div 2 \<noteq> pos"
      by blast
    then show "e (?b (i div 2)) \<le> e (?b i)"
    proof cases
      case 1 then show ?thesis using par ne i by simp
    next
      case 2 then show ?thesis using assms(4,5) ne by simp
    next
      case 3 then show ?thesis using min[of i] i ne by simp
    next
      case 4 then show ?thesis using up[of i] i by simp
    qed
  next
    fix i assume i: "2 \<le> i \<and> i \<le> n \<and> i div 2 = nxt \<and> 2 \<le> nxt"
    then have "i \<noteq> nxt" "i \<noteq> pos" using assms(4) by auto
    then show "e (?b (nxt div 2)) \<le> e (?b i)"
      using i up[of i] assms(4) ne by simp
  qed
qed

lemma sink_ord_done:
  "sink_ord e a n pos \<Longrightarrow> (\<And>i. i \<le> n \<Longrightarrow> i div 2 = pos \<Longrightarrow> e (a pos) \<le> e (a i)) \<Longrightarrow> heap_ord e a n"
  unfolding sink_ord_def heap_ord_def by metis

lemma float_ord_step:
  assumes "float_ord e a n pos" "1 < pos" "pos \<le> n" "pos div 2 = q" "e (a pos) < e (a q)"
  shows "float_ord e (a(pos := a q, q := a pos)) n q"
proof -
  let ?b = "a(pos := a q, q := a pos)"
  have up: "\<And>i. 2 \<le> i \<Longrightarrow> i \<le> n \<Longrightarrow> i \<noteq> pos \<Longrightarrow> e (a (i div 2)) \<le> e (a i)"
    and ch: "\<And>i. 2 \<le> i \<Longrightarrow> i \<le> n \<Longrightarrow> i div 2 = pos \<Longrightarrow> e (a q) \<le> e (a i)"
    using assms by (auto simp: float_ord_def)
  have ne: "q \<noteq> pos" "q div 2 \<noteq> q" "q div 2 \<noteq> pos" "q \<le> n" using assms(2,3,4) by auto
  show ?thesis
    unfolding float_ord_def
  proof (intro conjI allI impI)
    fix i assume i: "2 \<le> i \<and> i \<le> n \<and> i \<noteq> q"
    consider "i = pos" | "i \<noteq> pos" "i div 2 = pos" | "i \<noteq> pos" "i div 2 = q" | "i \<noteq> pos" "i div 2 \<noteq> pos" "i div 2 \<noteq> q"
      by blast
    then show "e (?b (i div 2)) \<le> e (?b i)"
    proof cases
      case 1 then show ?thesis using assms(4,5) ne by simp
    next
      case 2 then show ?thesis using ch[of i] i ne by simp
    next
      case 3 then show ?thesis using up[of i] assms(5) i ne by simp
    next
      case 4 then show ?thesis using up[of i] i by simp
    qed
  next
    fix i assume i: "2 \<le> i \<and> i \<le> n \<and> i div 2 = q \<and> 2 \<le> q"
    then have "i \<noteq> q" by auto
    moreover have "e (a (q div 2)) \<le> e (a q)" using up[of q] i ne by simp
    ultimately show "e (?b (q div 2)) \<le> e (?b i)"
      using i up[of i] ne by (cases "i = pos") auto
  qed
qed

lemma float_ord_done:
  "float_ord e a n pos \<Longrightarrow> (2 \<le> pos \<Longrightarrow> e (a (pos div 2)) \<le> e (a pos)) \<Longrightarrow> heap_ord e a n"
  by (auto simp: float_ord_def heap_ord_def)

section \<open>What sifting keeps\<close>

definition offsets_ok :: "tstore \<times> heap \<Rightarrow> bool" where
  "offsets_ok mh \<longleftrightarrow> (\<forall>i \<in> {1..heap_size (snd mh)}. heap_offset (fst mh (slot (snd mh) i)) = i)"

definition slots :: "heap \<Rightarrow> tid set" where
  "slots h = slot h ` {1..heap_size h}"

text \<open>The heap holds the same timers, every offset is right, and nothing else of a timer differs.\<close>

definition sifted :: "tstore \<times> heap \<Rightarrow> tstore \<times> heap \<Rightarrow> bool" where
  "sifted V W \<longleftrightarrow>
     heap_size (snd W) = heap_size (snd V) \<and> heap_limit (snd W) = heap_limit (snd V) \<and>
     slots (snd W) = slots (snd V) \<and> offsets_ok W \<and>
     (\<forall>x. fst W x = (fst V x)\<lparr>heap_offset := heap_offset (fst W x)\<rparr>) \<and>
     (\<forall>x. x \<notin> slots (snd V) \<longrightarrow> fst W x = fst V x)"

lemma sifted_refl: "offsets_ok V \<Longrightarrow> sifted V V"
  by (simp add: sifted_def)

lemma sifted_trans: "sifted U V \<Longrightarrow> sifted V W \<Longrightarrow> sifted U W"
proof -
  assume UV: "sifted U V" and VW: "sifted V W"
  have "fst W x = (fst U x)\<lparr>heap_offset := heap_offset (fst W x)\<rparr>" for x
  proof -
    have "fst W x = (fst V x)\<lparr>heap_offset := heap_offset (fst W x)\<rparr>"
      and "fst V x = (fst U x)\<lparr>heap_offset := heap_offset (fst V x)\<rparr>"
      using UV VW unfolding sifted_def by blast+
    then show ?thesis by (cases "fst W x"; cases "fst V x"; cases "fst U x") simp
  qed
  then show "sifted U W" using UV VW unfolding sifted_def by simp
qed

lemma offsets_ok_inj: "offsets_ok mh \<Longrightarrow> inj_on (slot (snd mh)) {1..heap_size (snd mh)}"
  unfolding offsets_ok_def by (metis (no_types, lifting) inj_on_def)

lemma sifted_expires: "sifted V W \<Longrightarrow> expires (fst W x) = expires (fst V x)"
  unfolding sifted_def by (metis timer.select_convs(1) timer.surjective timer.update_convs(2))

lemma place_simps [simp]:
  "heap_size (snd (place mh t pos)) = heap_size (snd mh)"
  "heap_limit (snd (place mh t pos)) = heap_limit (snd mh)"
  "slot (snd (place mh t pos)) = (slot (snd mh))(pos := t)"
  "expires (fst (place mh t pos) x) = expires (fst mh x)"
  "status (fst (place mh t pos) x) = status (fst mh x)"
  "cpu (fst (place mh t pos) x) = cpu (fst mh x)"
  by (auto simp: place_def set_offset_def)

text \<open>Two places swapped, one of them the hole in which \<open>t\<close> is to go.\<close>

lemma place_swap:
  assumes "offsets_ok (place mh t pos)" "pos \<in> {1..heap_size (snd mh)}" "nxt \<in> {1..heap_size (snd mh)}" "pos \<noteq> nxt"
  shows "sifted (place mh t pos) (place (place mh (slot (snd mh) nxt) pos) t nxt)"
proof -
  let ?V = "place mh t pos" and ?x = "slot (snd mh) nxt" and ?n = "heap_size (snd mh)"
  let ?W = "place (place mh ?x pos) t nxt"
  have off: "heap_offset (fst ?V (((slot (snd mh))(pos := t)) i)) = i" if "i \<in> {1..?n}" for i
    using assms(1) that unfolding offsets_ok_def by simp
  have inj: "inj_on ((slot (snd mh))(pos := t)) {1..?n}"
    using offsets_ok_inj[OF assms(1)] by simp
  have ne: "?x \<noteq> t" using inj_onD[OF inj, of pos nxt] assms(2,3,4) by auto
  have others: "?x \<noteq> slot (snd mh) i \<and> t \<noteq> slot (snd mh) i" if "i \<in> {1..?n}" "i \<noteq> pos" "i \<noteq> nxt" for i
  proof -
    have "?x \<noteq> slot (snd mh) i" using inj_onD[OF inj, of i nxt] that assms(3,4) by auto
    moreover have "t \<noteq> slot (snd mh) i" using inj_onD[OF inj, of i pos] that assms(2) by auto
    ultimately show ?thesis ..
  qed
  have "heap_offset (fst ?W (slot (snd ?W) i)) = i" if i: "i \<in> {1..?n}" for i
  proof -
    consider "i = pos" | "i = nxt" | "i \<noteq> pos" "i \<noteq> nxt" by blast
    then show ?thesis
    proof cases
      case 1 then show ?thesis using ne assms(4) by (simp add: place_def set_offset_def)
    next
      case 2 then show ?thesis by (simp add: place_def set_offset_def)
    next
      case 3 then show ?thesis using others[OF i] off[OF i] by (simp add: place_def set_offset_def)
    qed
  qed
  then have "offsets_ok ?W" by (simp add: offsets_ok_def)
  moreover have "slots (snd ?W) = slots (snd ?V)"
    using assms(2,3,4) unfolding slots_def by (auto simp: image_iff fun_upd_def)
  moreover have "fst ?W y = (fst ?V y)\<lparr>heap_offset := heap_offset (fst ?W y)\<rparr>" for y
    by (simp add: place_def set_offset_def)
  moreover have "fst ?W y = fst ?V y" if "y \<notin> slots (snd ?V)" for y
  proof -
    have "t \<in> slots (snd ?V)" "?x \<in> slots (snd ?V)"
      using assms(2,3,4) by (auto simp: slots_def image_iff)
    then show ?thesis using that by (auto simp: place_def set_offset_def)
  qed
  ultimately show ?thesis by (simp add: sifted_def)
qed


section \<open>Sifting\<close>

abbreviation exps :: "tstore \<times> heap \<Rightarrow> tid \<Rightarrow> int" where
  "exps mh x \<equiv> expires (fst mh x)"

lemma swap_slots:
  "pos \<noteq> nxt \<Longrightarrow>
   slot (snd (place (place mh (slot (snd mh) nxt) pos) t nxt)) =
   (let a = (slot (snd mh))(pos := t) in a(pos := a nxt, nxt := a pos))"
  by (auto simp: fun_eq_iff Let_def)

lemma down_loop_sifts:
  assumes "offsets_ok (place mh t pos)" "1 \<le> pos" "pos \<le> heap_size (snd mh)"
    and "sink_ord (exps mh) ((slot (snd mh))(pos := t)) (heap_size (snd mh)) pos"
    and "down_loop mh t pos = (mh1, pos1)"
  shows "sifted (place mh t pos) (place mh1 t pos1) \<and>
    heap_ord (exps mh) (slot (snd (place mh1 t pos1))) (heap_size (snd mh))"
  using assms
proof (induction mh t pos arbitrary: mh1 pos1 rule: down_loop.induct)
  case (1 mh t pos)
  let ?h = "snd mh" and ?n = "heap_size (snd mh)" and ?e = "exps mh"
  define nxt where "nxt = (if 2 * pos + 1 \<le> ?n \<and> ?e (slot ?h (2 * pos + 1)) < ?e (slot ?h (2 * pos))
    then 2 * pos + 1 else 2 * pos)"
  let ?stop = "pos = 0 \<or> \<not> 2 * pos \<le> ?n" and ?leave = "?e (slot ?h nxt) > ?e t"
  let ?mh = "place mh (slot ?h nxt) pos" and ?a = "(slot ?h)(pos := t)"
  have eq: "down_loop mh t pos = (if ?stop \<or> ?leave then (mh, pos) else down_loop ?mh t nxt)"
    by (subst down_loop.simps) (simp add: Let_def nxt_def)
  show ?case
  proof (cases "?stop \<or> ?leave")
    case True
    have "heap_ord ?e ?a ?n"
    proof (rule sink_ord_done[OF "1.prems"(4)])
      fix i assume "i \<le> ?n" "i div 2 = pos"
      then have "i = 2 * pos \<or> i = 2 * pos + 1" "i \<noteq> pos" using "1.prems"(2) by auto
      then show "?e (?a pos) \<le> ?e (?a i)"
        using True \<open>i \<le> ?n\<close> "1.prems"(2) by (auto simp: nxt_def split: if_splits)
    qed
    moreover have "mh1 = mh" "pos1 = pos" using True eq "1.prems"(5) by auto
    ultimately show ?thesis using "1.prems"(1) by (simp add: sifted_refl fun_upd_def)
  next
    case False
    have n: "nxt \<le> ?n" "nxt div 2 = pos" "pos \<noteq> nxt" "1 \<le> nxt" using False "1.prems"(2) by (auto simp: nxt_def)
    have swap: "sifted (place mh t pos) (place ?mh t nxt)"
      using "1.prems" n by (intro place_swap) auto
    have "?e (slot ?h nxt) \<le> ?e (slot ?h i)" if "i \<le> ?n" "i div 2 = pos" for i
    proof -
      have "i = 2 * pos \<or> i = 2 * pos + 1" using that by auto
      then show ?thesis using that(1) by (auto simp: nxt_def)
    qed
    then have "sink_ord ?e (?a(pos := ?a nxt, nxt := ?a pos)) ?n nxt"
      using "1.prems"(2) False n by (intro sink_ord_step[OF "1.prems"(4)]) auto
    then have ord: "sink_ord (exps ?mh) ((slot (snd ?mh))(nxt := t)) (heap_size (snd ?mh)) nxt"
      using n swap_slots[of pos nxt mh t] by (simp add: fun_upd_twist Let_def)
    have "offsets_ok (place ?mh t nxt)" using swap by (simp add: sifted_def)
    then have "sifted (place ?mh t nxt) (place mh1 t pos1) \<and>
        heap_ord (exps ?mh) (slot (snd (place mh1 t pos1))) (heap_size (snd ?mh))"
      using "1.IH"[OF refl refl refl refl _ nxt_def, of mh1 pos1] False n ord "1.prems"(5) eq by (simp add: fun_upd_def)
    then show ?thesis using sifted_trans[OF swap] by (simp add: fun_upd_def)
  qed
qed


lemma up_loop_sifts:
  assumes "offsets_ok (place mh t pos)" "1 \<le> pos" "pos \<le> heap_size (snd mh)"
    and "float_ord (exps mh) ((slot (snd mh))(pos := t)) (heap_size (snd mh)) pos"
    and "up_loop mh t pos = (mh1, pos1)"
  shows "sifted (place mh t pos) (place mh1 t pos1) \<and>
    heap_ord (exps mh) (slot (snd (place mh1 t pos1))) (heap_size (snd mh))"
  using assms
proof (induction mh t pos arbitrary: mh1 pos1 rule: up_loop.induct)
  case (1 mh t pos)
  let ?h = "snd mh" and ?n = "heap_size (snd mh)" and ?e = "exps mh"
  let ?go = "pos > 1 \<and> ?e t < ?e (slot ?h (pos div 2))"
  define q where "q = pos div 2"
  let ?mh = "place mh (slot ?h q) pos" and ?a = "(slot ?h)(pos := t)"
  have eq: "up_loop mh t pos = (if ?go then up_loop ?mh t q else (mh, pos))"
    unfolding q_def by (rule up_loop.simps)
  show ?case
  proof (cases ?go)
    case False
    have "heap_ord ?e ?a ?n"
      using False "1.prems"(2) by (intro float_ord_done[OF "1.prems"(4)]) auto
    moreover have "mh1 = mh" "pos1 = pos" using False eq "1.prems"(5) by auto
    ultimately show ?thesis using "1.prems"(1) by (simp add: sifted_refl fun_upd_def)
  next
    case True
    have n: "q \<le> ?n" "pos \<noteq> q" "1 \<le> q" using True "1.prems"(3) by (auto simp: q_def)
    have swap: "sifted (place mh t pos) (place ?mh t q)"
      using "1.prems" n by (intro place_swap) auto
    have "float_ord ?e (?a(pos := ?a q, q := ?a pos)) ?n q"
      using "1.prems"(3) True n by (intro float_ord_step[OF "1.prems"(4)]) (auto simp: q_def)
    then have ord: "float_ord (exps ?mh) ((slot (snd ?mh))(q := t)) (heap_size (snd ?mh)) q"
      using n swap_slots[of pos q mh t] by (simp add: Let_def)
    have "offsets_ok (place ?mh t q)" using swap by (simp add: sifted_def)
    then have "sifted (place ?mh t q) (place mh1 t pos1) \<and>
        heap_ord (exps ?mh) (slot (snd (place mh1 t pos1))) (heap_size (snd ?mh))"
      using "1.IH"[of mh1 pos1] True n ord "1.prems"(5) eq by (simp add: q_def fun_upd_def)
    then show ?thesis using sifted_trans[OF swap] by (simp add: fun_upd_def)
  qed
qed

lemma place_same: "offsets_ok mh \<Longrightarrow> 1 \<le> pos \<Longrightarrow> pos \<le> heap_size (snd mh) \<Longrightarrow> place mh (slot (snd mh) pos) pos = mh"
  by (cases mh) (auto simp: place_def set_offset_def offsets_ok_def)

lemma down_heap_sifts:
  assumes "offsets_ok mh" "1 \<le> pos" "pos \<le> heap_size (snd mh)"
    and "sink_ord (exps mh) (slot (snd mh)) (heap_size (snd mh)) pos"
  shows "sifted mh (down_heap mh pos)"
    "heap_ord (exps mh) (slot (snd (down_heap mh pos))) (heap_size (snd mh))"
proof -
  let ?t = "slot (snd mh) pos"
  obtain mh1 pos1 where l: "down_loop mh ?t pos = (mh1, pos1)" by fastforce
  then have d: "down_heap mh pos = place mh1 ?t pos1" by (simp add: down_heap_def)
  show "sifted mh (down_heap mh pos)"
    "heap_ord (exps mh) (slot (snd (down_heap mh pos))) (heap_size (snd mh))"
    using down_loop_sifts[of mh ?t pos mh1 pos1] place_same assms l d by auto
qed

lemma up_heap_sifts:
  assumes "offsets_ok mh" "1 \<le> pos" "pos \<le> heap_size (snd mh)"
    and "float_ord (exps mh) (slot (snd mh)) (heap_size (snd mh)) pos"
  shows "sifted mh (up_heap mh pos)"
    "heap_ord (exps mh) (slot (snd (up_heap mh pos))) (heap_size (snd mh))"
proof -
  let ?t = "slot (snd mh) pos"
  obtain mh1 pos1 where l: "up_loop mh ?t pos = (mh1, pos1)" by fastforce
  then have d: "up_heap mh pos = place mh1 ?t pos1" by (simp add: up_heap_def)
  show "sifted mh (up_heap mh pos)"
    "heap_ord (exps mh) (slot (snd (up_heap mh pos))) (heap_size (snd mh))"
    using up_loop_sifts[of mh ?t pos mh1 pos1] place_same assms l d by auto
qed


section \<open>Adding and removing\<close>

definition heap_ok :: "tstore \<times> heap \<Rightarrow> bool" where
  "heap_ok mh \<longleftrightarrow> heap_size (snd mh) \<le> heap_limit (snd mh) \<and> heap_limit (snd mh) < 2 ^ 16 \<and>
     offsets_ok mh \<and> heap_ord (exps mh) (slot (snd mh)) (heap_size (snd mh))"

text \<open>The store changed in offsets only, and only in those of the timers in \<open>S\<close>.\<close>

definition offsets_changed :: "tid set \<Rightarrow> tstore \<Rightarrow> tstore \<Rightarrow> bool" where
  "offsets_changed S m m1 \<longleftrightarrow>
     (\<forall>x. m1 x = (m x)\<lparr>heap_offset := heap_offset (m1 x)\<rparr>) \<and> (\<forall>x. x \<notin> S \<longrightarrow> m1 x = m x)"

lemma offsets_changed_refl [simp]: "offsets_changed S m m"
  by (simp add: offsets_changed_def)

lemma offsets_changed_trans:
  "offsets_changed S m m1 \<Longrightarrow> offsets_changed S m1 m2 \<Longrightarrow> offsets_changed S m m2"
  unfolding offsets_changed_def
  by (metis (no_types, lifting) timer.surjective timer.update_convs(2))

lemma offsets_changed_mono: "offsets_changed S m m1 \<Longrightarrow> S \<subseteq> T \<Longrightarrow> offsets_changed T m m1"
  by (auto simp: offsets_changed_def)

lemma offsets_changed_simps:
  assumes "offsets_changed S m m1"
  shows "expires (m1 x) = expires (m x)" "status (m1 x) = status (m x)" "cpu (m1 x) = cpu (m x)"
    "callback (m1 x) = callback (m x)"
  using assms unfolding offsets_changed_def
  by (metis timer.select_convs timer.surjective timer.update_convs(2))+

lemma set_offset_changed: "t \<in> S \<Longrightarrow> offsets_changed S m (set_offset m t pos)"
  by (auto simp: offsets_changed_def set_offset_def)

lemma sifted_changed: "sifted V W \<Longrightarrow> offsets_changed (slots (snd V)) (fst V) (fst W)"
  by (simp add: sifted_def offsets_changed_def)

text \<open>A sifted heap in order is a heap.\<close>

lemma sifted_heap_ok:
  assumes "sifted V W" "heap_ord (exps V) (slot (snd W)) (heap_size (snd V))"
    and "heap_size (snd V) \<le> heap_limit (snd V)" "heap_limit (snd V) < 2 ^ 16"
  shows "heap_ok W"
  using assms sifted_expires[OF assms(1)] by (simp add: heap_ok_def sifted_def)

lemma slot_offset: "offsets_ok mh \<Longrightarrow> t \<in> slots (snd mh) \<Longrightarrow>
    1 \<le> heap_offset (fst mh t) \<and> heap_offset (fst mh t) \<le> heap_size (snd mh) \<and>
    slot (snd mh) (heap_offset (fst mh t)) = t"
  by (auto simp: offsets_ok_def slots_def)

lemma top_offset:
  assumes "offsets_ok mh" "t \<in> slots (snd mh)"
  shows "heap_offset (fst mh t) = 1 \<longleftrightarrow> slot (snd mh) 1 = t"
proof -
  have "heap_offset (fst mh (slot (snd mh) 1)) = 1"
    using assms by (auto simp: offsets_ok_def slots_def)
  then show ?thesis using slot_offset[OF assms] by metis
qed

lemma add_to_heap_full: "heap_size (snd mh) = heap_limit (snd mh) \<Longrightarrow> add_to_heap mh t = (False, mh)"
  by (simp add: add_to_heap_def Let_def)

lemma add_to_heap_spec:
  assumes ok: "heap_ok mh" and room: "heap_size (snd mh) \<noteq> heap_limit (snd mh)" and new: "t \<notin> slots (snd mh)"
    and add: "add_to_heap mh t = (rc, mh1)"
  shows "heap_ok mh1" "slots (snd mh1) = insert t (slots (snd mh))"
    "heap_limit (snd mh1) = heap_limit (snd mh)" "heap_offset (fst mh1 t) \<noteq> 0"
    "offsets_changed (insert t (slots (snd mh))) (fst mh) (fst mh1)" "rc \<longleftrightarrow> slot (snd mh1) 1 = t"
proof -
  let ?n = "heap_size (snd mh) + 1"
  define V where "V = place (fst mh, SET_HEAP_SIZE (snd mh) ?n) t ?n"
  have n: "heap_size (snd V) = ?n" "heap_limit (snd V) = heap_limit (snd mh)" "slot (snd V) = (slot (snd mh))(?n := t)"
      "?n \<le> heap_limit (snd mh)" "heap_limit (snd mh) < 2 ^ 16"
    using ok room by (auto simp: V_def SET_HEAP_SIZE_def heap_ok_def)
  have slots: "slots (snd V) = insert t (slots (snd mh))"
    by (auto simp: slots_def n image_iff le_Suc_eq)
  have V: "fst V = set_offset (fst mh) t ?n" by (simp add: V_def place_def)
  have off: "offsets_ok V"
    unfolding offsets_ok_def n
  proof
    fix i assume i: "i \<in> {1..?n}"
    show "heap_offset (fst V (((slot (snd mh))(?n := t)) i)) = i"
    proof (cases "i = ?n")
      case False
      then have "slot (snd mh) i \<in> slots (snd mh)" using i by (auto simp: slots_def)
      then have "slot (snd mh) i \<noteq> t" using new by blast
      then show ?thesis using False i ok by (auto simp: V set_offset_def heap_ok_def offsets_ok_def)
    qed (simp add: V set_offset_def)
  qed
  have "float_ord (exps V) (slot (snd V)) (heap_size (snd V)) ?n"
    using ok unfolding heap_ok_def heap_ord_def float_ord_def n by (auto simp: V_def)
  note up = up_heap_sifts[OF off _ _ this]
  have mh1: "mh1 = up_heap V ?n" and rc: "rc \<longleftrightarrow> heap_offset (fst mh1 t) = 1"
    using add room by (auto simp: add_to_heap_def Let_def V_def split: prod.splits)
  have s: "sifted V mh1" using up(1) n by (simp add: mh1)
  show ok1: "heap_ok mh1"
    using sifted_heap_ok[OF s] up(2) n by (simp add: mh1)
  show sl: "slots (snd mh1) = insert t (slots (snd mh))" using s slots by (simp add: sifted_def)
  show "heap_limit (snd mh1) = heap_limit (snd mh)" using s n by (simp add: sifted_def)
  have off1: "offsets_ok mh1" using s by (simp add: sifted_def)
  show "heap_offset (fst mh1 t) \<noteq> 0" using slot_offset[OF off1] sl by fastforce
  show "rc \<longleftrightarrow> slot (snd mh1) 1 = t" using rc top_offset[OF off1] sl by simp
  have "offsets_changed (insert t (slots (snd mh))) (fst mh) (fst V)"
    using set_offset_changed by (simp add: V_def place_def)
  then show "offsets_changed (insert t (slots (snd mh))) (fst mh) (fst mh1)"
    using sifted_changed[OF s] slots offsets_changed_trans by metis
qed


text \<open>The last entry put in the place of the one removed is too small for it or too large.\<close>

lemma replace_ord:
  assumes ord: "heap_ord e a n" and pos: "1 \<le> pos" "pos < n"
  shows "1 < pos \<Longrightarrow> e (a n) < e (a (pos div 2)) \<Longrightarrow> float_ord e (a(pos := a n)) (n - 1) pos"
    and "\<not> (1 < pos \<and> e (a n) < e (a (pos div 2))) \<Longrightarrow> sink_ord e (a(pos := a n)) (n - 1) pos"
proof -
  have le: "\<And>i. 2 \<le> i \<Longrightarrow> i \<le> n \<Longrightarrow> e (a (i div 2)) \<le> e (a i)" using ord by (simp add: heap_ord_def)
  have par: "2 \<le> pos \<Longrightarrow> e (a (pos div 2)) \<le> e (a pos)" using le pos by simp
  have ne: "pos div 2 \<noteq> pos" using pos by auto
  have two: "e (a (pos div 2)) \<le> e (a i)" if "2 \<le> i" "i \<le> n" "i div 2 = pos" "2 \<le> pos" for i
    using le[OF that(1,2)] that(3) par[OF that(4)] by simp
  have kid: "i \<noteq> pos" if "2 \<le> i" "i div 2 = pos" for i using that by auto
  show "float_ord e (a(pos := a n)) (n - 1) pos" if "1 < pos" "e (a n) < e (a (pos div 2))"
    unfolding float_ord_def
  proof (intro conjI allI impI)
    fix i assume i: "2 \<le> i \<and> i \<le> n - 1 \<and> i \<noteq> pos"
    then have "i \<le> n" by linarith
    then show "e ((a(pos := a n)) (i div 2)) \<le> e ((a(pos := a n)) i)"
      using i le[of i] two[of i] that by (cases "i div 2 = pos") auto
  next
    fix i assume i: "2 \<le> i \<and> i \<le> n - 1 \<and> i div 2 = pos \<and> 2 \<le> pos"
    then have "i \<le> n" by linarith
    then show "e ((a(pos := a n)) (pos div 2)) \<le> e ((a(pos := a n)) i)"
      using i two[of i] kid[of i] ne by simp
  qed
  show "sink_ord e (a(pos := a n)) (n - 1) pos" if "\<not> (1 < pos \<and> e (a n) < e (a (pos div 2)))"
    unfolding sink_ord_def
  proof (intro conjI allI impI)
    fix i assume i: "2 \<le> i \<and> i \<le> n - 1 \<and> i div 2 \<noteq> pos"
    then have "i \<le> n" by linarith
    then show "e ((a(pos := a n)) (i div 2)) \<le> e ((a(pos := a n)) i)"
      using i le[of i] that ne by (cases "i = pos") auto
  next
    fix i assume i: "2 \<le> i \<and> i \<le> n - 1 \<and> i div 2 = pos \<and> 2 \<le> pos"
    then have "i \<le> n" by linarith
    then show "e ((a(pos := a n)) (pos div 2)) \<le> e ((a(pos := a n)) i)"
      using i two[of i] kid[of i] ne by simp
  qed
qed

lemma remove_from_heap_last:
  assumes ok: "heap_ok mh" and t: "t \<in> slots (snd mh)" and pos: "heap_offset (fst mh t) = heap_size (snd mh)"
    and rem: "remove_from_heap mh t = (rc, mh1)"
  shows "heap_ok mh1" "slots (snd mh1) = slots (snd mh) - {t}" "fst mh1 = fst mh"
    "heap_limit (snd mh1) = heap_limit (snd mh)" "rc \<longleftrightarrow> slot (snd mh) 1 = t"
proof -
  let ?n = "heap_size (snd mh)"
  have off: "offsets_ok mh" and lim: "?n \<le> heap_limit (snd mh)" "heap_limit (snd mh) < 2 ^ 16"
    using ok by (auto simp: heap_ok_def)
  have tn: "slot (snd mh) ?n = t" "1 \<le> ?n" using slot_offset[OF off t] pos by auto
  have mh1: "mh1 = (fst mh, (snd mh)\<lparr>heap_size := ?n - 1\<rparr>)" and rc: "rc \<longleftrightarrow> heap_offset (fst mh t) = 1"
    using rem pos lim by (auto simp: remove_from_heap_def SET_HEAP_SIZE_def Let_def)
  show "heap_ok mh1"
    using ok unfolding heap_ok_def offsets_ok_def heap_ord_def mh1 by auto
  have "{1..?n} = insert ?n {1..?n - 1}" using tn by auto
  then have "slots (snd mh) = insert t (slots (snd mh1))" using tn by (simp add: slots_def mh1)
  moreover have "t \<notin> slots (snd mh1)"
    using inj_onD[OF offsets_ok_inj[OF off], of _ ?n] tn by (fastforce simp: slots_def mh1)
  ultimately show "slots (snd mh1) = slots (snd mh) - {t}" by blast
  show "rc \<longleftrightarrow> slot (snd mh) 1 = t" using rc top_offset[OF off t] by simp
qed (use rem pos in \<open>auto simp: remove_from_heap_def SET_HEAP_SIZE_def Let_def\<close>)


lemma remove_from_heap_inner_eq:
  assumes "p = heap_offset (fst mh t)" "p \<noteq> n" "1 \<le> p" "n = heap_size (snd mh)" "n < 2 ^ 16"
  shows "remove_from_heap mh t = (p = 1,
    let mh1 = place mh (slot (snd mh) n) p; V = (fst mh1, (snd mh1)\<lparr>heap_size := n - 1\<rparr>)
    in if p > 1 \<and> exps mh (slot (snd mh) n) < exps mh (slot (snd mh) (p div 2)) then up_heap V p else down_heap V p)"
proof -
  have "p div 2 \<noteq> p" "(n - Suc 0) mod 65536 = n - Suc 0" using assms(3,5) by auto
  then show ?thesis
    using assms(1,2,4) by (simp add: remove_from_heap_def SET_HEAP_SIZE_def Let_def case_prod_unfold)
qed

lemma remove_from_heap_inner:
  assumes ok: "heap_ok mh" and t: "t \<in> slots (snd mh)" and pos: "heap_offset (fst mh t) \<noteq> heap_size (snd mh)"
    and rem: "remove_from_heap mh t = (rc, mh1)"
  shows "heap_ok mh1" "slots (snd mh1) = slots (snd mh) - {t}" "offsets_changed (slots (snd mh)) (fst mh) (fst mh1)"
    "heap_limit (snd mh1) = heap_limit (snd mh)" "rc \<longleftrightarrow> slot (snd mh) 1 = t"
proof -
  let ?n = "heap_size (snd mh)" and ?p = "heap_offset (fst mh t)"
  let ?x = "slot (snd mh) ?n"
  have off: "offsets_ok mh" and lim: "?n \<le> heap_limit (snd mh)" "heap_limit (snd mh) < 2 ^ 16"
    and ord: "heap_ord (exps mh) (slot (snd mh)) ?n"
    using ok by (auto simp: heap_ok_def)
  have p: "slot (snd mh) ?p = t" "1 \<le> ?p" "?p < ?n" using slot_offset[OF off t] pos by auto
  define V where "V = (fst (place mh ?x ?p), (snd (place mh ?x ?p))\<lparr>heap_size := ?n - 1\<rparr>)"
  have V: "heap_size (snd V) = ?n - 1" "heap_limit (snd V) = heap_limit (snd mh)"
      "slot (snd V) = (slot (snd mh))(?p := ?x)" "fst V = set_offset (fst mh) ?x ?p" "\<And>y. exps V y = exps mh y"
    by (simp_all add: V_def) (simp_all add: place_def)
  define up where "up = (?p > 1 \<and> exps mh ?x < exps mh (slot (snd mh) (?p div 2)))"
  have ne: "?p div 2 \<noteq> ?p" using p by auto
  have mh1: "mh1 = (if up then up_heap V ?p else down_heap V ?p)" and rc: "rc \<longleftrightarrow> ?p = 1"
    using remove_from_heap_inner_eq[OF refl pos p(2) refl] lim rem by (simp_all add: V_def up_def Let_def)
  have inj: "slot (snd mh) i \<noteq> slot (snd mh) j" if "i \<in> {1..?n}" "j \<in> {1..?n}" "i \<noteq> j" for i j
    using inj_onD[OF offsets_ok_inj[OF off], of i j] that by auto
  have "heap_offset (fst V (slot (snd V) i)) = i" if i: "i \<in> {1..?n - 1}" for i
  proof (cases "i = ?p")
    case False
    have "i < ?n" using i p by auto
    then show ?thesis using inj[of i ?n] i off False by (auto simp: V set_offset_def offsets_ok_def)
  qed (simp add: V set_offset_def)
  then have offV: "offsets_ok V" by (simp add: offsets_ok_def V)
  have slV: "slots (snd V) = slots (snd mh) - {t}"
  proof -
    have "y \<in> slots (snd V) \<longleftrightarrow> y \<in> slots (snd mh) - {t}" for y
    proof
      assume "y \<in> slots (snd V)"
      then obtain i where i: "i \<in> {1..?n - 1}" "y = (if i = ?p then ?x else slot (snd mh) i)"
        by (auto simp: slots_def V)
      then show "y \<in> slots (snd mh) - {t}"
        using inj[of "if i = ?p then ?n else i" ?p] p by (auto simp: slots_def split: if_splits)
    next
      assume y: "y \<in> slots (snd mh) - {t}"
      then obtain i where i: "i \<in> {1..?n}" "y = slot (snd mh) i" by (auto simp: slots_def)
      have "i \<noteq> ?p" using i y p(1) by auto
      then show "y \<in> slots (snd V)"
        using i p unfolding slots_def V
        by (intro image_eqI[of _ _ "if i = ?n then ?p else i"]) auto
    qed
    then show ?thesis by blast
  qed
  have s: "sifted V mh1" and o: "heap_ord (exps V) (slot (snd mh1)) (heap_size (snd V))"
    using replace_ord[OF ord p(2,3)] up_heap_sifts[OF offV p(2)] down_heap_sifts[OF offV p(2)] p V
    by (cases up; auto simp: up_def mh1)+
  show "heap_ok mh1" using sifted_heap_ok[OF s o] V lim by simp
  show "slots (snd mh1) = slots (snd mh) - {t}" "heap_limit (snd mh1) = heap_limit (snd mh)"
    using s slV V by (auto simp: sifted_def)
  show "rc \<longleftrightarrow> slot (snd mh) 1 = t" using rc top_offset[OF off t] by simp
  have "offsets_changed (slots (snd mh)) (fst mh) (fst V)"
    using set_offset_changed[of ?x] p by (auto simp: V slots_def)
  moreover have "offsets_changed (slots (snd mh)) (fst V) (fst mh1)"
    using sifted_changed[OF s] slV by (auto intro: offsets_changed_mono)
  ultimately show "offsets_changed (slots (snd mh)) (fst mh) (fst mh1)" by (rule offsets_changed_trans)
qed


lemma remove_from_heap_spec:
  assumes "heap_ok mh" "t \<in> slots (snd mh)" "remove_from_heap mh t = (rc, mh1)"
  shows "heap_ok mh1" "slots (snd mh1) = slots (snd mh) - {t}" "offsets_changed (slots (snd mh)) (fst mh) (fst mh1)"
    "heap_limit (snd mh1) = heap_limit (snd mh)" "rc \<longleftrightarrow> slot (snd mh) 1 = t"
  using remove_from_heap_last[OF assms(1,2) _ assms(3)] remove_from_heap_inner[OF assms(1,2) _ assms(3)]
  by (cases "heap_offset (fst mh t) = heap_size (snd mh)"; simp)+

end
