(* ===== verification/Timer_Queue.thy ===== *)
theory Timer_Queue
  imports Timer_Heap
begin

text \<open>A CPU's queue of timers, the heap with the overflow list: its invariant, and what adding and
  removing an entry does.\<close>

section \<open>The overflow list\<close>

abbreviation expiry_sorted :: "tstore \<Rightarrow> tid list \<Rightarrow> bool" where
  "expiry_sorted m xs \<equiv> sorted (map (\<lambda>t. expires (m t)) xs)"

lemma remove_from_list_Done:
  "t \<in> set xs \<Longrightarrow> remove_from_list xs t = Done (hd xs = t, remove1 t xs)"
  by (induction xs) (auto simp: outcome_simps)

lemma add_to_list_set: "set (snd (add_to_list m xs t)) = insert t (set xs)"
  by (induction xs) auto

lemma add_to_list_distinct: "distinct xs \<Longrightarrow> t \<notin> set xs \<Longrightarrow> distinct (snd (add_to_list m xs t))"
  by (induction xs) (auto simp: add_to_list_set)

lemma add_to_list_sorted: "expiry_sorted m xs \<Longrightarrow> expiry_sorted m (snd (add_to_list m xs t))"
  by (induction xs) (fastforce simp: add_to_list_set)+

lemma add_to_list_first: "fst (add_to_list m xs t) \<or> (\<exists>u \<in> set xs. expires (m u) \<le> expires (m t))"
  by (cases xs) auto

section \<open>The invariant of a queue\<close>

text \<open>The limits that growing an empty heap by a factor of 16 goes through.\<close>

definition heap_limits :: "nat set" where
  "heap_limits = {0, 15, 255, 4095, 65535}"

text \<open>The timers in \<open>P\<close> are marked as listed but on no list, as in the middle of moving them to the heap.\<close>

definition queue_pend :: "tid set \<Rightarrow> tstore \<Rightarrow> timers \<Rightarrow> cpuid \<Rightarrow> bool" where
  "queue_pend P m ts c \<longleftrightarrow> heap_ok (m, heap ts) \<and> heap_limit (heap ts) \<in> heap_limits \<and>
     slots (heap ts) = {t. status (m t) = TIMER_STATUS_in_heap \<and> cpu (m t) = c} \<and>
     distinct (tlist ts) \<and> expiry_sorted m (tlist ts) \<and>
     set (tlist ts) = {t. status (m t) = TIMER_STATUS_in_list \<and> cpu (m t) = c} - P"

abbreviation queue_ok :: "tstore \<Rightarrow> timers \<Rightarrow> cpuid \<Rightarrow> bool" where
  "queue_ok \<equiv> queue_pend {}"

text \<open>The status of \<open>t\<close> is set; of the other timers of CPU \<open>c\<close> at most the offset changes.\<close>

definition touched :: "tid \<Rightarrow> timer_status \<Rightarrow> cpuid \<Rightarrow> tstore \<Rightarrow> tstore \<Rightarrow> bool" where
  "touched t st c m m1 \<longleftrightarrow>
     (\<forall>x. expires (m1 x) = expires (m x) \<and> cpu (m1 x) = cpu (m x) \<and> callback (m1 x) = callback (m x) \<and>
        status (m1 x) = (if x = t then st else status (m x))) \<and>
     (\<forall>x. cpu (m x) \<noteq> c \<longrightarrow> m1 x = m x)"

lemma touched_simps:
  assumes "touched t st c m m1"
  shows "expires (m1 x) = expires (m x)" "cpu (m1 x) = cpu (m x)" "callback (m1 x) = callback (m x)"
    "status (m1 x) = (if x = t then st else status (m x))"
  using assms by (simp_all add: touched_def)

lemma touchedI:
  assumes "offsets_changed S m m1" "\<And>x. x \<in> S \<Longrightarrow> cpu (m x) = c" "cpu (m t) = c"
  shows "touched t st c m (set_status m1 t st)"
proof -
  have "m1 x = m x" if "cpu (m x) \<noteq> c" for x
    using that assms(1,2) by (auto simp: offsets_changed_def)
  then show ?thesis
    using offsets_changed_simps[OF assms(1)] assms(3) by (auto simp: touched_def set_status_def)
qed

lemma touched_status:
  "touched t st0 c m m1 \<Longrightarrow> cpu (m t) = c \<Longrightarrow> touched t st c m (set_status m1 t st)"
  by (auto simp: touched_def set_status_def)

lemma heap_ok_cong:
  assumes "\<And>x. x \<in> slots h \<Longrightarrow> m1 x = m x" "heap_ok (m, h)"
  shows "heap_ok (m1, h)"
proof -
  have eq: "m1 (slot h i) = m (slot h i)" if "i \<in> {1..heap_size h}" for i
    using assms(1) that by (simp add: slots_def)
  have "heap_ord (\<lambda>x. expires (m1 x)) (slot h) (heap_size h)"
    unfolding heap_ord_def
  proof (intro allI impI)
    fix i assume i: "2 \<le> i \<and> i \<le> heap_size h"
    then have "i div 2 \<in> {1..heap_size h}" "i \<in> {1..heap_size h}" by auto
    then show "expires (m1 (slot h (i div 2))) \<le> expires (m1 (slot h i))"
      using eq assms(2) i by (simp add: heap_ok_def heap_ord_def)
  qed
  then show ?thesis using assms(2) eq by (simp add: heap_ok_def offsets_ok_def)
qed

lemma queue_ok_other:
  assumes "queue_ok m ts c1" "touched t st c m m1" "c1 \<noteq> c" "cpu (m t) = c"
  shows "queue_ok m1 ts c1"
proof -
  note eq = touched_simps[OF assms(2)]
  have same: "m1 x = m x" if "cpu (m x) = c1" for x
    using assms(2,3) that by (auto simp: touched_def)
  have "heap_ok (m1, heap ts)"
    using assms(1) same by (intro heap_ok_cong[of "heap ts" m1 m]) (auto simp: queue_pend_def)
  moreover have "status (m1 x) = s \<and> cpu (m1 x) = c1 \<longleftrightarrow> status (m x) = s \<and> cpu (m x) = c1" for x s
    using eq assms(3,4) by auto
  ultimately show ?thesis using assms(1) by (simp add: queue_pend_def eq)
qed


lemma touched_offsets:
  assumes "touched t st c m m1" "offsets_changed S m1 m2" "\<And>x. x \<in> S \<Longrightarrow> cpu (m x) = c"
  shows "touched t st c m m2"
proof -
  have "m2 x = m x" if "cpu (m x) \<noteq> c" for x
  proof -
    have "m2 x = m1 x" using that assms(2,3) unfolding offsets_changed_def by blast
    then show ?thesis using that assms(1) by (simp add: touched_def)
  qed
  then show ?thesis
    using offsets_changed_simps[OF assms(2)] assms(1) by (simp add: touched_def)
qed

section \<open>Adding an entry\<close>

lemma heap_ok_status: "heap_ok (set_status m t st, h) \<longleftrightarrow> heap_ok (m, h)"
proof -
  have "expires (set_status m t st x) = expires (m x)" "heap_offset (set_status m t st x) = heap_offset (m x)" for x
    by (simp_all add: set_status_def)
  then show ?thesis by (simp add: heap_ok_def offsets_ok_def)
qed

lemma add_entry_spec:
  assumes ok: "queue_pend P m ts c" and P: "t \<notin> P" and st: "status (m t) = TIMER_STATUS_inactive" and c: "cpu (m t) = c"
  obtains rc m1 ts1 st1 where "add_entry m ts t = Done (rc, m1, ts1)" "queue_pend P m1 ts1 c"
    "touched t st1 c m m1" "st1 = TIMER_STATUS_in_heap \<or> st1 = TIMER_STATUS_in_list"
    "rc \<or> (\<exists>u. status (m u) = st1 \<and> cpu (m u) = c \<and> expires (m u) \<le> expires (m t))"
    "running ts1 = running ts"
proof -
  let ?h = "heap ts"
  define m0 where "m0 = set_status (set_offset m t 0) t TIMER_STATUS_in_heap"
  have hk: "heap_ok (m, ?h)" and sl: "slots ?h = {x. status (m x) = TIMER_STATUS_in_heap \<and> cpu (m x) = c}"
    and ls: "set (tlist ts) = {x. status (m x) = TIMER_STATUS_in_list \<and> cpu (m x) = c} - P"
    and lim: "heap_limit ?h \<in> heap_limits"
    and srt: "distinct (tlist ts)" "expiry_sorted m (tlist ts)"
    using ok by (auto simp: queue_pend_def)
  have new: "t \<notin> slots ?h" "t \<notin> set (tlist ts)" using sl ls st by auto
  have T0: "touched t TIMER_STATUS_in_heap c m m0"
    unfolding m0_def by (rule touchedI[OF set_offset_changed[of t "{t}"]]) (use c in auto)
  have hk0: "heap_ok (m0, ?h)"
    by (rule heap_ok_cong[OF _ hk]) (use new in \<open>auto simp: m0_def set_status_def set_offset_def\<close>)
  obtain rc m2 h2 where add: "add_to_heap (m0, ?h) t = (rc, m2, h2)" by (metis prod_cases3)
  show ?thesis
  proof (cases "heap_size ?h = heap_limit ?h")
    case False
    note a = add_to_heap_spec[OF hk0 _ _ add, simplified, OF False new(1)]
    have T: "touched t TIMER_STATUS_in_heap c m m2"
      using a(5) sl c by (intro touched_offsets[OF T0]) auto
    note e = touched_simps[OF T]
    have "queue_pend P m2 (ts\<lparr>heap := h2\<rparr>) c"
      using a(1,2,3) sl ls lim srt st c by (auto simp: queue_pend_def e)
    moreover have "add_entry m ts t = Done (rc, m2, ts\<lparr>heap := h2\<rparr>)"
      using st add a(4) by (simp add: add_entry_def bug_on_def m0_def[symmetric] Let_def)
    moreover have "rc \<or> (\<exists>u. status (m u) = TIMER_STATUS_in_heap \<and> cpu (m u) = c \<and> expires (m u) \<le> expires (m t))"
    proof -
      have h2: "offsets_ok (m2, h2)" "heap_ord (\<lambda>x. expires (m2 x)) (slot h2) (heap_size h2)"
        using a(1) by (auto simp: heap_ok_def)
      have "t \<in> slots h2" using a(2) by simp
      then obtain i where i: "i \<in> {1..heap_size h2}" "slot h2 i = t" by (auto simp: slots_def)
      have "expires (m (slot h2 1)) \<le> expires (m t)"
        using heap_ord_top[OF h2(2), of i] i e by auto
      moreover have "slot h2 1 \<in> slots h2" using i by (simp add: slots_def)
      then have "slot h2 1 \<in> insert t (slots ?h)" using a(2) by simp
      ultimately show ?thesis using a(6) sl by auto
    qed
    ultimately show thesis using that T by simp
  next
    case True
    have m2: "m2 = m0" "h2 = ?h" using add add_to_heap_full[of "(m0, ?h)" t] True by auto
    define m3 where "m3 = set_status m0 t TIMER_STATUS_in_list"
    have T: "touched t TIMER_STATUS_in_list c m m3"
      unfolding m3_def using touched_status[OF T0 c] .
    note e = touched_simps[OF T]
    obtain r xs where l: "add_to_list m3 (tlist ts) t = (r, xs)" by fastforce
    have xs: "set xs = insert t (set (tlist ts))" "distinct xs" "expiry_sorted m3 xs"
      using add_to_list_set[of m3 "tlist ts" t] add_to_list_distinct[of "tlist ts" t m3]
        add_to_list_sorted[of m3 "tlist ts" t] l srt new by (auto simp: e)
    have "heap_ok (m3, ?h)" using hk0 by (simp add: m3_def heap_ok_status)
    then have "queue_pend P m3 (ts\<lparr>heap := ?h, tlist := xs\<rparr>) c"
      using xs sl ls st c P lim by (auto simp: queue_pend_def e)
    moreover have "add_entry m ts t = Done (r, m3, ts\<lparr>heap := ?h, tlist := xs\<rparr>)"
    proof -
      have "heap_offset (m0 t) = 0" by (simp add: m0_def set_status_def set_offset_def)
      then show ?thesis using st add m2 l
        by (simp add: add_entry_def bug_on_def m0_def[symmetric] m3_def[symmetric] Let_def)
    qed
    moreover have "r \<or> (\<exists>u. status (m u) = TIMER_STATUS_in_list \<and> cpu (m u) = c \<and> expires (m u) \<le> expires (m t))"
      using add_to_list_first[of m3 "tlist ts" t] l ls by (auto simp: e)
    ultimately show thesis using that T by simp
  qed
qed

section \<open>Removing an entry\<close>

lemma remove_entry_spec:
  assumes ok: "queue_ok m ts c" and st: "active_timer (m t)" and c: "cpu (m t) = c"
  obtains rc m1 ts1 where "remove_entry m ts t = Done (rc, m1, ts1)" "queue_ok m1 ts1 c"
    "touched t TIMER_STATUS_inactive c m m1" "running ts1 = running ts"
proof -
  let ?h = "heap ts"
  have hk: "heap_ok (m, ?h)" and sl: "slots ?h = {x. status (m x) = TIMER_STATUS_in_heap \<and> cpu (m x) = c}"
    and ls: "set (tlist ts) = {x. status (m x) = TIMER_STATUS_in_list \<and> cpu (m x) = c}"
    and lim: "heap_limit ?h \<in> heap_limits"
    and srt: "distinct (tlist ts)" "expiry_sorted m (tlist ts)"
    using ok by (auto simp: queue_pend_def)
  consider (heap) "status (m t) = TIMER_STATUS_in_heap" | (list) "status (m t) = TIMER_STATUS_in_list"
    using st by (auto simp: active_timer_def)
  then show thesis
  proof cases
    case heap
    obtain rc m1 h1 where rem: "remove_from_heap (m, ?h) t = (rc, m1, h1)" by (metis prod_cases3)
    note r = remove_from_heap_spec[OF hk _ rem, simplified]
    have t: "t \<in> slots ?h" using sl heap c by simp
    let ?m = "set_status m1 t TIMER_STATUS_inactive"
    have T: "touched t TIMER_STATUS_inactive c m ?m"
      by (rule touchedI[OF r(3)[OF t]]) (use sl c in auto)
    note e = touched_simps[OF T]
    have "heap_ok (?m, h1)" using r(1)[OF t] by (simp add: heap_ok_status)
    then have "queue_ok ?m (ts\<lparr>heap := h1\<rparr>) c"
      using r(2,4)[OF t] sl ls lim srt heap c by (auto simp: queue_pend_def e)
    then show thesis using that T heap rem by (simp add: remove_entry_def)
  next
    case list
    let ?m = "set_status m t TIMER_STATUS_inactive" and ?xs = "remove1 t (tlist ts)"
    have t: "t \<in> set (tlist ts)" using ls list c by simp
    have T: "touched t TIMER_STATUS_inactive c m ?m"
      using touchedI[of "{}" m m c t] c by simp
    note e = touched_simps[OF T]
    have "expiry_sorted m ?xs" using srt(2) by (simp add: sorted_map_remove1)
    then have "queue_ok ?m (ts\<lparr>tlist := ?xs\<rparr>) c"
      using hk sl ls lim srt list by (auto simp: queue_pend_def e heap_ok_status)
    then show thesis using that T list remove_from_list_Done[OF t] by (simp add: remove_entry_def outcome_simps)
  qed
qed

end
