(* ===== verification/Timer_Ops.thy ===== *)
theory Timer_Ops
  imports Timer_Queue
begin

text \<open>The operations on timers over the queues of all CPUs: the invariant of the state, and that no
  operation leaves an active timer behind the deadline its CPU is programmed for.\<close>

section \<open>The invariant of the state\<close>

definition tinv :: "tstate \<Rightarrow> bool" where
  "tinv s \<longleftrightarrow> (\<forall>c. queue_ok (tm s) (per_cpu_timers s c) c)"

text \<open>The timers of one kind on a CPU are covered by a deadline: the softirq is raised, or none expires before.\<close>

definition cov :: "timer_status \<Rightarrow> int \<Rightarrow> tstate \<Rightarrow> cpuid \<Rightarrow> bool" where
  "cov st d s c \<longleftrightarrow> TIMER_SOFTIRQ s c \<or>
     (\<forall>t. status (tm s t) = st \<and> cpu (tm s t) = c \<longrightarrow> d \<noteq> 0 \<and> d \<le> expires (tm s t))"

definition covers :: "int \<Rightarrow> tstate \<Rightarrow> cpuid \<Rightarrow> bool" where
  "covers d s c \<longleftrightarrow> cov TIMER_STATUS_in_heap d s c \<and> cov TIMER_STATUS_in_list d s c"

definition covered :: "tstate \<Rightarrow> cpuid \<Rightarrow> bool" where
  "covered s c \<longleftrightarrow> covers (timer_deadline s c) s c"

text \<open>A step of another part of the system, seen from the softirq of CPU \<open>c\<close>.\<close>

definition keeps_cov :: "tstate \<Rightarrow> tstate \<Rightarrow> cpuid \<Rightarrow> bool" where
  "keeps_cov s s1 c \<longleftrightarrow>
     (\<forall>d st. st = TIMER_STATUS_in_heap \<or> st = TIMER_STATUS_in_list \<longrightarrow> cov st d s c \<longrightarrow> cov st d s1 c)"

definition rely :: "cpuid \<Rightarrow> tstate \<Rightarrow> tstate \<Rightarrow> bool" where
  "rely c s s1 \<longleftrightarrow> (tinv s \<longrightarrow> tinv s1 \<and> keeps_cov s s1 c \<and> (\<forall>c1. c1 \<noteq> c \<longrightarrow> covered s c1 \<longrightarrow> covered s1 c1))"

text \<open>A step that programs no deadline.\<close>

definition steady :: "tstate \<Rightarrow> tstate \<Rightarrow> bool" where
  "steady s s1 \<longleftrightarrow> timer_deadline s1 = timer_deadline s \<and> (\<forall>c. keeps_cov s s1 c) \<and>
     (\<forall>c. running (per_cpu_timers s1 c) = running (per_cpu_timers s c))"

lemma keeps_cov_trans: "keeps_cov s s1 c \<Longrightarrow> keeps_cov s1 s2 c \<Longrightarrow> keeps_cov s s2 c"
  by (simp add: keeps_cov_def)

lemma steady_refl [simp]: "steady s s"
  by (simp add: steady_def keeps_cov_def)

lemma steady_trans: "steady s s1 \<Longrightarrow> steady s1 s2 \<Longrightarrow> steady s s2"
  by (auto simp: steady_def intro: keeps_cov_trans)

lemma rely_trans: "rely c s s1 \<Longrightarrow> rely c s1 s2 \<Longrightarrow> rely c s s2"
  by (auto simp: rely_def intro: keeps_cov_trans)

lemma steady_covered: "steady s s1 \<Longrightarrow> covered s c \<Longrightarrow> covered s1 c"
  by (simp add: steady_def keeps_cov_def covered_def covers_def)

lemma steady_rely: "tinv s1 \<Longrightarrow> steady s s1 \<Longrightarrow> rely c s s1"
  by (auto simp: rely_def steady_covered) (simp add: steady_def)

section \<open>Changing one queue\<close>

lemma tinv_put:
  assumes "tinv s" "queue_ok m ts c" "touched t st c (tm s) m" "cpu (tm s t) = c"
  shows "tinv (put_queue s c m ts)"
  using assms(1,2) queue_ok_other[OF _ assms(3) _ assms(4)] by (simp add: tinv_def put_queue_def)

lemma put_queue_simps [simp]:
  "tm (put_queue s c m ts) = m" "TIMER_SOFTIRQ (put_queue s c m ts) = TIMER_SOFTIRQ s"
  "timer_deadline (put_queue s c m ts) = timer_deadline s"
  "per_cpu_timers (put_queue s c m ts) = (per_cpu_timers s)(c := ts)"
  by (simp_all add: put_queue_def)

lemma raise_simps [simp]:
  "tm (raise_timer_softirq s r c) = tm s" "timer_deadline (raise_timer_softirq s r c) = timer_deadline s"
  "per_cpu_timers (raise_timer_softirq s r c) = per_cpu_timers s"
  "TIMER_SOFTIRQ (raise_timer_softirq s r c) c1 \<longleftrightarrow> TIMER_SOFTIRQ s c1 \<or> r \<and> c1 = c"
  by (auto simp: raise_timer_softirq_def)

lemma tinv_raise [simp]: "tinv (raise_timer_softirq s r c) = tinv s"
  by (simp add: tinv_def)

lemma inactive_update:
  assumes "tinv s" "\<not> active_timer (tm s t)" "\<not> active_timer x"
  shows "tinv (s\<lparr>tm := (tm s)(t := x)\<rparr>)" "steady s (s\<lparr>tm := (tm s)(t := x)\<rparr>)"
proof -
  let ?m = "(tm s)(t := x)"
  have same: "status (?m y) = st \<and> cpu (?m y) = c \<longleftrightarrow> status (tm s y) = st \<and> cpu (tm s y) = c"
      if "st = TIMER_STATUS_in_heap \<or> st = TIMER_STATUS_in_list" for y st c
    using assms(2,3) that by (auto simp: active_timer_def)
  have "queue_ok ?m (per_cpu_timers s c) c" for c
  proof -
    have q: "queue_ok (tm s) (per_cpu_timers s c) c" using assms(1) by (simp add: tinv_def)
    have n: "t \<notin> slots (heap (per_cpu_timers s c))" "t \<notin> set (tlist (per_cpu_timers s c))"
      using q assms(2) by (auto simp: queue_pend_def active_timer_def)
    have "heap_ok (?m, heap (per_cpu_timers s c))"
      by (rule heap_ok_cong[of _ _ "tm s"]) (use q n in \<open>auto simp: queue_pend_def\<close>)
    moreover have "map (\<lambda>t. expires (?m t)) (tlist (per_cpu_timers s c)) = map (\<lambda>t. expires (tm s t)) (tlist (per_cpu_timers s c))"
      using n by simp
    then have "expiry_sorted ?m (tlist (per_cpu_timers s c))" using q unfolding queue_pend_def by presburger
    ultimately show ?thesis using q same unfolding queue_pend_def by (simp del: fun_upd_apply)
  qed
  then show "tinv (s\<lparr>tm := ?m\<rparr>)" by (simp add: tinv_def)
  have e: "expires (?m y) = expires (tm s y)" if "active_timer (tm s y)" for y using that assms(2) by auto
  have "keeps_cov s (s\<lparr>tm := ?m\<rparr>) c" for c
    unfolding keeps_cov_def
  proof (intro allI impI)
    fix d st assume st: "st = TIMER_STATUS_in_heap \<or> st = TIMER_STATUS_in_list" and "cov st d s c"
    then show "cov st d (s\<lparr>tm := ?m\<rparr>) c"
      unfolding cov_def using same[OF st] e by (auto simp: active_timer_def simp del: fun_upd_apply)
  qed
  then show "steady s (s\<lparr>tm := ?m\<rparr>)" by (simp add: steady_def)
qed

lemma remove_keeps_cov:
  assumes "touched t TIMER_STATUS_inactive c (tm s) m"
  shows "keeps_cov s (raise_timer_softirq (put_queue s c m ts) r c) c1"
  using touched_simps[OF assms] by (auto simp: keeps_cov_def cov_def)

lemma add_keeps_cov:
  assumes T: "touched t st1 c (tm s) m" and in_: "status (tm s t) = TIMER_STATUS_inactive" and c: "cpu (tm s t) = c"
    and r: "r \<or> (\<exists>u. status (tm s u) = st1 \<and> cpu (tm s u) = c \<and> expires (tm s u) \<le> expires (tm s t))"
  shows "keeps_cov s (raise_timer_softirq (put_queue s c m ts) r c) c1"
  unfolding keeps_cov_def
proof (intro allI impI)
  fix d st assume cov: "cov st d s c1" and st: "st = TIMER_STATUS_in_heap \<or> st = TIMER_STATUS_in_list"
  show "cov st d (raise_timer_softirq (put_queue s c m ts) r c) c1"
    unfolding cov_def raise_simps put_queue_simps touched_simps[OF T]
  proof (cases "TIMER_SOFTIRQ s c1 \<or> r \<and> c1 = c")
    case False
    then have old: "d \<noteq> 0 \<and> d \<le> expires (tm s u)" if "status (tm s u) = st" "cpu (tm s u) = c1" for u
      using cov that by (auto simp: cov_def)
    have "d \<noteq> 0 \<and> d \<le> expires (tm s t)" if "st1 = st" "c = c1"
      using r False that old by force
    then show "(TIMER_SOFTIRQ s c1 \<or> r \<and> c1 = c) \<or>
        (\<forall>ta. (if ta = t then st1 else status (tm s ta)) = st \<and> cpu (tm s ta) = c1 \<longrightarrow> d \<noteq> 0 \<and> d \<le> expires (tm s ta))"
      using old c by auto
  qed simp
qed

section \<open>The operations\<close>

lemma stop_timer'_spec:
  assumes "tinv s" "active_timer (tm s t)"
  obtains s1 where "stop_timer' s t = Done s1" "tinv s1" "steady s s1"
    "touched t TIMER_STATUS_inactive (cpu (tm s t)) (tm s) (tm s1)"
proof -
  let ?c = "cpu (tm s t)"
  have "queue_ok (tm s) (per_cpu_timers s ?c) ?c" using assms(1) by (simp add: tinv_def)
  then obtain rc m ts where r: "remove_entry (tm s) (per_cpu_timers s ?c) t = Done (rc, m, ts)"
    "queue_ok m ts ?c" "touched t TIMER_STATUS_inactive ?c (tm s) m" "running ts = running (per_cpu_timers s ?c)"
    using remove_entry_spec[where m = "tm s", OF _ assms(2) refl] by metis
  let ?s = "raise_timer_softirq (put_queue s ?c m ts) rc ?c"
  have "stop_timer' s t = Done ?s" using r(1) by (simp add: stop_timer'_def outcome_simps Let_def)
  moreover have "tinv ?s" using tinv_put[OF assms(1) r(2,3) refl] by simp
  moreover have "steady s ?s" using remove_keeps_cov[OF r(3)] r(4) by (simp add: steady_def)
  ultimately show thesis using that r(3) by simp
qed

lemma add_timer'_spec:
  assumes "tinv s" "status (tm s t) = TIMER_STATUS_inactive"
  obtains s1 st1 where "add_timer' s t = Done s1" "tinv s1" "steady s s1"
    "touched t st1 (cpu (tm s t)) (tm s) (tm s1)" "st1 = TIMER_STATUS_in_heap \<or> st1 = TIMER_STATUS_in_list"
proof -
  let ?c = "cpu (tm s t)"
  have "queue_ok (tm s) (per_cpu_timers s ?c) ?c" using assms(1) by (simp add: tinv_def)
  then obtain rc m ts st1 where r: "add_entry (tm s) (per_cpu_timers s ?c) t = Done (rc, m, ts)"
    "queue_ok m ts ?c" "touched t st1 ?c (tm s) m" "st1 = TIMER_STATUS_in_heap \<or> st1 = TIMER_STATUS_in_list"
    "rc \<or> (\<exists>u. status (tm s u) = st1 \<and> cpu (tm s u) = ?c \<and> expires (tm s u) \<le> expires (tm s t))"
    "running ts = running (per_cpu_timers s ?c)"
    using add_entry_spec[where m = "tm s" and P = "{}", OF _ _ assms(2) refl] by (metis empty_iff)
  let ?s = "raise_timer_softirq (put_queue s ?c m ts) rc ?c"
  have "add_timer' s t = Done ?s" using r(1) by (simp add: add_timer'_def outcome_simps Let_def)
  moreover have "tinv ?s" using tinv_put[OF assms(1) r(2,3) refl] by simp
  moreover have "steady s ?s" using add_keeps_cov[OF r(3) assms(2) refl r(5)] r(6) by (simp add: steady_def)
  ultimately show thesis using that r(3,4) by simp
qed


text \<open>Of all timers but \<open>t\<close>, at most the offset in a heap differs.\<close>

definition same_others :: "tid \<Rightarrow> tstore \<Rightarrow> tstore \<Rightarrow> bool" where
  "same_others t m m1 \<longleftrightarrow> (\<forall>x. x \<noteq> t \<longrightarrow> expires (m1 x) = expires (m x) \<and> cpu (m1 x) = cpu (m x) \<and>
     callback (m1 x) = callback (m x) \<and> status (m1 x) = status (m x))"

lemma touched_others: "touched t st c m m1 \<Longrightarrow> same_others t m m1"
  by (simp add: touched_def same_others_def)

lemma same_others_trans: "same_others t m m1 \<Longrightarrow> same_others t m1 m2 \<Longrightarrow> same_others t m m2"
  by (simp add: same_others_def)

lemma same_others_upd: "same_others t m (m(t := x))"
  by (simp add: same_others_def)

text \<open>The prologue of every operation: take the timer off its queue if it is on one.\<close>

lemma stop_timer_spec:
  assumes "tinv s"
  obtains s1 where "stop_timer s t = Done s1" "tinv s1" "steady s s1" "same_others t (tm s) (tm s1)"
    "expires (tm s1 t) = expires (tm s t)" "cpu (tm s1 t) = cpu (tm s t)" "callback (tm s1 t) = callback (tm s t)"
    "status (tm s1 t) = (if status (tm s t) = TIMER_STATUS_killed then TIMER_STATUS_killed else TIMER_STATUS_inactive)"
proof (cases "active_timer (tm s t)")
  case True
  then obtain s1 where "stop_timer' s t = Done s1" "tinv s1" "steady s s1"
      "touched t TIMER_STATUS_inactive (cpu (tm s t)) (tm s) (tm s1)"
    using stop_timer'_spec[OF assms] by metis
  then show thesis
    using that[of s1] True touched_others touched_simps[of t TIMER_STATUS_inactive]
    by (auto simp: stop_timer_def active_timer_def)
next
  case False
  then have "status (tm s t) = TIMER_STATUS_killed \<or> status (tm s t) = TIMER_STATUS_inactive"
    by (cases "status (tm s t)") (auto simp: active_timer_def)
  then show thesis using that[of s] False assms by (auto simp: stop_timer_def same_others_def)
qed

lemma set_timer_spec:
  assumes "tinv s"
  obtains s1 where "set_timer s t e = Done s1" "tinv s1" "steady s s1" "same_others t (tm s) (tm s1)"
    "expires (tm s1 t) = e" "cpu (tm s1 t) = cpu (tm s t)" "callback (tm s1 t) = callback (tm s t)"
    "if status (tm s t) = TIMER_STATUS_killed then status (tm s1 t) = TIMER_STATUS_killed else active_timer (tm s1 t)"
proof -
  obtain s1 where s1: "stop_timer s t = Done s1" "tinv s1" "steady s s1" "same_others t (tm s) (tm s1)"
    "cpu (tm s1 t) = cpu (tm s t) \<and> callback (tm s1 t) = callback (tm s t)"
    "status (tm s1 t) = (if status (tm s t) = TIMER_STATUS_killed then TIMER_STATUS_killed else TIMER_STATUS_inactive)"
    using stop_timer_spec[OF assms] by metis
  let ?s2 = "s1\<lparr>tm := (tm s1)(t := (tm s1 t)\<lparr>expires := e\<rparr>)\<rparr>"
  have na: "\<not> active_timer (tm s1 t)" "\<not> active_timer ((tm s1 t)\<lparr>expires := e\<rparr>)"
    using s1(6) by (auto simp: active_timer_def)
  have s2: "tinv ?s2" "steady s ?s2" "same_others t (tm s) (tm ?s2)"
    using inactive_update[OF s1(2) na] s1(3,4) steady_trans same_others_trans same_others_upd by auto
  have eq: "set_timer s t e = (if status (tm ?s2 t) \<noteq> TIMER_STATUS_killed then add_timer' ?s2 t else Done ?s2)"
    using s1(1) by (simp add: set_timer_def stop_timer_def[symmetric] outcome_simps)
  show thesis
  proof (cases "status (tm s t) = TIMER_STATUS_killed")
    case True
    then show thesis using that[of ?s2] eq s2 s1(5,6) by simp
  next
    case False
    then have "status (tm ?s2 t) = TIMER_STATUS_inactive" using s1(6) by simp
    then obtain s3 st1 where s3: "add_timer' ?s2 t = Done s3" "tinv s3" "steady ?s2 s3"
        "touched t st1 (cpu (tm ?s2 t)) (tm ?s2) (tm s3)" "st1 = TIMER_STATUS_in_heap \<or> st1 = TIMER_STATUS_in_list"
      using add_timer'_spec[OF s2(1)] by metis
    have "steady s s3" "same_others t (tm s) (tm s3)"
      using steady_trans[OF s2(2) s3(3)] same_others_trans[OF s2(3) touched_others[OF s3(4)]] by auto
    moreover have "expires (tm s3 t) = e" "cpu (tm s3 t) = cpu (tm s t)" "callback (tm s3 t) = callback (tm s t)"
      "status (tm s3 t) = st1"
      using touched_simps[OF s3(4), of t] s1(5) by auto
    moreover have "set_timer s t e = Done s3" using eq s3(1) False s1(6) by simp
    ultimately show thesis using that[of s3] s3(2,5) False by (auto simp: active_timer_def)
  qed
qed

lemma migrate_timer_spec:
  assumes "tinv s" "new < 2 ^ 16"
  obtains s1 where "migrate_timer s t new = Done s1" "tinv s1" "steady s s1" "same_others t (tm s) (tm s1)"
    "expires (tm s1 t) = expires (tm s t)" "cpu (tm s1 t) = new" "active_timer (tm s1 t) = active_timer (tm s t)"
    "callback (tm s1 t) = callback (tm s t)"
    "status (tm s1 t) = TIMER_STATUS_killed \<longleftrightarrow> status (tm s t) = TIMER_STATUS_killed"
proof -
  obtain s1 where s1: "stop_timer s t = Done s1" "tinv s1" "steady s s1" "same_others t (tm s) (tm s1)"
    "expires (tm s1 t) = expires (tm s t) \<and> callback (tm s1 t) = callback (tm s t)"
    "status (tm s1 t) = (if status (tm s t) = TIMER_STATUS_killed then TIMER_STATUS_killed else TIMER_STATUS_inactive)"
    using stop_timer_spec[OF assms(1)] by metis
  let ?s2 = "set_cpu s1 t new"
  have na: "\<not> active_timer (tm s1 t)" "\<not> active_timer ((tm s1 t)\<lparr>cpu := new mod 2 ^ 16\<rparr>)"
    using s1(6) by (auto simp: active_timer_def)
  have s2: "tinv ?s2" "steady s ?s2" "same_others t (tm s) (tm ?s2)" "expires (tm ?s2 t) = expires (tm s t)"
      "cpu (tm ?s2 t) = new" "status (tm ?s2 t) = status (tm s1 t)" "callback (tm ?s2 t) = callback (tm s t)"
    using inactive_update[OF s1(2) na] s1(3,4,5) assms(2) steady_trans same_others_trans same_others_upd
    by (auto simp: set_cpu_def)
  consider (same) "cpu (tm s t) = new" | (active) "cpu (tm s t) \<noteq> new" "active_timer (tm s t)"
    | (idle) "cpu (tm s t) \<noteq> new" "\<not> active_timer (tm s t)" by blast
  then show thesis
  proof cases
    case same
    then show thesis using that[of s] assms(1) by (simp add: migrate_timer_def same_others_def)
  next
    case active
    then have "status (tm ?s2 t) = TIMER_STATUS_inactive" using s1(6) s2(6) by (auto simp: active_timer_def)
    then obtain s3 st1 where s3: "add_timer' ?s2 t = Done s3" "tinv s3" "steady ?s2 s3"
        "touched t st1 (cpu (tm ?s2 t)) (tm ?s2) (tm s3)" "st1 = TIMER_STATUS_in_heap \<or> st1 = TIMER_STATUS_in_list"
      using add_timer'_spec[OF s2(1)] by metis
    have "migrate_timer s t new = Done s3"
      using active s1(1) s3(1) by (simp add: migrate_timer_def stop_timer_def outcome_simps)
    then show thesis
      using that[of s3] s3(2,5) active steady_trans[OF s2(2) s3(3)] same_others_trans[OF s2(3) touched_others[OF s3(4)]]
        touched_simps[OF s3(4), of t] s2(4,5,7) by (auto simp: active_timer_def)
  next
    case idle
    then have "s1 = s" using s1(1) by (simp add: stop_timer_def)
    then show thesis using that[of ?s2] idle s2 s1(6) by (auto simp: migrate_timer_def active_timer_def split: if_splits)
  qed
qed

lemma kill_timer_stop_spec:
  assumes "tinv s" "running (per_cpu_timers s this) \<noteq> Some t"
  obtains s1 where "kill_timer_stop s this t = Done s1" "tinv s1" "steady s s1" "same_others t (tm s) (tm s1)"
    "expires (tm s1 t) = expires (tm s t)" "cpu (tm s1 t) = cpu (tm s t)" "callback (tm s1 t) = callback (tm s t)"
    "status (tm s1 t) = TIMER_STATUS_killed"
proof -
  obtain s1 where s1: "stop_timer s t = Done s1" "tinv s1" "steady s s1" "same_others t (tm s) (tm s1)"
    "expires (tm s1 t) = expires (tm s t)" "cpu (tm s1 t) = cpu (tm s t)" "callback (tm s1 t) = callback (tm s t)"
    "status (tm s1 t) = (if status (tm s t) = TIMER_STATUS_killed then TIMER_STATUS_killed else TIMER_STATUS_inactive)"
    using stop_timer_spec[OF assms(1)] by metis
  let ?s2 = "s1\<lparr>tm := (tm s1)(t := (tm s1 t)\<lparr>status := TIMER_STATUS_killed\<rparr>)\<rparr>"
  have na: "\<not> active_timer (tm s1 t)" "\<not> active_timer ((tm s1 t)\<lparr>status := TIMER_STATUS_killed\<rparr>)"
    using s1(8) by (auto simp: active_timer_def)
  have "kill_timer_stop s this t = Done ?s2"
    using s1(1) assms(2) by (simp add: kill_timer_stop_def stop_timer_def[symmetric] set_status_def bug_on_def outcome_simps)
  then show thesis
    using that[of ?s2] inactive_update[OF s1(2) na] s1(3-7) steady_trans same_others_trans same_others_upd by auto
qed

end
