(* ===== verification/Timer_Softirq.thy ===== *)
theory Timer_Softirq
  imports Timer_Ops
begin

text \<open>The softirq of a CPU: the heap grows and takes in the overflow list, the timers that are due run, and
  the deadline for the rest is programmed.\<close>

section \<open>Growing the heap\<close>

lemma heap_limits_grow:
  assumes "n \<in> heap_limits"
  shows "((n + 1) * 2 ^ 4 - 1) mod 2 ^ 16 \<in> heap_limits" "n \<le> ((n + 1) * 2 ^ 4 - 1) mod 2 ^ 16"
  using assms by (auto simp: heap_limits_def)

lemma grow_heap_spec:
  assumes "tinv s"
  shows "tinv (grow_heap mem s c)" "tm (grow_heap mem s c) = tm s"
    "TIMER_SOFTIRQ (grow_heap mem s c) = TIMER_SOFTIRQ s" "timer_deadline (grow_heap mem s c) = timer_deadline s"
proof -
  let ?h = "heap (per_cpu_timers s c)"
  have q: "queue_ok (tm s) (per_cpu_timers s c) c" using assms by (simp add: tinv_def)
  then have lim: "heap_limit ?h \<in> heap_limits" by (simp add: queue_pend_def)
  let ?h2 = "SET_HEAP_LIMIT ?h ((heap_limit ?h + 1) * 2 ^ 4 - 1)"
  have "heap_ok (tm s, ?h2)" "slots ?h2 = slots ?h" "heap_limit ?h2 \<in> heap_limits"
    using q heap_limits_grow[OF lim] by (auto simp: queue_pend_def heap_ok_def offsets_ok_def SET_HEAP_LIMIT_def slots_def)
  then have "queue_ok (tm s) ((per_cpu_timers s c)\<lparr>heap := ?h2\<rparr>) c"
    using q by (simp add: queue_pend_def)
  then show "tinv (grow_heap mem s c)"
    using assms by (auto simp: grow_heap_def Let_def tinv_def)
  show "tm (grow_heap mem s c) = tm s" "TIMER_SOFTIRQ (grow_heap mem s c) = TIMER_SOFTIRQ s"
    "timer_deadline (grow_heap mem s c) = timer_deadline s"
    by (simp_all add: grow_heap_def Let_def)
qed

section \<open>Taking in the overflow list\<close>

definition shuffled :: "cpuid \<Rightarrow> tstore \<Rightarrow> tstore \<Rightarrow> bool" where
  "shuffled c m m1 \<longleftrightarrow>
     (\<forall>x. expires (m1 x) = expires (m x) \<and> cpu (m1 x) = cpu (m x) \<and> callback (m1 x) = callback (m x) \<and>
        active_timer (m1 x) = active_timer (m x) \<and> (\<not> active_timer (m x) \<longrightarrow> status (m1 x) = status (m x)) \<and>
        (cpu (m x) \<noteq> c \<longrightarrow> m1 x = m x))"

lemma shuffled_refl: "shuffled c m m"
  by (simp add: shuffled_def)

lemma shuffled_trans: "shuffled c m m1 \<Longrightarrow> shuffled c m1 m2 \<Longrightarrow> shuffled c m m2"
  by (simp add: shuffled_def)

lemma move_list_spec:
  assumes "queue_pend (set xs) m ts c" "distinct xs"
    and "\<And>t. t \<in> set xs \<Longrightarrow> status (m t) = TIMER_STATUS_in_list \<and> cpu (m t) = c"
  obtains m1 ts1 where "move_list m ts xs = Done (m1, ts1)" "queue_ok m1 ts1 c" "shuffled c m m1"
    "running ts1 = running ts"
  using assms
proof (induction xs arbitrary: m ts thesis)
  case Nil
  then show ?case using shuffled_refl by simp
next
  case (Cons t xs)
  let ?m = "set_status m t TIMER_STATUS_inactive"
  have t: "status (m t) = TIMER_STATUS_in_list" "cpu (m t) = c" using Cons.prems(4) by auto
  have T: "touched t TIMER_STATUS_inactive c m ?m" using touchedI[of "{}" m m c t] t by simp
  note e = touched_simps[OF T]
  have q: "queue_pend (set xs) ?m ts c"
    using Cons.prems(2,3) t by (auto simp: queue_pend_def heap_ok_status e)
  have "t \<notin> set xs" "status (?m t) = TIMER_STATUS_inactive" "cpu (?m t) = c"
    using Cons.prems(3) t by (auto simp: e)
  from add_entry_spec[OF q this] obtain rc m1 ts1 st1 where a: "add_entry ?m ts t = Done (rc, m1, ts1)"
    "queue_pend (set xs) m1 ts1 c" "touched t st1 c ?m m1" "st1 = TIMER_STATUS_in_heap \<or> st1 = TIMER_STATUS_in_list"
    "running ts1 = running ts" by metis
  note e1 = touched_simps[OF a(3)]
  have "shuffled c m m1"
    using a(3,4) T t by (auto simp: shuffled_def e e1 active_timer_def) (auto simp: touched_def)
  moreover have "\<And>u. u \<in> set xs \<Longrightarrow> status (m1 u) = TIMER_STATUS_in_list \<and> cpu (m1 u) = c"
    using Cons.prems(3,4) by (auto simp: e e1)
  then obtain m2 ts2 where "move_list m1 ts1 xs = Done (m2, ts2)" "queue_ok m2 ts2 c" "shuffled c m1 m2"
      "running ts2 = running ts1"
    using Cons.IH[OF _ a(2)] Cons.prems(3) by (metis distinct.simps(2))
  ultimately show ?case using Cons.prems(1)[of m2 ts2] shuffled_trans a(1,5) by (simp add: outcome_simps)
qed

lemma queue_ok_shuffled:
  "queue_ok m ts c1 \<Longrightarrow> shuffled c m m1 \<Longrightarrow> c1 \<noteq> c \<Longrightarrow> queue_ok m1 ts c1"
proof -
  assume q: "queue_ok m ts c1" and s: "shuffled c m m1" and c: "c1 \<noteq> c"
  have same: "m1 x = m x" if "cpu (m x) = c1" for x using s c that by (simp add: shuffled_def)
  have cp: "cpu (m1 x) = cpu (m x)" "expires (m1 x) = expires (m x)" for x using s by (simp_all add: shuffled_def)
  have "heap_ok (m1, heap ts)"
    by (rule heap_ok_cong[of _ _ m]) (use q same in \<open>auto simp: queue_pend_def\<close>)
  moreover have "status (m1 x) = st \<and> cpu (m1 x) = c1 \<longleftrightarrow> status (m x) = st \<and> cpu (m x) = c1" for x st
    using same cp by metis
  ultimately show ?thesis using q by (simp add: queue_pend_def cp)
qed

text \<open>The softirq up to its loops.\<close>

lemma take_in_list:
  assumes "tinv s"
  obtains m ts where "move_list (tm s) ((per_cpu_timers s c)\<lparr>tlist := []\<rparr>) (tlist (per_cpu_timers s c)) = Done (m, ts)"
    "tinv (put_queue s c m ts)" "shuffled c (tm s) m"
proof -
  let ?ts = "per_cpu_timers s c"
  have q: "queue_ok (tm s) ?ts c" using assms by (simp add: tinv_def)
  have "queue_pend (set (tlist ?ts)) (tm s) (?ts\<lparr>tlist := []\<rparr>) c" "distinct (tlist ?ts)"
    "\<And>t. t \<in> set (tlist ?ts) \<Longrightarrow> status (tm s t) = TIMER_STATUS_in_list \<and> cpu (tm s t) = c"
    using q by (auto simp: queue_pend_def)
  from move_list_spec[OF this] obtain m ts where m: "move_list (tm s) (?ts\<lparr>tlist := []\<rparr>) (tlist ?ts) = Done (m, ts)"
    "queue_ok m ts c" "shuffled c (tm s) m" by metis
  have "tinv (put_queue s c m ts)"
    using assms m(2) queue_ok_shuffled[OF _ m(3)] by (simp add: tinv_def)
  then show thesis using that m by blast
qed

lemma shuffled_covered: "shuffled c (tm s) m \<Longrightarrow> c1 \<noteq> c \<Longrightarrow> covered s c1 \<Longrightarrow> covered (put_queue s c m ts) c1"
  unfolding covered_def covers_def cov_def shuffled_def put_queue_simps by metis

section \<open>Running what is due\<close>

text \<open>Taking a timer that is due off its queue and marking it as running.\<close>

lemma take_off:
  assumes "tinv s" "queue_ok m ts c" "touched t TIMER_STATUS_inactive c (tm s) m" "cpu (tm s t) = c"
  shows "rely c s (set_running (put_queue s c m ts) c r)"
    and "tm (set_running (put_queue s c m ts) c r) = m"
proof -
  let ?s = "set_running (put_queue s c m ts) c r"
  have "queue_ok m (ts\<lparr>running := r\<rparr>) c" using assms(2) by (simp add: queue_pend_def)
  then have inv: "tinv ?s"
    using assms(1) queue_ok_other[OF _ assms(3) _ assms(4)] by (auto simp: tinv_def set_running_def)
  have "keeps_cov s ?s c1" for c1
    using touched_simps[OF assms(3)] by (auto simp: keeps_cov_def cov_def set_running_def)
  then show "rely c s ?s"
    using inv by (simp add: rely_def covered_def covers_def keeps_cov_def) (simp add: set_running_def)
  show "tm ?s = m" by (simp add: set_running_def)
qed

lemma heap_top:
  assumes "queue_ok m ts c" "heap_size (heap ts) \<noteq> 0"
  shows "status (m (slot (heap ts) 1)) = TIMER_STATUS_in_heap" "cpu (m (slot (heap ts) 1)) = c"
    and "\<And>t. status (m t) = TIMER_STATUS_in_heap \<Longrightarrow> cpu (m t) = c \<Longrightarrow> expires (m (slot (heap ts) 1)) \<le> expires (m t)"
proof -
  have sl: "slots (heap ts) = {t. status (m t) = TIMER_STATUS_in_heap \<and> cpu (m t) = c}" "heap_ok (m, heap ts)"
    using assms(1) by (auto simp: queue_pend_def)
  have "slot (heap ts) 1 \<in> slots (heap ts)" using assms(2) by (simp add: slots_def)
  then show "status (m (slot (heap ts) 1)) = TIMER_STATUS_in_heap" "cpu (m (slot (heap ts) 1)) = c"
    using sl(1) by auto
  fix t assume "status (m t) = TIMER_STATUS_in_heap" "cpu (m t) = c"
  then have "t \<in> slots (heap ts)" using sl(1) by simp
  then obtain i where "i \<in> {1..heap_size (heap ts)}" "t = slot (heap ts) i" by (auto simp: slots_def)
  then show "expires (m (slot (heap ts) 1)) \<le> expires (m t)"
    using heap_ord_top[of "\<lambda>x. expires (m x)" "slot (heap ts)" "heap_size (heap ts)" i] sl(2)
    by (simp add: heap_ok_def)
qed

definition top_due :: "int \<Rightarrow> tstate \<Rightarrow> cpuid \<Rightarrow> bool" where
  "top_due now s c \<longleftrightarrow> heap_size (heap (per_cpu_timers s c)) \<noteq> 0 \<and>
     expires (tm s (slot (heap (per_cpu_timers s c)) 1)) < now + TIMER_SLOP"

text \<open>One round of the loop over the heap.\<close>

lemma run_heap_round:
  fixes s c
  defines "t \<equiv> slot (heap (per_cpu_timers s c)) 1"
  assumes "tinv s" "top_due now s c"
  obtains r where "remove_entry (tm s) (per_cpu_timers s c) t = Done r"
    "rely c s (set_running (put_queue s c (fst (snd r)) (snd (snd r))) c (Some t))"
    "touched t TIMER_STATUS_inactive c (tm s) (fst (snd r))"
    "status (tm s t) = TIMER_STATUS_in_heap" "cpu (tm s t) = c"
proof -
  let ?ts = "per_cpu_timers s c"
  have q: "queue_ok (tm s) ?ts c" using assms(2) by (simp add: tinv_def)
  have h: "status (tm s t) = TIMER_STATUS_in_heap" "cpu (tm s t) = c"
    using heap_top[OF q] assms(3) by (auto simp: top_due_def t_def)
  then have "active_timer (tm s t)" by (simp add: active_timer_def)
  from remove_entry_spec[OF q this h(2)] obtain rc m ts where r: "remove_entry (tm s) ?ts t = Done (rc, m, ts)"
    "queue_ok m ts c" "touched t TIMER_STATUS_inactive c (tm s) m" by metis
  show thesis
    using that[OF r(1)] take_off(1)[OF assms(2) r(2,3) h(2)] r(3) h by simp
qed

lemma run_heap_unfold:
  "run_heap fn now s c =
     (if top_due now s c then
        (case remove_entry (tm s) (per_cpu_timers s c) (slot (heap (per_cpu_timers s c)) 1) of
           BUG \<Rightarrow> Some BUG
         | Done r \<Rightarrow> run_heap fn now (fn (slot (heap (per_cpu_timers s c)) 1)
             (set_running (put_queue s c (fst (snd r)) (snd (snd r))) c (Some (slot (heap (per_cpu_timers s c)) 1)))) c)
      else Some (Done s))"
  unfolding top_due_def Let_def run_heap.simps[of fn now s c] ..

text \<open>What the callbacks keep, while they run and while other CPUs run.\<close>

definition callbacks_keep :: "cpuid \<Rightarrow> (tid \<Rightarrow> tstate \<Rightarrow> tstate) \<Rightarrow> bool" where
  "callbacks_keep c fn \<longleftrightarrow> (\<forall>t s. rely c s (fn t s))"

lemma rely_tinv: "rely c s s1 \<Longrightarrow> tinv s \<Longrightarrow> tinv s1"
  by (simp add: rely_def)

lemma rely_refl [simp]: "rely c s s"
  by (simp add: rely_def keeps_cov_def)

lemma run_heap_keeps:
  assumes "run_heap fn now s c = Some r" "tinv s" "callbacks_keep c fn"
  shows "\<exists>s1. r = Done s1 \<and> rely c s s1 \<and> \<not> top_due now s1 c"
proof (rule run_heap.raw_induct[where P = "\<lambda>fn now s c r. tinv s \<longrightarrow> callbacks_keep c fn \<longrightarrow>
    (\<exists>s1. r = Done s1 \<and> rely c s s1 \<and> \<not> top_due now s1 c)", THEN mp, THEN mp, OF _ assms])
  fix f fn now s c r
  assume IH: "\<And>fn now s c r. f fn now s c = Some r \<Longrightarrow> tinv s \<longrightarrow> callbacks_keep c fn \<longrightarrow>
      (\<exists>s1. r = Done s1 \<and> rely c s s1 \<and> \<not> top_due now s1 c)"
    and eq: "(let ts = per_cpu_timers s c; t = slot (heap ts) 1 in
        if heap_size (heap ts) \<noteq> 0 \<and> expires (tm s t) < now + TIMER_SLOP then
          case remove_entry (tm s) ts t of BUG \<Rightarrow> Some BUG
          | Done r \<Rightarrow> f fn now (fn t (set_running (put_queue s c (fst (snd r)) (snd (snd r))) c (Some t))) c
        else Some (Done s)) = Some r"
  show "tinv s \<longrightarrow> callbacks_keep c fn \<longrightarrow> (\<exists>s1. r = Done s1 \<and> rely c s s1 \<and> \<not> top_due now s1 c)"
  proof (intro impI, cases "top_due now s c")
    assume inv: "tinv s" and cb: "callbacks_keep c fn" and "top_due now s c"
    from run_heap_round[OF inv this(3)] obtain x where x:
        "remove_entry (tm s) (per_cpu_timers s c) (slot (heap (per_cpu_timers s c)) 1) = Done x"
        "rely c s (set_running (put_queue s c (fst (snd x)) (snd (snd x))) c (Some (slot (heap (per_cpu_timers s c)) 1)))"
        (is "rely c s ?s") by metis
    let ?s2 = "fn (slot (heap (per_cpu_timers s c)) 1) ?s"
    have "rely c s ?s2" using rely_trans[OF x(2)] cb by (simp add: callbacks_keep_def)
    moreover have "f fn now ?s2 c = Some r"
      using eq x(1) \<open>top_due now s c\<close> by (simp add: top_due_def Let_def)
    ultimately show "\<exists>s1. r = Done s1 \<and> rely c s s1 \<and> \<not> top_due now s1 c"
      using IH rely_tinv[OF _ inv] cb rely_trans by meson
  next
    assume "\<not> top_due now s c"
    then have "r = Done s" using eq by (auto simp: top_due_def Let_def split: if_splits)
    then show "\<exists>s1. r = Done s1 \<and> rely c s s1 \<and> \<not> top_due now s1 c"
      using \<open>\<not> top_due now s c\<close> by simp
  qed
qed


text \<open>One round of the loop over the list.\<close>

lemma run_list_round:
  assumes "tinv s" "tlist (per_cpu_timers s c) = t # next"
  shows "rely c s (set_running (put_queue s c (set_status (tm s) t TIMER_STATUS_inactive)
      ((per_cpu_timers s c)\<lparr>tlist := next\<rparr>)) c r)"
    and "touched t TIMER_STATUS_inactive c (tm s) (set_status (tm s) t TIMER_STATUS_inactive)"
    and "status (tm s t) = TIMER_STATUS_in_list" "cpu (tm s t) = c"
    and "\<And>u. status (tm s u) = TIMER_STATUS_in_list \<Longrightarrow> cpu (tm s u) = c \<Longrightarrow> expires (tm s t) \<le> expires (tm s u)"
proof -
  let ?ts = "per_cpu_timers s c" and ?m = "set_status (tm s) t TIMER_STATUS_inactive"
  have q: "queue_ok (tm s) ?ts c" using assms(1) by (simp add: tinv_def)
  then have "t \<in> {u. status (tm s u) = TIMER_STATUS_in_list \<and> cpu (tm s u) = c}"
    unfolding queue_pend_def using assms(2) by (metis Diff_empty list.set_intros(1))
  then show t: "status (tm s t) = TIMER_STATUS_in_list" "cpu (tm s t) = c" by auto
  show T: "touched t TIMER_STATUS_inactive c (tm s) ?m"
    using touchedI[of "{}" "tm s" "tm s" c t] t by simp
  have "queue_ok ?m (?ts\<lparr>tlist := next\<rparr>) c"
    using q assms(2) t by (auto simp: queue_pend_def heap_ok_status touched_simps[OF T])
  then show "rely c s (set_running (put_queue s c ?m (?ts\<lparr>tlist := next\<rparr>)) c r)"
    using take_off(1)[OF assms(1) _ T t(2)] by blast
  show "\<And>u. status (tm s u) = TIMER_STATUS_in_list \<Longrightarrow> cpu (tm s u) = c \<Longrightarrow> expires (tm s t) \<le> expires (tm s u)"
    using q assms(2) by (auto simp: queue_pend_def)
qed

text \<open>How the loop over the list ends: what is left of it, and the deadline.\<close>

definition list_left :: "int \<Rightarrow> int \<Rightarrow> cpuid \<Rightarrow> int \<times> tstate \<Rightarrow> bool" where
  "list_left now d c r \<longleftrightarrow>
     (case tlist (per_cpu_timers (snd r) c) of [] \<Rightarrow> fst r = d
      | t # _ \<Rightarrow> expires (tm (snd r) t) \<ge> now + TIMER_SLOP \<and>
          fst r = (if d = 0 \<or> d > expires (tm (snd r) t) then expires (tm (snd r) t) else d))"

lemma run_list_keeps:
  assumes "run_list fn now d s c = Some r" "tinv s" "callbacks_keep c fn"
  shows "rely c s (snd r) \<and> list_left now d c r"
proof (rule run_list.raw_induct[where P = "\<lambda>fn now d s c r. tinv s \<longrightarrow> callbacks_keep c fn \<longrightarrow>
    rely c s (snd r) \<and> list_left now d c r", THEN mp, THEN mp, OF _ assms])
  fix f fn now d s c r
  assume IH: "\<And>fn now d s c r. f fn now d s c = Some r \<Longrightarrow> tinv s \<longrightarrow> callbacks_keep c fn \<longrightarrow>
      rely c s (snd r) \<and> list_left now d c r"
    and eq: "(case tlist (per_cpu_timers s c) of [] \<Rightarrow> Some (d, s)
      | t # next \<Rightarrow> if expires (tm s t) \<ge> now + TIMER_SLOP
          then Some (if d = 0 \<or> d > expires (tm s t) then expires (tm s t) else d, s)
          else f fn now d (fn t (set_running (put_queue s c (set_status (tm s) t TIMER_STATUS_inactive)
             ((per_cpu_timers s c)\<lparr>tlist := next\<rparr>)) c (Some t))) c) = Some r"
  show "tinv s \<longrightarrow> callbacks_keep c fn \<longrightarrow> rely c s (snd r) \<and> list_left now d c r"
  proof (intro impI, cases "tlist (per_cpu_timers s c)")
    case Nil
    then show "rely c s (snd r) \<and> list_left now d c r" using eq by (auto simp: list_left_def)
  next
    fix t "next" assume inv: "tinv s" and cb: "callbacks_keep c fn" and l: "tlist (per_cpu_timers s c) = t # next"
    let ?s = "set_running (put_queue s c (set_status (tm s) t TIMER_STATUS_inactive)
             ((per_cpu_timers s c)\<lparr>tlist := next\<rparr>)) c (Some t)"
    show "rely c s (snd r) \<and> list_left now d c r"
    proof (cases "expires (tm s t) \<ge> now + TIMER_SLOP")
      case True
      then show ?thesis using eq l by (auto simp: list_left_def)
    next
      case False
      then have "f fn now d (fn t ?s) c = Some r" using eq l by simp
      moreover have "rely c s (fn t ?s)"
        using run_list_round(1)[OF inv l, of "Some t"] cb rely_trans unfolding callbacks_keep_def by blast
      ultimately show ?thesis using IH rely_tinv[OF _ inv] cb rely_trans by meson
    qed
  qed
qed

section \<open>The deadline\<close>

lemma heap_deadline_cov:
  assumes "tinv s" "\<not> top_due now s c" "0 \<le> now"
  shows "cov TIMER_STATUS_in_heap (heap_deadline s c) s c"
proof (cases "heap_size (heap (per_cpu_timers s c)) = 0")
  case True
  then have "slots (heap (per_cpu_timers s c)) = {}" by (simp add: slots_def)
  moreover have "slots (heap (per_cpu_timers s c)) = {t. status (tm s t) = TIMER_STATUS_in_heap \<and> cpu (tm s t) = c}"
    using assms(1) by (simp add: tinv_def queue_pend_def)
  ultimately show ?thesis unfolding cov_def by blast
next
  case False
  have q: "queue_ok (tm s) (per_cpu_timers s c) c" using assms(1) by (simp add: tinv_def)
  have "heap_deadline s c \<ge> now + TIMER_SLOP" using assms(2) False by (simp add: heap_deadline_def top_due_def Let_def)
  then have "heap_deadline s c \<noteq> 0" using assms(3) by (simp add: TIMER_SLOP_def)
  then show ?thesis using heap_top(3)[OF q False] False by (auto simp: cov_def heap_deadline_def Let_def)
qed

lemma list_left_covers:
  assumes "tinv s" "cov TIMER_STATUS_in_heap d s c" "list_left now d c (d1, s)" "0 \<le> now"
  shows "covers d1 s c"
proof (cases "tlist (per_cpu_timers s c)")
  case Nil
  moreover have "set (tlist (per_cpu_timers s c)) = {t. status (tm s t) = TIMER_STATUS_in_list \<and> cpu (tm s t) = c}"
    using assms(1) by (simp add: tinv_def queue_pend_def)
  ultimately have "cov TIMER_STATUS_in_list d s c" unfolding cov_def by auto
  then show ?thesis using assms(2,3) Nil by (simp add: covers_def list_left_def)
next
  case (Cons t "next")
  note l = run_list_round(5)[OF assms(1) Cons]
  let ?e = "expires (tm s t)"
  have e: "?e > 0" "d1 = (if d = 0 \<or> d > ?e then ?e else d)"
    using assms(3,4) Cons by (auto simp: list_left_def TIMER_SLOP_def)
  then have d1: "d1 \<noteq> 0" "d1 \<le> ?e" "d \<noteq> 0 \<longrightarrow> d1 \<le> d" by auto
  have "cov TIMER_STATUS_in_list d1 s c" unfolding cov_def using l d1(1,2) by fastforce
  moreover have "cov TIMER_STATUS_in_heap d1 s c"
    using assms(2) d1 unfolding cov_def by fastforce
  ultimately show ?thesis by (simp add: covers_def)
qed

section \<open>The softirq\<close>

lemma finish_covered:
  assumes "tinv s" "covers d s c" "\<And>c1. c1 \<noteq> c \<Longrightarrow> covered s c1"
  shows "tinv (raise_timer_softirq ((set_running s c None)\<lparr>timer_deadline := (timer_deadline s)(c := d)\<rparr>) r c) \<and>
    (\<forall>c1. covered (raise_timer_softirq ((set_running s c None)\<lparr>timer_deadline := (timer_deadline s)(c := d)\<rparr>) r c) c1)"
    (is "tinv ?s \<and> _")
proof
  show "tinv ?s" using assms(1) by (auto simp: tinv_def set_running_def queue_pend_def)
  show "\<forall>c1. covered ?s c1"
  proof
    fix c1
    show "covered ?s c1"
      using assms(2,3) by (cases "c1 = c") (auto simp: covered_def covers_def cov_def set_running_def)
  qed
qed

lemma raise_False: "raise_timer_softirq s False c = s"
  by (simp add: raise_timer_softirq_def)

lemma softirq_start:
  fixes s c
  assumes "tinv s" "\<And>c1. c1 \<noteq> c \<Longrightarrow> covered s c1"
  obtains m ts where "move_list (tm (grow_heap mem s c)) ((per_cpu_timers (grow_heap mem s c) c)\<lparr>tlist := []\<rparr>)
      (tlist (per_cpu_timers (grow_heap mem s c) c)) = Done (m, ts)"
    "tinv (put_queue (grow_heap mem s c) c m ts)" "shuffled c (tm s) m"
    "\<And>c1. c1 \<noteq> c \<Longrightarrow> covered (put_queue (grow_heap mem s c) c m ts) c1"
proof -
  note g = grow_heap_spec[OF assms(1), of mem c]
  have "covered (grow_heap mem s c) c1" if "c1 \<noteq> c" for c1
    using assms(2)[OF that] by (simp add: covered_def covers_def cov_def g)
  then show thesis
    using take_in_list[OF g(1), of c] shuffled_covered[where s = "grow_heap mem s c"] that g(2) by metis
qed

lemma softirq_keeps:
  assumes "timer_softirq_action mem fn now reprogram s c = Some r" "tinv s" "callbacks_keep c fn" "0 \<le> now"
    and "\<And>c1. c1 \<noteq> c \<Longrightarrow> covered s c1"
  shows "\<exists>s1. r = Done s1 \<and> tinv s1 \<and> (\<forall>c1. covered s1 c1)"
proof -
  obtain m ts where m: "move_list (tm (grow_heap mem s c)) ((per_cpu_timers (grow_heap mem s c) c)\<lparr>tlist := []\<rparr>)
      (tlist (per_cpu_timers (grow_heap mem s c) c)) = Done (m, ts)"
    "tinv (put_queue (grow_heap mem s c) c m ts)"
    "\<And>c1. c1 \<noteq> c \<Longrightarrow> covered (put_queue (grow_heap mem s c) c m ts) c1"
    using softirq_start[of s c mem] assms(2,5) by metis
  let ?s1 = "put_queue (grow_heap mem s c) c m ts"
  obtain x where x: "run_heap fn now ?s1 c = Some x"
    using assms(1) m(1) by (auto simp: timer_softirq_action_def Let_def split: option.splits)
  then obtain s2 where s2: "x = Done s2" "rely c ?s1 s2" "\<not> top_due now s2 c"
    using run_heap_keeps[OF x m(2) assms(3)] by blast
  obtain d s3 where r: "run_list fn now (heap_deadline s2 c) s2 c = Some (d, s3)"
    "r = Done (let s4 = (set_running s3 c None)\<lparr>timer_deadline := (timer_deadline s3)(c := d)\<rparr> in
           if \<not> reprogram d then raise_timer_softirq s4 True c else s4)"
    using assms(1) m(1) x s2(1) by (auto simp: timer_softirq_action_def Let_def split: option.splits)
  have i2: "tinv s2" using rely_tinv[OF s2(2) m(2)] .
  have l: "rely c s2 s3" "list_left now (heap_deadline s2 c) c (d, s3)"
    using run_list_keeps[OF r(1) i2 assms(3)] by auto
  have i3: "tinv s3" using rely_tinv[OF l(1) i2] .
  have "cov TIMER_STATUS_in_heap (heap_deadline s2 c) s3 c"
    using heap_deadline_cov[OF i2 s2(3) assms(4)] l(1) i2 by (simp add: rely_def keeps_cov_def)
  then have "covers d s3 c" using list_left_covers[OF i3 _ l(2) assms(4)] by blast
  moreover have "covered s3 c1" if "c1 \<noteq> c" for c1
    using m(2,3) s2(2) l(1) i2 that by (simp add: rely_def)
  ultimately show ?thesis
    using finish_covered[OF i3, of d c True] finish_covered[OF i3, of d c False] r(2)
    by (auto simp: Let_def raise_False)
qed

end
