(* ===== verification/Timer_Props.thy ===== *)
theory Timer_Props
  imports Timer_Softirq
begin

text \<open>What the timers promise to the rest of the hypervisor.\<close>

section \<open>The softirq ends\<close>

definition due :: "int \<Rightarrow> cpuid \<Rightarrow> tstate \<Rightarrow> tid set" where
  "due now c s = {t. active_timer (tm s t) \<and> cpu (tm s t) = c \<and> expires (tm s t) < now + TIMER_SLOP}"

text \<open>The callbacks leave alone the timers that are due, unless they stop them, and make no other timer due.\<close>

definition due_kept :: "int \<Rightarrow> cpuid \<Rightarrow> tstate \<Rightarrow> tstate \<Rightarrow> bool" where
  "due_kept now c s s1 \<longleftrightarrow> (\<forall>t \<in> due now c s1. t \<in> due now c s \<and> status (tm s1 t) = status (tm s t))"

definition callbacks_settle :: "int \<Rightarrow> cpuid \<Rightarrow> (tid \<Rightarrow> tstate \<Rightarrow> tstate) \<Rightarrow> bool" where
  "callbacks_settle now c fn \<longleftrightarrow> (\<forall>t s. due_kept now c s (fn t s))"

lemma due_kept_trans: "due_kept now c s s1 \<Longrightarrow> due_kept now c s1 s2 \<Longrightarrow> due_kept now c s s2"
  by (simp add: due_kept_def)

lemma finite_due: "tinv s \<Longrightarrow> finite (due now c s)"
proof -
  assume "tinv s"
  then have "queue_ok (tm s) (per_cpu_timers s c) c" by (simp add: tinv_def)
  then have "due now c s \<subseteq> slots (heap (per_cpu_timers s c)) \<union> set (tlist (per_cpu_timers s c))"
    by (auto simp: due_def active_timer_def queue_pend_def)
  moreover have "finite (slots (heap (per_cpu_timers s c)))" by (simp add: slots_def)
  ultimately show ?thesis by (meson List.finite_set finite_Un finite_subset)
qed

text \<open>A round takes the timer it runs out of the set of those that are due.\<close>

lemma round_due:
  assumes "touched t TIMER_STATUS_inactive c (tm s) (tm s1)" "t \<in> due now c s" "due_kept now c s1 s2" "tinv s"
  shows "due_kept now c s s2" "card (due now c s2) < card (due now c s)"
proof -
  have d1: "due now c s1 = due now c s - {t}"
    using touched_simps[OF assms(1)] by (auto simp: due_def active_timer_def)
  have "due_kept now c s s1"
    using touched_simps[OF assms(1)] d1 by (auto simp: due_kept_def)
  then show "due_kept now c s s2" using due_kept_trans assms(3) by blast
  have "due now c s2 \<subset> due now c s" using assms(2,3) d1 by (auto simp: due_kept_def)
  then show "card (due now c s2) < card (due now c s)" using psubset_card_mono[OF finite_due[OF assms(4)]] by simp
qed

lemma run_heap_ends:
  assumes "tinv s" "callbacks_keep c fn" "callbacks_settle now c fn"
  shows "\<exists>s1. run_heap fn now s c = Some (Done s1) \<and> due_kept now c s s1"
  using assms(1)
proof (induction "card (due now c s)" arbitrary: s rule: less_induct)
  case less
  show ?case
  proof (cases "top_due now s c")
    case True
    let ?t = "slot (heap (per_cpu_timers s c)) 1"
    obtain r where r: "remove_entry (tm s) (per_cpu_timers s c) ?t = Done r"
      "rely c s (set_running (put_queue s c (fst (snd r)) (snd (snd r))) c (Some ?t))"
      "touched ?t TIMER_STATUS_inactive c (tm s) (fst (snd r))"
      "status (tm s ?t) = TIMER_STATUS_in_heap" "cpu (tm s ?t) = c"
      using run_heap_round[OF less.prems True] by metis
    let ?s1 = "set_running (put_queue s c (fst (snd r)) (snd (snd r))) c (Some ?t)" let ?s2 = "fn ?t ?s1"
    have "touched ?t TIMER_STATUS_inactive c (tm s) (tm ?s1)" using r(3) by (simp add: set_running_def)
    moreover have "?t \<in> due now c s" using True r(4,5) by (simp add: due_def active_timer_def top_due_def)
    moreover have "due_kept now c ?s1 ?s2" using assms(3) by (simp add: callbacks_settle_def)
    ultimately have k: "due_kept now c s ?s2" "card (due now c ?s2) < card (due now c s)"
      using round_due less.prems by blast+
    have "rely c ?s1 ?s2" using assms(2) by (simp add: callbacks_keep_def)
    then have "tinv ?s2" using rely_tinv r(2) less.prems by blast
    then obtain s3 where "run_heap fn now ?s2 c = Some (Done s3)" "due_kept now c ?s2 s3"
      using less.hyps[OF k(2)] by blast
    then show ?thesis
      using k(1) due_kept_trans True r(1) by (subst run_heap_unfold) auto
  next
    case False
    then show ?thesis by (subst run_heap_unfold) (simp add: due_kept_def)
  qed
qed

lemma run_list_ends:
  assumes "tinv s" "callbacks_keep c fn" "callbacks_settle now c fn"
  shows "\<exists>r. run_list fn now d s c = Some r \<and> due_kept now c s (snd r)"
  using assms(1)
proof (induction "card (due now c s)" arbitrary: s rule: less_induct)
  case less
  show ?case
  proof (cases "tlist (per_cpu_timers s c)")
    case Nil
    then show ?thesis by (simp add: run_list.simps[of fn now d s c] due_kept_def)
  next
    case (Cons t "next")
    let ?s1 = "set_running (put_queue s c (set_status (tm s) t TIMER_STATUS_inactive)
      ((per_cpu_timers s c)\<lparr>tlist := next\<rparr>)) c (Some t)"
    let ?s2 = "fn t ?s1"
    note l = run_list_round[OF less.prems Cons]
    show ?thesis
    proof (cases "expires (tm s t) \<ge> now + TIMER_SLOP")
      case True
      then show ?thesis using Cons by (simp add: run_list.simps[of fn now d s c] due_kept_def)
    next
      case False
      have "touched t TIMER_STATUS_inactive c (tm s) (tm ?s1)" using l(2) by (simp add: set_running_def)
      moreover have "t \<in> due now c s" using False l(3,4) by (simp add: due_def active_timer_def)
      moreover have "due_kept now c ?s1 ?s2" using assms(3) by (simp add: callbacks_settle_def)
      ultimately have k: "due_kept now c s ?s2" "card (due now c ?s2) < card (due now c s)"
        using round_due less.prems by blast+
      have "rely c ?s1 ?s2" using assms(2) by (simp add: callbacks_keep_def)
      then have "tinv ?s2" using rely_tinv l(1) less.prems by blast
      then obtain r where "run_list fn now d ?s2 c = Some r" "due_kept now c ?s2 (snd r)"
        using less.hyps[OF k(2)] by blast
      then show ?thesis
        using k(1) due_kept_trans False Cons by (auto simp: run_list.simps[of fn now d s c])
    qed
  qed
qed

lemma no_heap_due:
  assumes "tinv s" "\<not> top_due now s c" "t \<in> due now c s"
  shows "status (tm s t) = TIMER_STATUS_in_list"
proof (rule ccontr)
  assume "status (tm s t) \<noteq> TIMER_STATUS_in_list"
  then have t: "status (tm s t) = TIMER_STATUS_in_heap" "cpu (tm s t) = c" "expires (tm s t) < now + TIMER_SLOP"
    using assms(3) by (auto simp: due_def active_timer_def)
  have q: "queue_ok (tm s) (per_cpu_timers s c) c" using assms(1) by (simp add: tinv_def)
  have "t \<in> slots (heap (per_cpu_timers s c))" using q t by (simp add: queue_pend_def)
  then have "heap_size (heap (per_cpu_timers s c)) \<noteq> 0" by (auto simp: slots_def)
  then show False using heap_top(3)[OF q _ t(1,2)] assms(2) t(3) by (simp add: top_due_def)
qed

lemma no_list_due:
  assumes "tinv s" "list_left now d c (d1, s)" "t \<in> due now c s"
  shows "status (tm s t) = TIMER_STATUS_in_heap"
proof (rule ccontr)
  assume "status (tm s t) \<noteq> TIMER_STATUS_in_heap"
  then have t: "status (tm s t) = TIMER_STATUS_in_list" "cpu (tm s t) = c" "expires (tm s t) < now + TIMER_SLOP"
    using assms(3) by (auto simp: due_def active_timer_def)
  have "queue_ok (tm s) (per_cpu_timers s c) c" using assms(1) by (simp add: tinv_def)
  then have "t \<in> set (tlist (per_cpu_timers s c))" using t by (simp add: queue_pend_def)
  then obtain u "next" where l: "tlist (per_cpu_timers s c) = u # next" by (cases "tlist (per_cpu_timers s c)") auto
  then show False using run_list_round(5)[OF assms(1) l t(1,2)] assms(2) t(3) by (simp add: list_left_def)
qed

lemma softirq_ends:
  assumes "tinv s" "callbacks_keep c fn" "callbacks_settle now c fn" "\<And>c1. c1 \<noteq> c \<Longrightarrow> covered s c1"
  shows "\<exists>s1. timer_softirq_action mem fn now reprogram s c = Some (Done s1) \<and> due now c s1 = {} \<and>
    running (per_cpu_timers s1 c) = None"
proof -
  obtain m ts where m: "move_list (tm (grow_heap mem s c)) ((per_cpu_timers (grow_heap mem s c) c)\<lparr>tlist := []\<rparr>)
      (tlist (per_cpu_timers (grow_heap mem s c) c)) = Done (m, ts)"
    "tinv (put_queue (grow_heap mem s c) c m ts)"
    using softirq_start[of s c mem] assms(1,4) by metis
  obtain s2 where h: "run_heap fn now (put_queue (grow_heap mem s c) c m ts) c = Some (Done s2)"
    using run_heap_ends[OF m(2) assms(2,3)] by blast
  have s2: "rely c (put_queue (grow_heap mem s c) c m ts) s2" "\<not> top_due now s2 c"
    using run_heap_keeps[OF h m(2) assms(2)] by auto
  have i2: "tinv s2" using rely_tinv[OF s2(1) m(2)] .
  obtain d s3 where l: "run_list fn now (heap_deadline s2 c) s2 c = Some (d, s3)" "due_kept now c s2 s3"
    using run_list_ends[OF i2 assms(2,3)] by (metis prod.collapse snd_conv)
  have s3: "rely c s2 s3" "list_left now (heap_deadline s2 c) c (d, s3)"
    using run_list_keeps[OF l(1) i2 assms(2)] by auto
  have i3: "tinv s3" using rely_tinv[OF s3(1) i2] .
  have "due now c s3 = {}"
  proof (rule equals0I)
    fix t assume t: "t \<in> due now c s3"
    then have "t \<in> due now c s2" "status (tm s3 t) = status (tm s2 t)" using l(2) by (auto simp: due_kept_def)
    then show False using no_heap_due[OF i2 s2(2)] no_list_due[OF i3 s3(2) t] by simp
  qed
  then show ?thesis
    using m(1) h l(1) by (auto simp: timer_softirq_action_def Let_def due_def set_running_def raise_timer_softirq_def)
qed

section \<open>Runs of the system\<close>

text \<open>The timers start inactive; the operations, the timer interrupt and the softirqs of the CPUs follow in any
  order. A step of \<open>kill_timer\<close> is the one up to its waiting.\<close>

inductive treach :: "tstate \<Rightarrow> bool" where
  boot: "(\<And>t. \<not> active_timer (m t)) \<Longrightarrow> treach (timer_init m)"
| initialise: "treach s \<Longrightarrow> \<not> active_timer (tm s t) \<Longrightarrow> treach (s\<lparr>tm := (tm s)(t := init_timer f c)\<rparr>)"
| set_timer: "treach s \<Longrightarrow> set_timer s t e = Done s1 \<Longrightarrow> treach s1"
| stop_timer: "treach s \<Longrightarrow> stop_timer s t = Done s1 \<Longrightarrow> treach s1"
| migrate_timer: "treach s \<Longrightarrow> new < 2 ^ 16 \<Longrightarrow> migrate_timer s t new = Done s1 \<Longrightarrow> treach s1"
| kill_timer: "treach s \<Longrightarrow> kill_timer_stop s this t = Done s1 \<Longrightarrow> treach s1"
| interrupt: "treach s \<Longrightarrow> treach (raise_timer_softirq s True c)"
| softirq: "treach s \<Longrightarrow> callbacks_keep c fn \<Longrightarrow> 0 \<le> now \<Longrightarrow>
    process_pending_timers True mem fn now reprogram s c = Some (Done s1) \<Longrightarrow> treach s1"

lemma timer_init_inv:
  assumes "\<And>t. \<not> active_timer (m t)"
  shows "tinv (timer_init m)" "covered (timer_init m) c"
proof -
  have "status (m t) \<noteq> TIMER_STATUS_in_heap" "status (m t) \<noteq> TIMER_STATUS_in_list" for t
    using assms[of t] by (auto simp: active_timer_def)
  then show "tinv (timer_init m)" "covered (timer_init m) c"
    by (auto simp: tinv_def timer_init_def queue_pend_def heap_ok_def offsets_ok_def heap_ord_def slots_def
        heap_limits_def covered_def covers_def cov_def)
qed

lemma steady_all: "tinv s1 \<Longrightarrow> steady s s1 \<Longrightarrow> \<forall>c. covered s c \<Longrightarrow> tinv s1 \<and> (\<forall>c. covered s1 c)"
  using steady_covered by blast

lemma process_pending_inv:
  assumes "tinv s" "\<forall>c. covered s c" "callbacks_keep c fn" "0 \<le> now"
    and "process_pending_timers True mem fn now reprogram s c = Some (Done s1)"
  shows "tinv s1 \<and> (\<forall>c. covered s1 c)"
proof (cases "TIMER_SOFTIRQ s c")
  case True
  let ?s = "s\<lparr>TIMER_SOFTIRQ := (TIMER_SOFTIRQ s)(c := False)\<rparr>"
  have "tinv ?s" using assms(1) by (simp add: tinv_def)
  moreover have "covered ?s c1" if "c1 \<noteq> c" for c1
    using assms(2)[rule_format, of c1] that by (simp add: covered_def covers_def cov_def)
  ultimately show ?thesis
    using softirq_keeps[of mem fn now reprogram ?s c "Done s1"] assms(3,4,5) True
    by (simp add: process_pending_timers_def)
next
  case False
  then show ?thesis using assms(1,2,5) by (simp add: process_pending_timers_def)
qed

lemma treach_inv: "treach s \<Longrightarrow> tinv s \<and> (\<forall>c. covered s c)"
proof (induction rule: treach.induct)
  case (boot m)
  then show ?case using timer_init_inv by blast
next
  case (initialise s t f c)
  have "\<not> active_timer (init_timer f c)" by (simp add: init_timer_def active_timer_def)
  then have "tinv (s\<lparr>tm := (tm s)(t := init_timer f c)\<rparr>)" "steady s (s\<lparr>tm := (tm s)(t := init_timer f c)\<rparr>)"
    using inactive_update initialise by blast+
  then show ?case using steady_all initialise by blast
next
  case (set_timer s t e s1)
  then show ?case using set_timer_spec[of s t e] steady_all by (metis outcome.inject)
next
  case (stop_timer s t s1)
  then show ?case using stop_timer_spec[of s t] steady_all by (metis outcome.inject)
next
  case (migrate_timer s new t s1)
  then show ?case using migrate_timer_spec[of s new t] steady_all by (metis outcome.inject)
next
  case (kill_timer s this t s1)
  then have "running (per_cpu_timers s this) \<noteq> Some t" by (auto simp: kill_timer_stop_def bug_on_def)
  then show ?case using kill_timer kill_timer_stop_spec[of s this t] steady_all by (metis outcome.inject)
next
  case (interrupt s c)
  then show ?case by (auto simp: covered_def covers_def cov_def)
next
  case (softirq s c fn now mem reprogram s1)
  then show ?case using process_pending_inv by blast
qed


section \<open>A sample\<close>

definition the_state :: "tstate outcome \<Rightarrow> tstate \<Rightarrow> tstate" where
  "the_state r s = (case r of Done s1 \<Rightarrow> s1 | BUG \<Rightarrow> s)"

definition tsample0 :: tstate where
  "tsample0 = timer_init (\<lambda>_. init_timer 0 0)"

definition tsample :: tstate where
  "tsample = the_state (set_timer (the_state (set_timer tsample0 1 1000000) tsample0) 2 70000) tsample0"

lemma treach_set: "treach s \<Longrightarrow> treach (the_state (set_timer s t e) s0)"
proof -
  assume r: "treach s"
  obtain s1 where "set_timer s t e = Done s1" using set_timer_spec[of s t e] treach_inv[OF r] by blast
  then show ?thesis using treach.set_timer[OF r] by (simp add: the_state_def)
qed

lemma tsample_reach: "treach tsample"
proof -
  have "treach tsample0"
    unfolding tsample0_def by (rule treach.boot) (simp add: init_timer_def active_timer_def)
  then show ?thesis unfolding tsample_def by (intro treach_set)
qed

lemmas timer_eval = the_state_def tsample_def tsample0_def timer_init_def init_timer_def set_timer_def active_timer_def
  add_timer'_def add_entry_def stop_timer'_def remove_entry_def add_to_heap_def Let_def bug_on_def
  set_status_def set_offset_def raise_timer_softirq_def put_queue_def place_def SET_HEAP_SIZE_def outcome_simps

lemma tsample_timers:
  "status (tm tsample 1) = TIMER_STATUS_in_list" "status (tm tsample 2) = TIMER_STATUS_in_list"
  "cpu (tm tsample 1) = 0" "cpu (tm tsample 2) = 0" "expires (tm tsample 1) = 1000000" "expires (tm tsample 2) = 70000"
  by (simp_all add: timer_eval)

section \<open>Properties\<close>

text \<open>C2: no timer is forgotten. In every state that the operations on timers, the timer interrupt and the softirqs
  of all CPUs can reach, an active timer is covered: the timer softirq of its CPU is raised, or the deadline
  that the CPU's timer hardware was last programmed for is set and is not after the timer's expiry.\<close>

theorem timers_never_forgotten:
  assumes "treach s" "active_timer (tm s t)"
  shows "TIMER_SOFTIRQ s (cpu (tm s t)) \<or>
    timer_deadline s (cpu (tm s t)) \<noteq> 0 \<and> timer_deadline s (cpu (tm s t)) \<le> expires (tm s t)"
proof -
  have "covers (timer_deadline s (cpu (tm s t))) s (cpu (tm s t))"
    using treach_inv[OF assms(1)] by (simp add: covered_def)
  then show ?thesis using assms(2) unfolding covers_def cov_def active_timer_def by blast
qed

theorem timers_never_forgotten_witness:
  "treach tsample \<and> active_timer (tm tsample 2) \<and>
   (TIMER_SOFTIRQ tsample 0 \<or> timer_deadline tsample 0 \<noteq> 0 \<and> timer_deadline tsample 0 \<le> 70000)"
  using timers_never_forgotten[of tsample 2] tsample_reach tsample_timers by (simp add: active_timer_def)

text \<open>C7: the structure of the queues. In every reachable state the heap of every CPU holds at most 65535 timers, in slots 1 up to its size,
  which is within its limit, and no timer in it is earlier than the one in the slot above; the overflow list has no timer
  twice and is in the order of expiry. A timer is marked as in the heap, or in the list, exactly
  when it stands in the heap, or on the list, of its CPU, and a timer in a heap stands in the slot its offset says. So the top of the heap
  and the head of the list are the earliest ones.\<close>

theorem timers_queued:
  assumes "treach s" "ts = per_cpu_timers s c"
  shows "heap_size (heap ts) \<le> heap_limit (heap ts) \<and> heap_limit (heap ts) \<le> 65535 \<and>
    (\<forall>i. 2 \<le> i \<and> i \<le> heap_size (heap ts) \<longrightarrow>
       expires (tm s (slot (heap ts) (i div 2))) \<le> expires (tm s (slot (heap ts) i))) \<and>
    distinct (tlist ts) \<and> sorted (map (\<lambda>t. expires (tm s t)) (tlist ts)) \<and>
    (\<forall>t. status (tm s t) = TIMER_STATUS_in_heap \<and> cpu (tm s t) = c \<longleftrightarrow>
       1 \<le> heap_offset (tm s t) \<and> heap_offset (tm s t) \<le> heap_size (heap ts) \<and> slot (heap ts) (heap_offset (tm s t)) = t) \<and>
    (\<forall>t. status (tm s t) = TIMER_STATUS_in_list \<and> cpu (tm s t) = c \<longleftrightarrow> t \<in> set (tlist ts)) \<and>
    (\<forall>t. status (tm s t) = TIMER_STATUS_in_heap \<and> cpu (tm s t) = c \<longrightarrow>
       expires (tm s (slot (heap ts) 1)) \<le> expires (tm s t)) \<and>
    (\<forall>t \<in> set (tlist ts). expires (tm s (hd (tlist ts))) \<le> expires (tm s t))"
proof -
  have q: "queue_ok (tm s) ts c" using treach_inv[OF assms(1)] assms(2) by (simp add: tinv_def)
  have h: "heap_size (heap ts) \<le> heap_limit (heap ts)" "heap_limit (heap ts) \<le> 65535" "offsets_ok (tm s, heap ts)"
    "heap_ord (\<lambda>t. expires (tm s t)) (slot (heap ts)) (heap_size (heap ts))"
    using q by (auto simp: queue_pend_def heap_ok_def)
  have l: "distinct (tlist ts)" "expiry_sorted (tm s) (tlist ts)"
    "set (tlist ts) = {t. status (tm s t) = TIMER_STATUS_in_list \<and> cpu (tm s t) = c}"
    using q by (auto simp: queue_pend_def)
  have sl: "status (tm s t) = TIMER_STATUS_in_heap \<and> cpu (tm s t) = c \<longleftrightarrow> t \<in> slots (heap ts)" for t
    using q by (auto simp: queue_pend_def)
  have off: "t \<in> slots (heap ts) \<longleftrightarrow> 1 \<le> heap_offset (tm s t) \<and> heap_offset (tm s t) \<le> heap_size (heap ts) \<and>
      slot (heap ts) (heap_offset (tm s t)) = t" for t
    using slot_offset[OF h(3), of t] by (force simp: slots_def)
  have top: "expires (tm s (slot (heap ts) 1)) \<le> expires (tm s t)" if "t \<in> slots (heap ts)" for t
    using heap_ord_top[OF h(4)] that off by metis
  have "expires (tm s (hd (tlist ts))) \<le> expires (tm s t)" if "t \<in> set (tlist ts)" for t
    using l(2) that by (cases "tlist ts") auto
  then show ?thesis using h l sl off top by (simp add: heap_ord_def)
qed

theorem timers_queued_witness:
  "treach tsample \<and> status (tm tsample 1) = TIMER_STATUS_in_list \<and> 1 \<in> set (tlist (per_cpu_timers tsample 0))"
proof -
  have "status (tm tsample 1) = TIMER_STATUS_in_list" "cpu (tm tsample 1) = 0" using tsample_timers by simp_all
  with timers_queued[OF tsample_reach refl, of 0] tsample_reach show ?thesis by blast
qed

text \<open>C14: the timer softirq ends and leaves nothing due. When the callbacks, and what other CPUs do while they run,
  keep the invariant of the queues and do not make further timers due before the deadline that this run looks at, the softirq of
  a CPU comes to its end without a crash, whether or not there is memory to grow the heap, no timer of the CPU is
  left that expires within the slop of the present time, and no timer is marked as running.\<close>

theorem timer_softirq_runs_due:
  assumes "treach s" "callbacks_keep c fn" "callbacks_settle now c fn"
  shows "\<exists>s1. timer_softirq_action mem fn now reprogram s c = Some (Done s1) \<and>
    (\<forall>t. active_timer (tm s1 t) \<and> cpu (tm s1 t) = c \<longrightarrow> now + TIMER_SLOP \<le> expires (tm s1 t)) \<and>
    running (per_cpu_timers s1 c) = None"
proof -
  have "tinv s" "\<And>c1. c1 \<noteq> c \<Longrightarrow> covered s c1" using treach_inv[OF assms(1)] by auto
  from softirq_ends[OF this(1) assms(2,3) this(2)] show ?thesis unfolding due_def by fastforce
qed

theorem timer_softirq_runs_due_witness:
  "active_timer (tm tsample 2) \<and> expires (tm tsample 2) < 50000 + TIMER_SLOP \<and>
   (\<exists>s1. timer_softirq_action True (\<lambda>t s. s) 50000 (\<lambda>_. True) tsample 0 = Some (Done s1) \<and>
      \<not> (active_timer (tm s1 2) \<and> cpu (tm s1 2) = 0 \<and> expires (tm s1 2) < 50000 + TIMER_SLOP))"
proof -
  have "callbacks_keep 0 (\<lambda>t s. s)" "callbacks_settle 50000 0 (\<lambda>t s. s)"
    by (simp_all add: callbacks_keep_def callbacks_settle_def due_kept_def)
  from timer_softirq_runs_due[OF tsample_reach this, of True "\<lambda>_. True"] show ?thesis
    using tsample_timers by (fastforce simp: active_timer_def TIMER_SLOP_def)
qed

text \<open>C32: setting, stopping, migrating and killing a timer. In a reachable state the first three never crash. A set timer has the new
  expiry and is active, unless it was killed, and stays killed then; a stopped timer is inactive, or killed if it
  was; a migrated timer is on the new CPU, and is active, inactive or killed as before. Killing a timer crashes exactly when this
  CPU runs the timer; otherwise the timer is killed, and the call returns as soon as no CPU runs it. Nothing else of the timer
  changes but its place in the queues, and every other timer keeps its expiry, CPU, callback and status.\<close>

theorem timer_operations:
  assumes "treach s" "new < 2 ^ 16"
  shows "(\<exists>s1. set_timer s t e = Done s1 \<and> same_others t (tm s) (tm s1) \<and>
        expires (tm s1 t) = e \<and> cpu (tm s1 t) = cpu (tm s t) \<and> callback (tm s1 t) = callback (tm s t) \<and>
        (if status (tm s t) = TIMER_STATUS_killed then status (tm s1 t) = TIMER_STATUS_killed else active_timer (tm s1 t))) \<and>
    (\<exists>s1. stop_timer s t = Done s1 \<and> same_others t (tm s) (tm s1) \<and>
        expires (tm s1 t) = expires (tm s t) \<and> cpu (tm s1 t) = cpu (tm s t) \<and> callback (tm s1 t) = callback (tm s t) \<and>
        status (tm s1 t) = (if status (tm s t) = TIMER_STATUS_killed then TIMER_STATUS_killed else TIMER_STATUS_inactive)) \<and>
    (\<exists>s1. migrate_timer s t new = Done s1 \<and> same_others t (tm s) (tm s1) \<and>
        expires (tm s1 t) = expires (tm s t) \<and> cpu (tm s1 t) = new \<and> callback (tm s1 t) = callback (tm s t) \<and>
        active_timer (tm s1 t) = active_timer (tm s t) \<and>
        (status (tm s1 t) = TIMER_STATUS_killed \<longleftrightarrow> status (tm s t) = TIMER_STATUS_killed)) \<and>
    (if running (per_cpu_timers s this) = Some t then kill_timer s this online others t = BUG
     else \<exists>s1. same_others t (tm s) (tm s1) \<and>
        expires (tm s1 t) = expires (tm s t) \<and> cpu (tm s1 t) = cpu (tm s t) \<and> callback (tm s1 t) = callback (tm s t) \<and>
        status (tm s1 t) = TIMER_STATUS_killed \<and>
        kill_timer s this online others t =
          Done (if \<exists>c \<in> set online. running (per_cpu_timers (others s1) c) = Some t then None else Some (others s1)))"
proof -
  have i: "tinv s" using treach_inv[OF assms(1)] by blast
  show ?thesis
  proof (intro conjI)
    show "\<exists>s1. set_timer s t e = Done s1 \<and> same_others t (tm s) (tm s1) \<and>
        expires (tm s1 t) = e \<and> cpu (tm s1 t) = cpu (tm s t) \<and> callback (tm s1 t) = callback (tm s t) \<and>
        (if status (tm s t) = TIMER_STATUS_killed then status (tm s1 t) = TIMER_STATUS_killed else active_timer (tm s1 t))"
      by (rule set_timer_spec[OF i, of t e]) blast
    show "\<exists>s1. stop_timer s t = Done s1 \<and> same_others t (tm s) (tm s1) \<and>
        expires (tm s1 t) = expires (tm s t) \<and> cpu (tm s1 t) = cpu (tm s t) \<and> callback (tm s1 t) = callback (tm s t) \<and>
        status (tm s1 t) = (if status (tm s t) = TIMER_STATUS_killed then TIMER_STATUS_killed else TIMER_STATUS_inactive)"
      by (rule stop_timer_spec[OF i, of t]) blast
    show "\<exists>s1. migrate_timer s t new = Done s1 \<and> same_others t (tm s) (tm s1) \<and>
        expires (tm s1 t) = expires (tm s t) \<and> cpu (tm s1 t) = new \<and> callback (tm s1 t) = callback (tm s t) \<and>
        active_timer (tm s1 t) = active_timer (tm s t) \<and>
        (status (tm s1 t) = TIMER_STATUS_killed \<longleftrightarrow> status (tm s t) = TIMER_STATUS_killed)"
      by (rule migrate_timer_spec[OF i assms(2), of t]) blast
    show "if running (per_cpu_timers s this) = Some t then kill_timer s this online others t = BUG
     else \<exists>s1. same_others t (tm s) (tm s1) \<and>
        expires (tm s1 t) = expires (tm s t) \<and> cpu (tm s1 t) = cpu (tm s t) \<and> callback (tm s1 t) = callback (tm s t) \<and>
        status (tm s1 t) = TIMER_STATUS_killed \<and>
        kill_timer s this online others t =
          Done (if \<exists>c \<in> set online. running (per_cpu_timers (others s1) c) = Some t then None else Some (others s1))"
    proof (cases "running (per_cpu_timers s this) = Some t")
      case True
      then show ?thesis by (simp add: kill_timer_def kill_timer_stop_def)
    next
      case False
      then obtain s1 where "kill_timer_stop s this t = Done s1" "same_others t (tm s) (tm s1)"
        "expires (tm s1 t) = expires (tm s t)" "cpu (tm s1 t) = cpu (tm s t)" "callback (tm s1 t) = callback (tm s t)"
        "status (tm s1 t) = TIMER_STATUS_killed"
        using kill_timer_stop_spec[OF i] by metis
      with False show ?thesis by (auto simp: kill_timer_def Let_def intro!: exI[of _ s1])
    qed
  qed
qed

theorem timer_operations_witness:
  "\<exists>s1. migrate_timer tsample 1 3 = Done s1 \<and> cpu (tm s1 1) = 3 \<and> active_timer (tm s1 1)"
proof -
  have "(3 :: nat) < 2 ^ 16" by simp
  from timer_operations[OF tsample_reach this] show ?thesis
    using tsample_timers by (fastforce simp: active_timer_def)
qed

end
