(* ===== verification/Bitops.thy ===== *)
theory Bitops
  imports Xen_Prelude
begin

text \<open>
  Bit operations on single words: \<open>xen/include/xen/bitops.h\<close>, and those of
  \<open>xen/include/asm-x86/bitops.h\<close> that other components use.
\<close>

section \<open>Finding bits\<close>

text \<open>An \<open>int\<close> is a word of 32 bits here; its right shift keeps the sign.\<close>

definition generic_ffs :: "u32 \<Rightarrow> nat" where
  "generic_ffs x =
     (if x = 0 then 0
      else
        let r = 1;
            (x, r) = (if x AND 0xffff = 0 then (signed_drop_bit 16 x, r + 16) else (x, r));
            (x, r) = (if x AND 0xff = 0 then (signed_drop_bit 8 x, r + 8) else (x, r));
            (x, r) = (if x AND 0xf = 0 then (signed_drop_bit 4 x, r + 4) else (x, r));
            (x, r) = (if x AND 3 = 0 then (signed_drop_bit 2 x, r + 2) else (x, r));
            (x, r) = (if x AND 1 = 0 then (signed_drop_bit 1 x, r + 1) else (x, r))
        in r)"

definition generic_fls :: "u32 \<Rightarrow> nat" where
  "generic_fls x =
     (if x = 0 then 0
      else
        let r = 32;
            (x, r) = (if x AND 0xffff0000 = 0 then (push_bit 16 x, r - 16) else (x, r));
            (x, r) = (if x AND 0xff000000 = 0 then (push_bit 8 x, r - 8) else (x, r));
            (x, r) = (if x AND 0xf0000000 = 0 then (push_bit 4 x, r - 4) else (x, r));
            (x, r) = (if x AND 0xc0000000 = 0 then (push_bit 2 x, r - 2) else (x, r));
            (x, r) = (if x AND 0x80000000 = 0 then (push_bit 1 x, r - 1) else (x, r))
        in r)"

text \<open>The x86 routines scan with \<open>bsf\<close> and \<open>bsr\<close>; for the word 0 the result is 0.\<close>

definition ffs :: "ulong \<Rightarrow> nat" where
  "ffs x = (case find (bit x) [0..<64] of Some i \<Rightarrow> i + 1 | None \<Rightarrow> 0)"

definition fls :: "ulong \<Rightarrow> nat" where
  "fls x = (case find (bit x) (rev [0..<64]) of Some i \<Rightarrow> i + 1 | None \<Rightarrow> 0)"

definition generic_fls64 :: "ulong \<Rightarrow> nat" where
  "generic_fls64 x = (let h = drop_bit 32 x in if h \<noteq> 0 then fls x + 32 else fls x)"

definition get_bitmask_order :: "u32 \<Rightarrow> nat" where
  "get_bitmask_order count = fls (ucast count)"

definition get_count_order :: "u32 \<Rightarrow> int" where
  "get_count_order count =
     (let order = int (fls (ucast count)) - 1
      in if count AND (count - 1) \<noteq> 0 then order + 1 else order)"

section \<open>Counting bits\<close>

definition generic_hweight32 :: "u32 \<Rightarrow> u32" where
  "generic_hweight32 w =
     (let res = (w AND 0x55555555) + (drop_bit 1 w AND 0x55555555);
          res = (res AND 0x33333333) + (drop_bit 2 res AND 0x33333333);
          res = (res AND 0x0F0F0F0F) + (drop_bit 4 res AND 0x0F0F0F0F);
          res = (res AND 0x00FF00FF) + (drop_bit 8 res AND 0x00FF00FF)
      in (res AND 0x0000FFFF) + (drop_bit 16 res AND 0x0000FFFF))"

definition generic_hweight16 :: "u32 \<Rightarrow> u32" where
  "generic_hweight16 w =
     (let res = (w AND 0x5555) + (drop_bit 1 w AND 0x5555);
          res = (res AND 0x3333) + (drop_bit 2 res AND 0x3333);
          res = (res AND 0x0F0F) + (drop_bit 4 res AND 0x0F0F)
      in (res AND 0x00FF) + (drop_bit 8 res AND 0x00FF))"

definition generic_hweight8 :: "u32 \<Rightarrow> u32" where
  "generic_hweight8 w =
     (let res = (w AND 0x55) + (drop_bit 1 w AND 0x55);
          res = (res AND 0x33) + (drop_bit 2 res AND 0x33)
      in (res AND 0x0F) + (drop_bit 4 res AND 0x0F))"

definition generic_hweight64 :: "ulong \<Rightarrow> ulong" where
  "generic_hweight64 w =
     (let res = (w AND 0x5555555555555555) + (drop_bit 1 w AND 0x5555555555555555);
          res = (res AND 0x3333333333333333) + (drop_bit 2 res AND 0x3333333333333333);
          res = (res AND 0x0F0F0F0F0F0F0F0F) + (drop_bit 4 res AND 0x0F0F0F0F0F0F0F0F);
          res = (res AND 0x00FF00FF00FF00FF) + (drop_bit 8 res AND 0x00FF00FF00FF00FF);
          res = (res AND 0x0000FFFF0000FFFF) + (drop_bit 16 res AND 0x0000FFFF0000FFFF)
      in (res AND 0x00000000FFFFFFFF) + (drop_bit 32 res AND 0x00000000FFFFFFFF))"

section \<open>Counting by halves\<close>

text \<open>
  A stage adds the fields of a word in pairs: of fields of \<open>k\<close> bits, the masks select the even ones and
  the odd ones. On natural numbers: \<open>sel k n x\<close> keeps the even ones of \<open>2 * n\<close> fields, \<open>fsum k n x\<close> is the sum of \<open>n\<close> fields.
\<close>

primrec fmask :: "nat \<Rightarrow> nat \<Rightarrow> nat" where
  "fmask k 0 = 0"
| "fmask k (Suc n) = mask k + push_bit (2 * k) (fmask k n)"

primrec sel :: "nat \<Rightarrow> nat \<Rightarrow> nat \<Rightarrow> nat" where
  "sel k 0 x = 0"
| "sel k (Suc n) x = take_bit k x + push_bit (2 * k) (sel k n (drop_bit (2 * k) x))"

primrec fsum :: "nat \<Rightarrow> nat \<Rightarrow> nat \<Rightarrow> nat" where
  "fsum k 0 x = 0"
| "fsum k (Suc n) x = take_bit k x + fsum k n (drop_bit k x)"

lemma low_high_or: "take_bit k (a :: nat) + push_bit (2 * k) b = take_bit k a OR push_bit (2 * k) b"
  by (rule disjunctive_add) (auto simp: bit_simps)

lemma and_fmask: "x AND fmask k n = sel k n x"
proof (induction n arbitrary: x)
  case (Suc n)
  have m: "fmask k (Suc n) = mask k OR push_bit (2 * k) (fmask k n)"
    unfolding fmask.simps by (rule disjunctive_add) (auto simp: bit_simps)
  have "x AND fmask k (Suc n) = take_bit k x OR push_bit (2 * k) (drop_bit (2 * k) x AND fmask k n)"
    unfolding m by (rule bit_eqI) (auto simp: bit_simps)
  then show ?case using Suc low_high_or by simp
qed simp

lemma two_fields: "0 < k \<Longrightarrow> take_bit k (a :: nat) + take_bit k b < 2 ^ (2 * k)"
proof -
  assume "0 < k"
  then have "(2 :: nat) * 2 ^ k \<le> 2 ^ k * 2 ^ k"
    using self_le_power[of 2 k] by (metis (no_types) le_numeral_extra(4) mult_le_mono1 one_le_numeral)
  moreover have "take_bit k a < 2 ^ k" "take_bit k b < 2 ^ k" by simp_all
  ultimately have "take_bit k a + take_bit k b < 2 ^ k * 2 ^ k" by linarith
  then show ?thesis by (simp only: mult_2 power_add)
qed

lemma sel_step:
  "sel k (Suc n) x + sel k (Suc n) y =
     (take_bit k x + take_bit k y) + push_bit (2 * k) (sel k n (drop_bit (2 * k) x) + sel k n (drop_bit (2 * k) y))"
  by (simp add: push_bit_add)

lemma sel_bound: "0 < k \<Longrightarrow> sel k n x + sel k n y < 2 ^ (2 * k * n)"
proof (induction n arbitrary: x y)
  case (Suc n)
  let ?a = "take_bit k x + take_bit k y" and ?b = "sel k n (drop_bit (2 * k) x) + sel k n (drop_bit (2 * k) y)"
  have "?a < 2 ^ (2 * k)" "?b < 2 ^ (2 * k * n)" using two_fields Suc by auto
  then have "?a + 2 ^ (2 * k) * ?b < 2 ^ (2 * k) + 2 ^ (2 * k) * ?b" "?b + 1 \<le> 2 ^ (2 * k * n)" by auto
  moreover have "2 ^ (2 * k) * (?b + 1) \<le> 2 ^ (2 * k) * 2 ^ (2 * k * n)"
    using \<open>?b + 1 \<le> 2 ^ (2 * k * n)\<close> by (rule mult_le_mono2)
  ultimately have "?a + 2 ^ (2 * k) * ?b < 2 ^ (2 * k) * 2 ^ (2 * k * n)" by simp
  moreover have "(2::nat) ^ (2 * k) * 2 ^ (2 * k * n) = 2 ^ (2 * k * Suc n)"
    by (simp only: power_add[symmetric] mult_Suc_right)
  ultimately show ?case using sel_step[of k n x y] by (simp only: push_bit_eq_mult mult.commute)
qed simp

lemma fsum_stage: "0 < k \<Longrightarrow> fsum (2 * k) n (sel k n x + sel k n (drop_bit k x)) = fsum k (2 * n) x"
proof (induction n arbitrary: x)
  case (Suc n)
  let ?a = "take_bit k x + take_bit k (drop_bit k x)" and ?x = "drop_bit (2 * k) x"
  let ?b = "sel k n ?x + sel k n (drop_bit k ?x)"
  have eq: "sel k (Suc n) x + sel k (Suc n) (drop_bit k x) = ?a + push_bit (2 * k) ?b"
    using sel_step[of k n x "drop_bit k x"] by (simp add: drop_bit_drop_bit add.commute)
  have a: "?a < 2 ^ (2 * k)" using two_fields[OF Suc.prems] .
  have "take_bit (2 * k) (?a + push_bit (2 * k) ?b) = ?a" "drop_bit (2 * k) (?a + push_bit (2 * k) ?b) = ?b"
    using a by (simp_all add: take_bit_eq_mod drop_bit_eq_div push_bit_eq_mult mult.commute)
  moreover have "fsum k (2 * Suc n) x = ?a + fsum k (2 * n) ?x"
    by (simp add: drop_bit_drop_bit mult_2)
  ultimately show ?case
    unfolding eq fsum.simps(2) using Suc.IH[OF Suc.prems, of ?x] by (simp only:)
qed simp

lemma fsum_one: "x < 2 ^ k \<Longrightarrow> fsum k 1 x = x"
  by (simp add: take_bit_nat_eq_self)

lemma fsum_bits: "fsum 1 n x = card {i. i < n \<and> bit x i}"
proof (induction n arbitrary: x)
  case (Suc n)
  have "{i. i < Suc n \<and> bit x i} = (if bit x 0 then {0} else {}) \<union> Suc ` {i. i < n \<and> bit (drop_bit 1 x) i}"
    by (auto simp: bit_simps image_iff less_Suc_eq_0_disj)
  moreover have "card (Suc ` {i. i < n \<and> bit (drop_bit 1 x) i}) = fsum 1 n (drop_bit 1 x)"
    using Suc[of "drop_bit 1 x"] by (simp add: card_image)
  ultimately have "card {i. i < Suc n \<and> bit x i} = of_bool (bit x 0) + fsum 1 n (drop_bit 1 x)"
    by (auto simp: card_insert_if)
  moreover have "take_bit 1 x = of_bool (bit x 0)" by (simp add: take_bit_Suc bit_0 odd_iff_mod_2_eq_one)
  ultimately show ?case by simp
qed simp


text \<open>A stage on words: the sum does not wrap around.\<close>

lemma word_stage:
  fixes w M :: "'a::len word"
  assumes "unat M = fmask k n" "2 * k * n \<le> LENGTH('a)" "0 < k"
  shows "unat ((w AND M) + (drop_bit k w AND M)) = sel k n (unat w) + sel k n (drop_bit k (unat w))"
proof -
  have a: "unat (w AND M) = sel k n (unat w)" "unat (drop_bit k w AND M) = sel k n (drop_bit k (unat w))"
    using assms(1) and_fmask by (simp_all add: unsigned_and_eq unsigned_drop_bit_eq take_bit_nat_eq_self)
  have "sel k n (unat w) + sel k n (drop_bit k (unat w)) < 2 ^ (2 * k * n)" using sel_bound[OF assms(3)] .
  also have "(2 :: nat) ^ (2 * k * n) \<le> 2 ^ LENGTH('a)" using assms(2) by simp
  finally show ?thesis using a by (simp add: unat_word_ariths)
qed

lemma word_fsum_stage:
  fixes w M :: "'a::len word"
  assumes "unat M = fmask k n" "2 * k * n \<le> LENGTH('a)" "0 < k" "fsum k (2 * n) (unat w) = c"
  shows "fsum (2 * k) n (unat ((w AND M) + (drop_bit k w AND M))) = c"
  using word_stage[OF assms(1-3)] fsum_stage[OF assms(3)] assms(4) by simp

lemma fsum_bits_word: "LENGTH('a) = n \<Longrightarrow> fsum 1 n (unat (w :: 'a::len word)) = card {i. bit w i}"
proof -
  assume n: "LENGTH('a) = n"
  have "{i. i < n \<and> bit (unat w) i} = {i. bit w i}"
    using n by (auto simp: bit_unsigned_iff dest: bit_imp_le_length)
  then show ?thesis unfolding fsum_bits by simp
qed

lemma fmask_numeral:
  "fmask k (numeral m) = mask k + push_bit (2 * k) (fmask k (pred_numeral m))" "fmask k 1 = mask k"
  by (simp_all add: numeral_eq_Suc)

lemmas fmask_eval = fmask_numeral mask_eq_exp_minus_1 push_bit_eq_mult

text \<open>The stages of the routines count the bits, on fields twice as wide each.\<close>

lemma hweight32_card: "unat (generic_hweight32 w) = card {i. bit w i}"
proof -
  define r1 where "r1 = (w AND 0x55555555) + (drop_bit 1 w AND 0x55555555)"
  define r2 where "r2 = (r1 AND 0x33333333) + (drop_bit 2 r1 AND 0x33333333)"
  define r3 where "r3 = (r2 AND 0x0F0F0F0F) + (drop_bit 4 r2 AND 0x0F0F0F0F)"
  define r4 where "r4 = (r3 AND 0x00FF00FF) + (drop_bit 8 r3 AND 0x00FF00FF)"
  define r5 where "r5 = (r4 AND 0x0000FFFF) + (drop_bit 16 r4 AND 0x0000FFFF)"
  have "fsum (2 * 1) 16 (unat r1) = card {i. bit w i}"
    unfolding r1_def by (rule word_fsum_stage) (use fsum_bits_word[of 32 w] in \<open>simp_all add: fmask_eval\<close>)
  then have "fsum (2 * 2) 8 (unat r2) = card {i. bit w i}"
    unfolding r2_def by (intro word_fsum_stage) (simp_all add: fmask_eval)
  then have "fsum (2 * 4) 4 (unat r3) = card {i. bit w i}"
    unfolding r3_def by (intro word_fsum_stage) (simp_all add: fmask_eval)
  then have "fsum (2 * 8) 2 (unat r4) = card {i. bit w i}"
    unfolding r4_def by (intro word_fsum_stage) (simp_all add: fmask_eval)
  then have "fsum (2 * 16) 1 (unat r5) = card {i. bit w i}"
    unfolding r5_def by (intro word_fsum_stage) (simp_all add: fmask_eval)
  moreover have "unat r5 < 2 ^ (2 * 16)" using unsigned_less[of r5] by simp
  ultimately have "unat r5 = card {i. bit w i}" by (metis fsum_one)
  then show ?thesis unfolding generic_hweight32_def Let_def r1_def r2_def r3_def r4_def r5_def .
qed

lemma hweight64_card: "unat (generic_hweight64 w) = card {i. bit w i}"
proof -
  define r1 where "r1 = (w AND 0x5555555555555555) + (drop_bit 1 w AND 0x5555555555555555)"
  define r2 where "r2 = (r1 AND 0x3333333333333333) + (drop_bit 2 r1 AND 0x3333333333333333)"
  define r3 where "r3 = (r2 AND 0x0F0F0F0F0F0F0F0F) + (drop_bit 4 r2 AND 0x0F0F0F0F0F0F0F0F)"
  define r4 where "r4 = (r3 AND 0x00FF00FF00FF00FF) + (drop_bit 8 r3 AND 0x00FF00FF00FF00FF)"
  define r5 where "r5 = (r4 AND 0x0000FFFF0000FFFF) + (drop_bit 16 r4 AND 0x0000FFFF0000FFFF)"
  define r6 where "r6 = (r5 AND 0x00000000FFFFFFFF) + (drop_bit 32 r5 AND 0x00000000FFFFFFFF)"
  have "fsum (2 * 1) 32 (unat r1) = card {i. bit w i}"
    unfolding r1_def by (rule word_fsum_stage) (use fsum_bits_word[of 64 w] in \<open>simp_all add: fmask_eval\<close>)
  then have "fsum (2 * 2) 16 (unat r2) = card {i. bit w i}"
    unfolding r2_def by (intro word_fsum_stage) (simp_all add: fmask_eval)
  then have "fsum (2 * 4) 8 (unat r3) = card {i. bit w i}"
    unfolding r3_def by (intro word_fsum_stage) (simp_all add: fmask_eval)
  then have "fsum (2 * 8) 4 (unat r4) = card {i. bit w i}"
    unfolding r4_def by (intro word_fsum_stage) (simp_all add: fmask_eval)
  then have "fsum (2 * 16) 2 (unat r5) = card {i. bit w i}"
    unfolding r5_def by (intro word_fsum_stage) (simp_all add: fmask_eval)
  then have "fsum (2 * 32) 1 (unat r6) = card {i. bit w i}"
    unfolding r6_def by (intro word_fsum_stage) (simp_all add: fmask_eval)
  moreover have "unat r6 < 2 ^ (2 * 32)" using unsigned_less[of r6] by simp
  ultimately have "unat r6 = card {i. bit w i}" by (metis fsum_one)
  then show ?thesis unfolding generic_hweight64_def Let_def r1_def r2_def r3_def r4_def r5_def r6_def .
qed


section \<open>Finding by halves\<close>

definition low_bit :: "'a::len word \<Rightarrow> nat \<Rightarrow> bool" where
  "low_bit x p \<longleftrightarrow> bit x p \<and> (\<forall>i < p. \<not> bit x i)"

definition high_bit :: "'a::len word \<Rightarrow> nat \<Rightarrow> bool" where
  "high_bit x p \<longleftrightarrow> bit x p \<and> (\<forall>i. p < i \<longrightarrow> \<not> bit x i)"

lemma low_bit_exists: "x \<noteq> 0 \<Longrightarrow> \<exists>p. low_bit x p"
proof -
  assume "x \<noteq> 0"
  then have "\<exists>p. bit x p" using bit_word_eqI[of x 0] by auto
  then show ?thesis unfolding low_bit_def by (metis exists_least_iff)
qed

lemma high_bit_exists: "(x :: 'a::len word) \<noteq> 0 \<Longrightarrow> \<exists>p. high_bit x p"
proof -
  assume "x \<noteq> 0"
  then have ne: "{i. bit x i} \<noteq> {}" using bit_word_eqI[of x 0] by auto
  have fin: "finite {i. bit x i}" using bit_imp_le_length finite_subset[of "{i. bit x i}" "{..<LENGTH('a)}"] by blast
  have "bit x (Max {i. bit x i})" using Max_in[OF fin ne] by simp
  moreover have "\<not> bit x i" if "Max {i. bit x i} < i" for i
    using Max_ge[OF fin, of i] that by (metis leD mem_Collect_eq)
  ultimately show ?thesis unfolding high_bit_def by blast
qed

lemma and_mask_zero: "x AND mask k = 0 \<longleftrightarrow> (\<forall>i < k. \<not> bit (x :: 'a::len word) i)"
proof -
  have "x AND mask k = 0 \<longleftrightarrow> (\<forall>i. \<not> bit (x AND mask k) i)" using bit_word_eqI[of "x AND mask k" 0] by auto
  then show ?thesis by (auto simp: bit_simps dest: bit_imp_le_length)
qed

lemma low_stage:
  fixes x :: u32
  assumes "low_bit x p" "p < 2 * k" "M = mask k"
    and "(x1, r1) = (if x AND M = 0 then (signed_drop_bit k x, r + k) else (x, r))"
  shows "\<exists>p1. low_bit x1 p1 \<and> p1 < k \<and> r1 + p1 = r + p"
proof (cases "x AND M = 0")
  case True
  then have "\<not> p < k" using assms(1,3) and_mask_zero[of x k] by (auto simp: low_bit_def)
  moreover have "p < 32" using assms(1) bit_imp_le_length[of x p] by (simp add: low_bit_def)
  moreover have "bit (signed_drop_bit k x) i \<longleftrightarrow> bit x (i + k)" if "i + k < 32" for i
    using that by (auto simp: bit_simps add.commute)
  ultimately have "low_bit (signed_drop_bit k x) (p - k)"
    using assms(1) by (auto simp: low_bit_def)
  then show ?thesis using True assms(2,4) \<open>\<not> p < k\<close> by (intro exI[of _ "p - k"]) auto
next
  case False
  then have "p < k" using assms(1,3) and_mask_zero[of x k] by (auto simp: low_bit_def)
  then show ?thesis using False assms(1,4) by auto
qed

lemma and_top_zero: "k \<le> 32 \<Longrightarrow> (x :: u32) AND push_bit (32 - k) (mask k) = 0 \<longleftrightarrow> (\<forall>i. 32 - k \<le> i \<longrightarrow> \<not> bit x i)"
proof -
  assume k: "k \<le> 32"
  let ?m = "push_bit (32 - k) (mask k) :: u32"
  have "x AND ?m = 0 \<longleftrightarrow> (\<forall>i. \<not> bit (x AND ?m) i)" using bit_word_eqI[of "x AND ?m" 0] by auto
  moreover have "bit (x AND ?m) i \<longleftrightarrow> 32 - k \<le> i \<and> bit x i" for i
    using k bit_imp_le_length[of x i] by (auto simp: bit_simps)
  ultimately show ?thesis by blast
qed

lemma high_stage:
  fixes x :: u32
  assumes "high_bit x p" "32 - 2 * k \<le> p" "k \<le> 16" "M = push_bit (32 - k) (mask k)" "k \<le> r"
    and "(x1, r1) = (if x AND M = 0 then (push_bit k x, r - k) else (x, r))"
  shows "\<exists>p1. high_bit x1 p1 \<and> 32 - k \<le> p1 \<and> r1 + p1 = r + p"
proof (cases "x AND M = 0")
  case True
  then have "\<forall>i. 32 - k \<le> i \<longrightarrow> \<not> bit x i" using assms(3,4) and_top_zero[of k x] by simp
  then have p: "p < 32 - k" using assms(1) unfolding high_bit_def by (meson not_less)
  then have "high_bit (push_bit k x) (p + k)"
    using assms(1) by (auto simp: high_bit_def bit_simps)
  then show ?thesis using True assms(2,3,5,6) p by (intro exI[of _ "p + k"]) auto
next
  case False
  then obtain i where "32 - k \<le> i" "bit x i" using assms(3,4) and_top_zero[of k x] by auto
  then have "32 - k \<le> p" using assms(1) unfolding high_bit_def by (meson linorder_not_le order_trans less_imp_le)
  then show ?thesis using False assms(1,6) by auto
qed

lemma generic_ffs_low: "low_bit x p \<Longrightarrow> generic_ffs x = p + 1"
proof -
  assume x: "low_bit x p"
  then have nz: "x \<noteq> 0" by (auto simp: low_bit_def)
  define y1 where "y1 = (if x AND 0xffff = 0 then (signed_drop_bit 16 x, 1 + 16) else (x, 1 :: nat))"
  define y2 where "y2 = (if fst y1 AND 0xff = 0 then (signed_drop_bit 8 (fst y1), snd y1 + 8) else (fst y1, snd y1))"
  define y3 where "y3 = (if fst y2 AND 0xf = 0 then (signed_drop_bit 4 (fst y2), snd y2 + 4) else (fst y2, snd y2))"
  define y4 where "y4 = (if fst y3 AND 3 = 0 then (signed_drop_bit 2 (fst y3), snd y3 + 2) else (fst y3, snd y3))"
  define y5 where "y5 = (if fst y4 AND 1 = 0 then (signed_drop_bit 1 (fst y4), snd y4 + 1) else (fst y4, snd y4))"
  have m: "(0xffff :: u32) = mask 16" "(0xff :: u32) = mask 8" "(0xf :: u32) = mask 4" "(3 :: u32) = mask 2" "(1 :: u32) = mask 1"
    by (simp_all add: mask_eq_exp_minus_1)
  have "p < 2 * 16" using x bit_imp_le_length[of x p] by (simp add: low_bit_def)
  then obtain p1 where p1: "low_bit (fst y1) p1" "p1 < 2 * 8" "snd y1 + p1 = 1 + p"
    using low_stage[OF x _ m(1), of "fst y1" "snd y1" 1] by (auto simp: y1_def)
  obtain p2 where p2: "low_bit (fst y2) p2" "p2 < 2 * 4" "snd y2 + p2 = 1 + p"
    using low_stage[OF p1(1,2) m(2), of "fst y2" "snd y2" "snd y1"] p1(3) by (auto simp: y2_def)
  obtain p3 where p3: "low_bit (fst y3) p3" "p3 < 2 * 2" "snd y3 + p3 = 1 + p"
    using low_stage[OF p2(1,2) m(3), of "fst y3" "snd y3" "snd y2"] p2(3) by (auto simp: y3_def)
  obtain p4 where p4: "low_bit (fst y4) p4" "p4 < 2 * 1" "snd y4 + p4 = 1 + p"
    using low_stage[OF p3(1,2) m(4), of "fst y4" "snd y4" "snd y3"] p3(3) by (auto simp: y4_def)
  obtain p5 where p5: "p5 < 1" "snd y5 + p5 = 1 + p"
    using low_stage[OF p4(1,2) m(5), of "fst y5" "snd y5" "snd y4"] p4(3) by (auto simp: y5_def)
  have "generic_ffs x = snd y5"
    unfolding generic_ffs_def Let_def y5_def y4_def y3_def y2_def y1_def
    using nz by (simp only: if_False case_prod_unfold)
  then show ?thesis using p5 by simp
qed


lemma generic_fls_high: "high_bit x p \<Longrightarrow> generic_fls x = p + 1"
proof -
  assume x: "high_bit x p"
  then have nz: "x \<noteq> 0" by (auto simp: high_bit_def)
  define y1 where "y1 = (if x AND 0xffff0000 = 0 then (push_bit 16 x, 32 - 16) else (x, 32 :: nat))"
  define y2 where "y2 = (if fst y1 AND 0xff000000 = 0 then (push_bit 8 (fst y1), snd y1 - 8) else (fst y1, snd y1))"
  define y3 where "y3 = (if fst y2 AND 0xf0000000 = 0 then (push_bit 4 (fst y2), snd y2 - 4) else (fst y2, snd y2))"
  define y4 where "y4 = (if fst y3 AND 0xc0000000 = 0 then (push_bit 2 (fst y3), snd y3 - 2) else (fst y3, snd y3))"
  define y5 where "y5 = (if fst y4 AND 0x80000000 = 0 then (push_bit 1 (fst y4), snd y4 - 1) else (fst y4, snd y4))"
  have m: "(0xffff0000 :: u32) = push_bit (32 - 16) (mask 16)" "(0xff000000 :: u32) = push_bit (32 - 8) (mask 8)"
      "(0xf0000000 :: u32) = push_bit (32 - 4) (mask 4)" "(0xc0000000 :: u32) = push_bit (32 - 2) (mask 2)"
      "(0x80000000 :: u32) = push_bit (32 - 1) (mask 1)"
    by (simp_all add: mask_eq_exp_minus_1 push_bit_eq_mult)
  have p: "p < 32" using x bit_imp_le_length[of x p] by (simp add: high_bit_def)
  obtain p1 where p1: "high_bit (fst y1) p1" "32 - 2 * 8 \<le> p1" "snd y1 + p1 = 32 + p" "16 \<le> snd y1"
    using high_stage[OF x _ _ m(1), of 32 "fst y1" "snd y1"] by (auto simp: y1_def split: if_splits)
  obtain p2 where p2: "high_bit (fst y2) p2" "32 - 2 * 4 \<le> p2" "snd y2 + p2 = 32 + p" "8 \<le> snd y2"
    using high_stage[OF p1(1,2) _ m(2), of "snd y1" "fst y2" "snd y2"] p1(3,4) by (auto simp: y2_def split: if_splits)
  obtain p3 where p3: "high_bit (fst y3) p3" "32 - 2 * 2 \<le> p3" "snd y3 + p3 = 32 + p" "4 \<le> snd y3"
    using high_stage[OF p2(1,2) _ m(3), of "snd y2" "fst y3" "snd y3"] p2(3,4) by (auto simp: y3_def split: if_splits)
  obtain p4 where p4: "high_bit (fst y4) p4" "32 - 2 * 1 \<le> p4" "snd y4 + p4 = 32 + p" "2 \<le> snd y4"
    using high_stage[OF p3(1,2) _ m(4), of "snd y3" "fst y4" "snd y4"] p3(3,4) by (auto simp: y4_def split: if_splits)
  obtain p5 where p5: "high_bit (fst y5) p5" "32 - 1 \<le> p5" "snd y5 + p5 = 32 + p"
    using high_stage[OF p4(1,2) _ m(5), of "snd y4" "fst y5" "snd y5"] p4(3,4) by (auto simp: y5_def)
  have "p5 < 32" using p5(1) bit_imp_le_length[of "fst y5" p5] by (simp add: high_bit_def)
  moreover have "generic_fls x = snd y5"
    unfolding generic_fls_def Let_def y5_def y4_def y3_def y2_def y1_def
    using nz by (simp only: if_False case_prod_unfold)
  ultimately show ?thesis using p5(2,3) by simp
qed

lemma find_upt: "P p \<Longrightarrow> (\<forall>i < p. \<not> P i) \<Longrightarrow> p < n \<Longrightarrow> find P [0..<n] = Some p"
  by (auto simp: find_Some_iff)

lemma find_rev_upt: "P p \<Longrightarrow> (\<forall>i > p. \<not> P i) \<Longrightarrow> p < n \<Longrightarrow> find P (rev [0..<n]) = Some p"
  by (auto simp: find_Some_iff rev_nth intro!: exI[of _ "n - Suc p"])

lemma ffs_low: "low_bit x p \<Longrightarrow> ffs x = p + 1"
  using find_upt[of "bit x" p 64] bit_imp_le_length[of x p] by (simp add: ffs_def low_bit_def)

lemma fls_high: "high_bit x p \<Longrightarrow> fls x = p + 1"
  using find_rev_upt[of "bit x" p 64] bit_imp_le_length[of x p] by (simp add: fls_def high_bit_def)

lemma ffs_fls_0 [simp]: "ffs 0 = 0" "fls 0 = 0"
proof -
  have "find (bit (0 :: ulong)) xs = None" for xs by (simp add: find_None_iff)
  then show "ffs 0 = 0" "fls 0 = 0" by (simp_all add: ffs_def fls_def del: bit_0_eq)
qed

section \<open>Properties\<close>

text \<open>C36: the generic routines that find the first and the last bit set, which halve the word in steps, agree with a scan
  of the word bit by bit: the number of the bit, counted from 1, or 0 when no bit is set.\<close>

theorem generic_find_bits: "generic_ffs x = ffs (ucast x) \<and> generic_fls x = fls (ucast x)"
proof (cases "x = 0")
  case True
  then show ?thesis by (simp add: generic_ffs_def generic_fls_def)
next
  case False
  obtain p q where pq: "low_bit x p" "high_bit x q" using low_bit_exists high_bit_exists False by blast
  moreover have "p < 64" "q < 64"
    using pq bit_imp_le_length[of x p] bit_imp_le_length[of x q] by (auto simp: low_bit_def high_bit_def)
  ultimately have "low_bit (ucast x :: ulong) p" "high_bit (ucast x :: ulong) q"
    by (auto simp: low_bit_def high_bit_def bit_simps)
  then show ?thesis using pq generic_ffs_low generic_fls_high ffs_low fls_high by metis
qed

text \<open>C37: the routines that count the bits of a word by adding fields in parallel return the number of bits set.\<close>

theorem generic_hweight_counts:
  "unat (generic_hweight32 v) = card {i. bit v i} \<and> unat (generic_hweight64 w) = card {i. bit w i}"
  using hweight32_card hweight64_card by blast

text \<open>C38: the 64-bit search for the last bit set is wrong for every word of more than 32 bits: it adds 32 to the number of
  the bit in the whole word, so that the result lies beyond the 64 bits there are.\<close>

theorem generic_fls64_beyond:
  assumes "drop_bit 32 x \<noteq> 0"
  shows "generic_fls64 x = fls x + 32 \<and> generic_fls64 x > 64"
proof -
  obtain p where p: "bit (drop_bit 32 x) p" "\<forall>i. p < i \<longrightarrow> \<not> bit (drop_bit 32 x) i"
    using high_bit_exists assms unfolding high_bit_def by blast
  have "\<not> bit x i" if "32 + p < i" for i
    using p(2)[rule_format, of "i - 32"] that by (simp add: bit_drop_bit_eq)
  then have "high_bit x (32 + p)" using p(1) by (simp add: high_bit_def bit_drop_bit_eq)
  then show ?thesis using assms fls_high by (simp add: generic_fls64_def)
qed

theorem generic_fls64_beyond_witness: "generic_fls64 0x100000000 = 65"
proof -
  have "(0x100000000 :: ulong) = 2 ^ 32" by simp
  then have "high_bit (0x100000000 :: ulong) 32"
    unfolding high_bit_def by (simp only: bit_exp_iff) simp
  then show ?thesis using generic_fls64_beyond[of "0x100000000"] fls_high by (simp add: drop_bit_eq_div)
qed

end
