(* ===== verification/Bitmap.thy ===== *)
theory Bitmap
  imports Bitops
begin

text \<open>
  Bitmaps: \<open>xen/common/bitmap.c\<close> and the inline functions of \<open>xen/include/xen/bitmap.h\<close>.
  An array of words is a list; sizes, shifts and positions are natural numbers, which the code keeps in an \<open>int\<close>: none is to come
  within 64 of \<open>2\<^sup>3\<^sup>1\<close>. A function that writes its result into an
  array takes the array as its first argument and returns it updated. The arrays do not overlap, unless they are the same.
\<close>

type_synonym bitmap = "ulong list"

definition BITS_PER_LONG :: nat where
  "BITS_PER_LONG = 64"

definition BITS_TO_LONGS :: "nat \<Rightarrow> nat" where
  "BITS_TO_LONGS bits = (bits + BITS_PER_LONG - 1) div BITS_PER_LONG"

definition BITMAP_LAST_WORD_MASK :: "nat \<Rightarrow> ulong" where
  "BITMAP_LAST_WORD_MASK nbits =
     (if nbits mod BITS_PER_LONG \<noteq> 0 then push_bit (nbits mod BITS_PER_LONG) 1 - 1 else NOT 0)"

section \<open>Tests\<close>

text \<open>A loop that returns at the first word that decides is a test of all the words in order.\<close>

definition bitmap_empty' :: "bitmap \<Rightarrow> nat \<Rightarrow> bool" where
  "bitmap_empty' bitmap bits =
     (let lim = bits div BITS_PER_LONG in
      list_all (\<lambda>k. bitmap ! k = 0) [0..<lim] \<and>
      \<not> (bits mod BITS_PER_LONG \<noteq> 0 \<and> bitmap ! lim AND BITMAP_LAST_WORD_MASK bits \<noteq> 0))"

definition bitmap_full' :: "bitmap \<Rightarrow> nat \<Rightarrow> bool" where
  "bitmap_full' bitmap bits =
     (let lim = bits div BITS_PER_LONG in
      list_all (\<lambda>k. NOT (bitmap ! k) = 0) [0..<lim] \<and>
      \<not> (bits mod BITS_PER_LONG \<noteq> 0 \<and> NOT (bitmap ! lim) AND BITMAP_LAST_WORD_MASK bits \<noteq> 0))"

definition bitmap_equal' :: "bitmap \<Rightarrow> bitmap \<Rightarrow> nat \<Rightarrow> bool" where
  "bitmap_equal' bitmap1 bitmap2 bits =
     (let lim = bits div BITS_PER_LONG in
      list_all (\<lambda>k. bitmap1 ! k = bitmap2 ! k) [0..<lim] \<and>
      \<not> (bits mod BITS_PER_LONG \<noteq> 0 \<and> (bitmap1 ! lim XOR bitmap2 ! lim) AND BITMAP_LAST_WORD_MASK bits \<noteq> 0))"

definition bitmap_intersects' :: "bitmap \<Rightarrow> bitmap \<Rightarrow> nat \<Rightarrow> bool" where
  "bitmap_intersects' bitmap1 bitmap2 bits =
     (let lim = bits div BITS_PER_LONG in
      list_ex (\<lambda>k. bitmap1 ! k AND bitmap2 ! k \<noteq> 0) [0..<lim] \<or>
      bits mod BITS_PER_LONG \<noteq> 0 \<and> (bitmap1 ! lim AND bitmap2 ! lim) AND BITMAP_LAST_WORD_MASK bits \<noteq> 0)"

definition bitmap_subset' :: "bitmap \<Rightarrow> bitmap \<Rightarrow> nat \<Rightarrow> bool" where
  "bitmap_subset' bitmap1 bitmap2 bits =
     (let lim = bits div BITS_PER_LONG in
      list_all (\<lambda>k. bitmap1 ! k AND NOT (bitmap2 ! k) = 0) [0..<lim] \<and>
      \<not> (bits mod BITS_PER_LONG \<noteq> 0 \<and> (bitmap1 ! lim AND NOT (bitmap2 ! lim)) AND BITMAP_LAST_WORD_MASK bits \<noteq> 0))"

definition bitmap_weight' :: "bitmap \<Rightarrow> nat \<Rightarrow> nat" where
  "bitmap_weight' bitmap bits =
     (let lim = bits div BITS_PER_LONG;
          w = fold (\<lambda>k w. w + unat (generic_hweight64 (bitmap ! k))) [0..<lim] 0
      in if bits mod BITS_PER_LONG \<noteq> 0
         then w + unat (generic_hweight64 (bitmap ! lim AND BITMAP_LAST_WORD_MASK bits)) else w)"

section \<open>Operations\<close>

text \<open>\<open>for (k = 0; k < n; k++) dst[k] = f(k)\<close>\<close>

definition for_each_word :: "bitmap \<Rightarrow> nat \<Rightarrow> (nat \<Rightarrow> ulong) \<Rightarrow> bitmap" where
  "for_each_word dst n f = fold (\<lambda>k dst. dst[k := f k]) [0..<n] dst"

definition bitmap_complement' :: "bitmap \<Rightarrow> bitmap \<Rightarrow> nat \<Rightarrow> bitmap" where
  "bitmap_complement' dst src bits =
     (let lim = bits div BITS_PER_LONG;
          dst = for_each_word dst lim (\<lambda>k. NOT (src ! k))
      in if bits mod BITS_PER_LONG \<noteq> 0 then dst[lim := NOT (src ! lim) AND BITMAP_LAST_WORD_MASK bits] else dst)"

definition bitmap_and' :: "bitmap \<Rightarrow> bitmap \<Rightarrow> bitmap \<Rightarrow> nat \<Rightarrow> bitmap" where
  "bitmap_and' dst bitmap1 bitmap2 bits =
     for_each_word dst (BITS_TO_LONGS bits) (\<lambda>k. bitmap1 ! k AND bitmap2 ! k)"

definition bitmap_or' :: "bitmap \<Rightarrow> bitmap \<Rightarrow> bitmap \<Rightarrow> nat \<Rightarrow> bitmap" where
  "bitmap_or' dst bitmap1 bitmap2 bits =
     for_each_word dst (BITS_TO_LONGS bits) (\<lambda>k. bitmap1 ! k OR bitmap2 ! k)"

definition bitmap_xor' :: "bitmap \<Rightarrow> bitmap \<Rightarrow> bitmap \<Rightarrow> nat \<Rightarrow> bitmap" where
  "bitmap_xor' dst bitmap1 bitmap2 bits =
     for_each_word dst (BITS_TO_LONGS bits) (\<lambda>k. bitmap1 ! k XOR bitmap2 ! k)"

definition bitmap_andnot' :: "bitmap \<Rightarrow> bitmap \<Rightarrow> bitmap \<Rightarrow> nat \<Rightarrow> bitmap" where
  "bitmap_andnot' dst bitmap1 bitmap2 bits =
     for_each_word dst (BITS_TO_LONGS bits) (\<lambda>k. bitmap1 ! k AND NOT (bitmap2 ! k))"

text \<open>A word of a shifted bitmap. The shift by the whole width of a word, of the word 0 only, gives 0.\<close>

definition shift_right_word :: "bitmap \<Rightarrow> nat \<Rightarrow> nat \<Rightarrow> nat \<Rightarrow> ulong" where
  "shift_right_word src shift bits k =
     (let lim = BITS_TO_LONGS bits; left = bits mod BITS_PER_LONG;
          off = shift div BITS_PER_LONG; rem = shift mod BITS_PER_LONG;
          mask = push_bit left 1 - 1;
          upper = (if rem = 0 \<or> off + k + 1 \<ge> lim then 0
                   else if off + k + 1 = lim - 1 \<and> left \<noteq> 0 then src ! (off + k + 1) AND mask
                   else src ! (off + k + 1));
          lower = (if left \<noteq> 0 \<and> off + k = lim - 1 then src ! (off + k) AND mask else src ! (off + k));
          w = push_bit (BITS_PER_LONG - rem) upper OR drop_bit rem lower
      in if left \<noteq> 0 \<and> k = lim - 1 then w AND mask else w)"

text \<open>For a shift by more words than there are, the code clears memory in front of the bitmap: \<open>BUG\<close> here.\<close>

definition bitmap_shift_right' :: "bitmap \<Rightarrow> bitmap \<Rightarrow> nat \<Rightarrow> nat \<Rightarrow> bitmap outcome" where
  "bitmap_shift_right' dst src shift bits =
     (let lim = BITS_TO_LONGS bits; off = shift div BITS_PER_LONG in
      bug_on (off > lim)
        (let dst = for_each_word dst (lim - off) (shift_right_word src shift bits)
         in Done (fold (\<lambda>k dst. dst[k := 0]) [lim - off..<lim] dst)))"

definition shift_left_word :: "bitmap \<Rightarrow> nat \<Rightarrow> nat \<Rightarrow> nat \<Rightarrow> ulong" where
  "shift_left_word src shift bits k =
     (let lim = BITS_TO_LONGS bits; left = bits mod BITS_PER_LONG;
          off = shift div BITS_PER_LONG; rem = shift mod BITS_PER_LONG;
          lower = (if rem \<noteq> 0 \<and> k > 0 then src ! (k - 1) else 0);
          upper = (if left \<noteq> 0 \<and> k = lim - 1 then src ! k AND (push_bit left 1 - 1) else src ! k);
          w = drop_bit (BITS_PER_LONG - rem) lower OR push_bit rem upper
      in if left \<noteq> 0 \<and> k + off = lim - 1 then w AND (push_bit left 1 - 1) else w)"

definition bitmap_shift_left' :: "bitmap \<Rightarrow> bitmap \<Rightarrow> nat \<Rightarrow> nat \<Rightarrow> bitmap outcome" where
  "bitmap_shift_left' dst src shift bits =
     (let lim = BITS_TO_LONGS bits; off = shift div BITS_PER_LONG in
      bug_on (off > lim)
        (let dst = fold (\<lambda>k dst. dst[k + off := shift_left_word src shift bits k]) (rev [0..<lim - off]) dst
         in Done (fold (\<lambda>k dst. dst[k := 0]) [0..<off] dst)))"

section \<open>Regions\<close>

text \<open>The mask of an order, \<open>m + (m - 1)\<close> for \<open>m = 1ul << (pages - 1)\<close>.\<close>

definition region_mask :: "nat \<Rightarrow> ulong" where
  "region_mask pages = (let mask = push_bit (pages - 1) 1 in mask + (mask - 1))"

function find_region_from :: "bitmap \<Rightarrow> nat \<Rightarrow> nat \<Rightarrow> nat \<Rightarrow> int \<times> bitmap" where
  "find_region_from bitmap bits pages i =
     (if i < bits \<and> pages > 0 then
        let index = i div BITS_PER_LONG; offset = i - index * BITS_PER_LONG in
        if bitmap ! index AND push_bit offset (region_mask pages) = 0
        then (int i, bitmap[index := bitmap ! index OR push_bit offset (region_mask pages)])
        else find_region_from bitmap bits pages (i + pages)
      else (- ENOMEM, bitmap))"
  by pat_completeness auto
termination
  by (relation "measure (\<lambda>(bitmap, bits, pages, i). bits - i)") auto

declare find_region_from.simps [simp del]

text \<open>\<open>int pages = 1 << order\<close>: the shift is undefined when its result does not fit into an \<open>int\<close>, which is \<open>BUG\<close> here.\<close>

definition int_pages :: "nat \<Rightarrow> nat outcome" where
  "int_pages order = bug_on (order \<ge> 31) (Done (2 ^ order))"

definition bitmap_find_free_region :: "bitmap \<Rightarrow> nat \<Rightarrow> nat \<Rightarrow> (int \<times> bitmap) outcome" where
  "bitmap_find_free_region bitmap bits order =
     bind_outcome (int_pages order) (\<lambda>pages.
       if pages > BITS_PER_LONG then Done (- EINVAL, bitmap) else Done (find_region_from bitmap bits pages 0))"

text \<open>This one has no check of its argument, and the shift by \<open>pages - 1\<close> is undefined beyond the size of a word.\<close>

definition bitmap_release_region :: "bitmap \<Rightarrow> nat \<Rightarrow> nat \<Rightarrow> bitmap outcome" where
  "bitmap_release_region bitmap pos order =
     bind_outcome (int_pages order) (\<lambda>pages.
       let index = pos div BITS_PER_LONG; offset = pos - index * BITS_PER_LONG in
       bug_on (pages > BITS_PER_LONG)
         (Done (bitmap[index := bitmap ! index AND NOT (push_bit offset (region_mask pages))])))"

definition bitmap_allocate_region :: "bitmap \<Rightarrow> nat \<Rightarrow> nat \<Rightarrow> (int \<times> bitmap) outcome" where
  "bitmap_allocate_region bitmap pos order =
     bind_outcome (int_pages order) (\<lambda>pages.
       let index = pos div BITS_PER_LONG; offset = pos - index * BITS_PER_LONG in
       bug_on (pages > BITS_PER_LONG)
         (if bitmap ! index AND push_bit offset (region_mask pages) \<noteq> 0 then Done (- EBUSY, bitmap)
          else Done (0, bitmap[index := bitmap ! index OR push_bit offset (region_mask pages)])))"

section \<open>The inline functions\<close>

text \<open>Up to the size of one word, the inline functions of the header work on that word. A fill of a bitmap
  of no words would write in front of it.\<close>

definition bitmap_zero :: "bitmap \<Rightarrow> nat \<Rightarrow> bitmap" where
  "bitmap_zero dst nbits =
     (if nbits \<le> BITS_PER_LONG then dst[0 := 0] else for_each_word dst (BITS_TO_LONGS nbits) (\<lambda>_. 0))"

definition bitmap_fill :: "bitmap \<Rightarrow> nat \<Rightarrow> bitmap outcome" where
  "bitmap_fill dst nbits =
     (let nlongs = BITS_TO_LONGS nbits;
          dst = (if nlongs > 1 then for_each_word dst (nlongs - 1) (\<lambda>_. NOT 0) else dst)
      in bug_on (nlongs = 0) (Done (dst[nlongs - 1 := BITMAP_LAST_WORD_MASK nbits])))"

definition bitmap_copy :: "bitmap \<Rightarrow> bitmap \<Rightarrow> nat \<Rightarrow> bitmap" where
  "bitmap_copy dst src nbits =
     (if nbits \<le> BITS_PER_LONG then dst[0 := src ! 0] else for_each_word dst (BITS_TO_LONGS nbits) (\<lambda>k. src ! k))"

definition bitmap_and :: "bitmap \<Rightarrow> bitmap \<Rightarrow> bitmap \<Rightarrow> nat \<Rightarrow> bitmap" where
  "bitmap_and dst src1 src2 nbits =
     (if nbits \<le> BITS_PER_LONG then dst[0 := src1 ! 0 AND src2 ! 0] else bitmap_and' dst src1 src2 nbits)"

definition bitmap_or :: "bitmap \<Rightarrow> bitmap \<Rightarrow> bitmap \<Rightarrow> nat \<Rightarrow> bitmap" where
  "bitmap_or dst src1 src2 nbits =
     (if nbits \<le> BITS_PER_LONG then dst[0 := src1 ! 0 OR src2 ! 0] else bitmap_or' dst src1 src2 nbits)"

definition bitmap_xor :: "bitmap \<Rightarrow> bitmap \<Rightarrow> bitmap \<Rightarrow> nat \<Rightarrow> bitmap" where
  "bitmap_xor dst src1 src2 nbits =
     (if nbits \<le> BITS_PER_LONG then dst[0 := src1 ! 0 XOR src2 ! 0] else bitmap_xor' dst src1 src2 nbits)"

definition bitmap_andnot :: "bitmap \<Rightarrow> bitmap \<Rightarrow> bitmap \<Rightarrow> nat \<Rightarrow> bitmap" where
  "bitmap_andnot dst src1 src2 nbits =
     (if nbits \<le> BITS_PER_LONG then dst[0 := src1 ! 0 AND NOT (src2 ! 0)] else bitmap_andnot' dst src1 src2 nbits)"

definition bitmap_complement :: "bitmap \<Rightarrow> bitmap \<Rightarrow> nat \<Rightarrow> bitmap" where
  "bitmap_complement dst src nbits =
     (if nbits \<le> BITS_PER_LONG then dst[0 := NOT (src ! 0) AND BITMAP_LAST_WORD_MASK nbits]
      else bitmap_complement' dst src nbits)"

definition bitmap_equal :: "bitmap \<Rightarrow> bitmap \<Rightarrow> nat \<Rightarrow> bool" where
  "bitmap_equal src1 src2 nbits =
     (if nbits \<le> BITS_PER_LONG then (src1 ! 0 XOR src2 ! 0) AND BITMAP_LAST_WORD_MASK nbits = 0
      else bitmap_equal' src1 src2 nbits)"

definition bitmap_intersects :: "bitmap \<Rightarrow> bitmap \<Rightarrow> nat \<Rightarrow> bool" where
  "bitmap_intersects src1 src2 nbits =
     (if nbits \<le> BITS_PER_LONG then (src1 ! 0 AND src2 ! 0) AND BITMAP_LAST_WORD_MASK nbits \<noteq> 0
      else bitmap_intersects' src1 src2 nbits)"

definition bitmap_subset :: "bitmap \<Rightarrow> bitmap \<Rightarrow> nat \<Rightarrow> bool" where
  "bitmap_subset src1 src2 nbits =
     (if nbits \<le> BITS_PER_LONG then (src1 ! 0 AND NOT (src2 ! 0)) AND BITMAP_LAST_WORD_MASK nbits = 0
      else bitmap_subset' src1 src2 nbits)"

definition bitmap_empty :: "bitmap \<Rightarrow> nat \<Rightarrow> bool" where
  "bitmap_empty src nbits =
     (if nbits \<le> BITS_PER_LONG then src ! 0 AND BITMAP_LAST_WORD_MASK nbits = 0 else bitmap_empty' src nbits)"

definition bitmap_full :: "bitmap \<Rightarrow> nat \<Rightarrow> bool" where
  "bitmap_full src nbits =
     (if nbits \<le> BITS_PER_LONG then NOT (src ! 0) AND BITMAP_LAST_WORD_MASK nbits = 0 else bitmap_full' src nbits)"

definition bitmap_weight :: "bitmap \<Rightarrow> nat \<Rightarrow> nat" where
  "bitmap_weight src nbits = bitmap_weight' src nbits"

text \<open>A shift of a word by its size or more is undefined.\<close>

definition bitmap_shift_right :: "bitmap \<Rightarrow> bitmap \<Rightarrow> nat \<Rightarrow> nat \<Rightarrow> bitmap outcome" where
  "bitmap_shift_right dst src n nbits =
     (if nbits \<le> BITS_PER_LONG then bug_on (n \<ge> BITS_PER_LONG) (Done (dst[0 := drop_bit n (src ! 0)]))
      else bitmap_shift_right' dst src n nbits)"

definition bitmap_shift_left :: "bitmap \<Rightarrow> bitmap \<Rightarrow> nat \<Rightarrow> nat \<Rightarrow> bitmap outcome" where
  "bitmap_shift_left dst src n nbits =
     (if nbits \<le> BITS_PER_LONG
      then bug_on (n \<ge> BITS_PER_LONG) (Done (dst[0 := push_bit n (src ! 0) AND BITMAP_LAST_WORD_MASK nbits]))
      else bitmap_shift_left' dst src n nbits)"

end
