(* ===== verification/Bitmap_Props.thy ===== *)
theory Bitmap_Props
  imports Bitmap
begin

text \<open>Bitmaps as sets of numbers: what the tests, the operations and the regions do to the bits of a bitmap.\<close>

section \<open>Bits of a bitmap\<close>

definition bit_at :: "bitmap \<Rightarrow> nat \<Rightarrow> bool" where
  "bit_at bm i = bit (bm ! (i div 64)) (i mod 64)"

lemma last_mask_eq:
  "BITMAP_LAST_WORD_MASK n = (if n mod 64 \<noteq> 0 then mask (n mod 64) else mask 64)"
  by (auto simp: BITMAP_LAST_WORD_MASK_def BITS_PER_LONG_def mask_eq_exp_minus_1 push_bit_eq_mult
      intro: bit_eqI)

lemma left_mask: "push_bit n 1 - 1 = (mask n :: ulong)"
  by (simp add: mask_eq_exp_minus_1 push_bit_eq_mult)

lemma word_eq_0_bits: "(w :: ulong) = 0 \<longleftrightarrow> (\<forall>j < 64. \<not> bit w j)"
  using bit_word_eqI[of w 0] by auto

lemma div_mod_64: "j < 64 \<Longrightarrow> (64 * k + j) div 64 = k" "j < 64 \<Longrightarrow> (64 * k + j) mod 64 = (j :: nat)"
  by simp_all

lemma all_bits_words:
  "(\<forall>i < bits. P (i div 64) (i mod 64)) \<longleftrightarrow>
     (\<forall>k < bits div 64. \<forall>j < 64. P k j) \<and> (\<forall>j < bits mod 64. P (bits div 64) j)" for bits :: nat
proof
  assume a: "\<forall>i < bits. P (i div 64) (i mod 64)"
  have "P k j" if "k < bits div 64" "j < 64" for k j
  proof -
    have "64 * k + j < bits" using that by auto
    then show ?thesis using a div_mod_64[OF that(2)] by metis
  qed
  moreover have "P (bits div 64) j" if "j < bits mod 64" for j
  proof -
    have "64 * (bits div 64) + bits mod 64 = bits" by simp
    then have "64 * (bits div 64) + j < bits" using that by linarith
    moreover have "j < 64" using that by (meson less_trans mod_less_divisor zero_less_numeral)
    ultimately show ?thesis using a div_mod_64[of j] by metis
  qed
  ultimately show "(\<forall>k < bits div 64. \<forall>j < 64. P k j) \<and> (\<forall>j < bits mod 64. P (bits div 64) j)" by blast
next
  assume a: "(\<forall>k < bits div 64. \<forall>j < 64. P k j) \<and> (\<forall>j < bits mod 64. P (bits div 64) j)"
  show "\<forall>i < bits. P (i div 64) (i mod 64)"
  proof (intro allI impI)
    fix i assume i: "i < bits"
    then have "i div 64 \<le> bits div 64" by (simp add: div_le_mono)
    moreover have "i mod 64 < bits mod 64" if "i div 64 = bits div 64"
      using i that div_mult_mod_eq[of i 64] div_mult_mod_eq[of bits 64] by linarith
    ultimately show "P (i div 64) (i mod 64)" using a by (cases "i div 64 = bits div 64") auto
  qed
qed

text \<open>The pattern of the tests: all words but the last whole, the last one under its mask.\<close>

lemma words_zero:
  "(list_all (\<lambda>k. f k = 0) [0..<bits div 64] \<and>
     \<not> (bits mod 64 \<noteq> 0 \<and> f (bits div 64) AND BITMAP_LAST_WORD_MASK bits \<noteq> 0)) \<longleftrightarrow>
   (\<forall>i < bits. \<not> bit (f (i div 64)) (i mod 64))" for f :: "nat \<Rightarrow> ulong"
proof -
  have l: "(f k AND mask n = 0) \<longleftrightarrow> (\<forall>j < n. \<not> bit (f k) j)" for k n by (rule and_mask_zero)
  have "list_all (\<lambda>k. f k = 0) [0..<bits div 64] \<longleftrightarrow> (\<forall>k < bits div 64. \<forall>j < 64. \<not> bit (f k) j)"
    by (simp add: list_all_iff word_eq_0_bits[symmetric] Ball_def)
  moreover have "\<not> (bits mod 64 \<noteq> 0 \<and> f (bits div 64) AND BITMAP_LAST_WORD_MASK bits \<noteq> 0) \<longleftrightarrow>
      (\<forall>j < bits mod 64. \<not> bit (f (bits div 64)) j)"
    by (cases "bits mod 64 = 0") (simp_all add: last_mask_eq l)
  ultimately show ?thesis using all_bits_words[of bits "\<lambda>k j. \<not> bit (f k) j"] by blast
qed

lemma word_zero:
  "0 < bits \<Longrightarrow> bits \<le> 64 \<Longrightarrow>
   f 0 AND BITMAP_LAST_WORD_MASK bits = 0 \<longleftrightarrow> (\<forall>i < bits. \<not> bit (f (i div 64)) (i mod 64))" for f :: "nat \<Rightarrow> ulong"
proof -
  assume b: "0 < bits" "bits \<le> 64"
  then have "BITMAP_LAST_WORD_MASK bits = mask bits" by (cases "bits = 64") (simp_all add: last_mask_eq)
  then show ?thesis using b and_mask_zero[of "f 0" bits] by auto
qed

lemmas bitmap_word_defs = BITS_PER_LONG_def Let_def

lemma list_ex_not: "list_ex P xs \<longleftrightarrow> \<not> list_all (\<lambda>x. \<not> P x) xs"
  by (simp add: list_ex_iff list_all_iff)

lemma tests_words:
  "bitmap_empty' bm bits \<longleftrightarrow> (\<forall>i < bits. \<not> bit_at bm i)"
  "bitmap_full' bm bits \<longleftrightarrow> (\<forall>i < bits. bit_at bm i)"
  "bitmap_equal' bm bm2 bits \<longleftrightarrow> (\<forall>i < bits. bit_at bm i = bit_at bm2 i)"
  "bitmap_intersects' bm bm2 bits \<longleftrightarrow> (\<exists>i < bits. bit_at bm i \<and> bit_at bm2 i)"
  "bitmap_subset' bm bm2 bits \<longleftrightarrow> (\<forall>i < bits. bit_at bm i \<longrightarrow> bit_at bm2 i)"
proof -
  have m: "i mod 64 < 64" for i :: nat by simp
  show "bitmap_empty' bm bits \<longleftrightarrow> (\<forall>i < bits. \<not> bit_at bm i)"
    using words_zero[of "\<lambda>k. bm ! k" bits] by (simp add: bitmap_empty'_def bitmap_word_defs bit_at_def)
  show "bitmap_full' bm bits \<longleftrightarrow> (\<forall>i < bits. bit_at bm i)"
    using words_zero[of "\<lambda>k. NOT (bm ! k)" bits] m
    by (simp add: bitmap_full'_def bitmap_word_defs bit_at_def bit_not_iff)
  have eq: "bm ! k = bm2 ! k \<longleftrightarrow> bm ! k XOR bm2 ! k = 0" for k
    by (simp add: bit_eq_iff bit_xor_iff)
  show "bitmap_equal' bm bm2 bits \<longleftrightarrow> (\<forall>i < bits. bit_at bm i = bit_at bm2 i)"
    using words_zero[of "\<lambda>k. bm ! k XOR bm2 ! k" bits] unfolding bitmap_equal'_def bitmap_word_defs eq
    by (simp add: bit_at_def bit_xor_iff)
  show "bitmap_intersects' bm bm2 bits \<longleftrightarrow> (\<exists>i < bits. bit_at bm i \<and> bit_at bm2 i)"
    using words_zero[of "\<lambda>k. bm ! k AND bm2 ! k" bits]
    unfolding bitmap_intersects'_def bitmap_word_defs bit_at_def bit_and_iff list_ex_not by (auto simp: bit_and_iff)
  show "bitmap_subset' bm bm2 bits \<longleftrightarrow> (\<forall>i < bits. bit_at bm i \<longrightarrow> bit_at bm2 i)"
    using words_zero[of "\<lambda>k. bm ! k AND NOT (bm2 ! k)" bits] m
    by (simp add: bitmap_subset'_def bitmap_word_defs bit_at_def bit_and_iff bit_not_iff)
qed

lemma tests_word:
  assumes "0 < bits" "bits \<le> 64"
  shows "bm ! 0 AND BITMAP_LAST_WORD_MASK bits = 0 \<longleftrightarrow> (\<forall>i < bits. \<not> bit_at bm i)"
    "NOT (bm ! 0) AND BITMAP_LAST_WORD_MASK bits = 0 \<longleftrightarrow> (\<forall>i < bits. bit_at bm i)"
    "(bm ! 0 XOR bm2 ! 0) AND BITMAP_LAST_WORD_MASK bits = 0 \<longleftrightarrow> (\<forall>i < bits. bit_at bm i = bit_at bm2 i)"
    "(bm ! 0 AND bm2 ! 0) AND BITMAP_LAST_WORD_MASK bits = 0 \<longleftrightarrow> (\<forall>i < bits. \<not> (bit_at bm i \<and> bit_at bm2 i))"
    "(bm ! 0 AND NOT (bm2 ! 0)) AND BITMAP_LAST_WORD_MASK bits = 0 \<longleftrightarrow> (\<forall>i < bits. bit_at bm i \<longrightarrow> bit_at bm2 i)"
  using word_zero[OF assms, of "\<lambda>k. bm ! k"] word_zero[OF assms, of "\<lambda>k. NOT (bm ! k)"]
    word_zero[OF assms, of "\<lambda>k. bm ! k XOR bm2 ! k"] word_zero[OF assms, of "\<lambda>k. bm ! k AND bm2 ! k"]
    word_zero[OF assms, of "\<lambda>k. bm ! k AND NOT (bm2 ! k)"]
  by (simp_all add: bit_at_def bit_simps)

section \<open>The weight\<close>

lemma fold_sum_upt: "fold (\<lambda>k w. w + f k) [0..<n] a = a + (\<Sum>k<n. f k)" for f :: "nat \<Rightarrow> nat"
  by (induction n) simp_all

lemma card_words:
  "card {i. i < 64 * n \<and> bit_at bm i} = (\<Sum>k<n. card {j. bit (bm ! k) j})"
proof (induction n)
  case (Suc n)
  have e: "{i. i < 64 * Suc n \<and> bit_at bm i} = {i. i < 64 * n \<and> bit_at bm i} \<union> (\<lambda>j. 64 * n + j) ` {j. bit (bm ! n) j}"
  proof (intro set_eqI iffI)
    fix i assume i: "i \<in> {i. i < 64 * Suc n \<and> bit_at bm i}"
    show "i \<in> {i. i < 64 * n \<and> bit_at bm i} \<union> (\<lambda>j. 64 * n + j) ` {j. bit (bm ! n) j}"
    proof (cases "i < 64 * n")
      case False
      then have "i = 64 * n + (i - 64 * n)" "i - 64 * n < 64" using i by auto
      then have "bit (bm ! n) (i - 64 * n)" using i div_mod_64[of "i - 64 * n" n] unfolding bit_at_def by simp
      then show ?thesis using \<open>i = _\<close> by blast
    qed (use i in simp)
  next
    fix i assume "i \<in> {i. i < 64 * n \<and> bit_at bm i} \<union> (\<lambda>j. 64 * n + j) ` {j. bit (bm ! n) j}"
    then show "i \<in> {i. i < 64 * Suc n \<and> bit_at bm i}"
      using bit_imp_le_length[of "bm ! n"] by (auto simp: bit_at_def)
  qed
  have fin: "finite {j. bit (bm ! n) j}"
    using bit_imp_le_length finite_subset[of "{j. bit (bm ! n) j}" "{..<64}"] by auto
  show ?case unfolding e using Suc fin by (subst card_Un_disjoint) (auto simp: card_image inj_on_def)
qed simp

lemma bitmap_weight_card: "bitmap_weight' bm bits = card {i. i < bits \<and> bit_at bm i}"
proof -
  let ?n = "bits div 64" and ?r = "bits mod 64"
  have b: "bits = 64 * ?n + ?r" by simp
  have e: "{i. i < bits \<and> bit_at bm i} = {i. i < 64 * ?n \<and> bit_at bm i} \<union>
      (\<lambda>j. 64 * ?n + j) ` {j. j < ?r \<and> bit (bm ! ?n) j}"
  proof (intro set_eqI iffI)
    fix i assume i: "i \<in> {i. i < bits \<and> bit_at bm i}"
    show "i \<in> {i. i < 64 * ?n \<and> bit_at bm i} \<union> (\<lambda>j. 64 * ?n + j) ` {j. j < ?r \<and> bit (bm ! ?n) j}"
    proof (cases "i < 64 * ?n")
      case False
      have "i < bits" using i by simp
      then have j: "i = 64 * ?n + (i - 64 * ?n)" "i - 64 * ?n < ?r" using False b by linarith+
      then have "i - 64 * ?n < 64" by (meson less_trans mod_less_divisor zero_less_numeral)
      then have "bit (bm ! ?n) (i - 64 * ?n)" using i j(1) div_mod_64[of "i - 64 * ?n" ?n] unfolding bit_at_def by simp
      then show ?thesis using j by blast
    qed (use i in simp)
  next
    fix i assume "i \<in> {i. i < 64 * ?n \<and> bit_at bm i} \<union> (\<lambda>j. 64 * ?n + j) ` {j. j < ?r \<and> bit (bm ! ?n) j}"
    moreover have "64 * ?n \<le> bits" "\<And>j. j < ?r \<Longrightarrow> 64 * ?n + j < bits" using b by linarith+
    ultimately show "i \<in> {i. i < bits \<and> bit_at bm i}"
      using bit_imp_le_length[of "bm ! ?n"] by (auto simp: bit_at_def)
  qed
  have "card {i. i < bits \<and> bit_at bm i} = (\<Sum>k<?n. card {j. bit (bm ! k) j}) + card {j. j < ?r \<and> bit (bm ! ?n) j}"
    unfolding e card_words[symmetric] by (subst card_Un_disjoint) (auto simp: card_image inj_on_def)
  moreover have "card {j. j < ?r \<and> bit (bm ! ?n) j} =
      (if ?r \<noteq> 0 then unat (generic_hweight64 (bm ! ?n AND BITMAP_LAST_WORD_MASK bits)) else 0)"
  proof -
    have "{j. bit (bm ! ?n AND mask ?r) j} = {j. j < ?r \<and> bit (bm ! ?n) j}"
      by (auto simp: bit_simps dest: bit_imp_le_length)
    then show ?thesis by (simp add: hweight64_card last_mask_eq)
  qed
  ultimately show ?thesis
    by (simp add: bitmap_weight'_def bitmap_word_defs fold_sum_upt hweight64_card)
qed


section \<open>The operations\<close>

lemma for_each_word_length [simp]: "length (for_each_word dst n f) = length dst"
  unfolding for_each_word_def by (induction n) simp_all

lemma for_each_word_nth:
  "n \<le> length dst \<Longrightarrow> k < length dst \<Longrightarrow> for_each_word dst n f ! k = (if k < n then f k else dst ! k)"
proof (induction n)
  case (Suc n)
  have "for_each_word dst (Suc n) f = (for_each_word dst n f)[n := f n]" by (simp add: for_each_word_def)
  then show ?case using Suc by (auto simp: nth_list_update less_Suc_eq)
qed (simp add: for_each_word_def)

text \<open>A bitmap with room for its bits.\<close>

definition has_room :: "bitmap \<Rightarrow> nat \<Rightarrow> bool" where
  "has_room bm bits \<longleftrightarrow> BITS_TO_LONGS bits \<le> length bm \<and> 0 < length bm"

lemma split64:
  obtains q r where "n = 64 * q + r" "r < 64" "n div 64 = q" "n mod 64 = (r :: nat)"
  using that[of "n div 64" "n mod 64"] by simp

lemma longs: "BITS_TO_LONGS bits = (if bits mod 64 = 0 then bits div 64 else bits div 64 + 1)"
proof (rule split64[of bits])
  fix q r assume b: "bits = 64 * q + r" "r < 64" "bits div 64 = q" "bits mod 64 = r"
  show ?thesis
  proof (cases "r = 0")
    case True
    then show ?thesis using b div_mod_64(1)[of 63 q] by (simp add: BITS_TO_LONGS_def BITS_PER_LONG_def)
  next
    case False
    then have "bits + 64 - 1 = 64 * (q + 1) + (r - 1)" using b(1) by simp
    then show ?thesis using b False div_mod_64(1)[of "r - 1" "q + 1"]
      by (simp only: BITS_TO_LONGS_def BITS_PER_LONG_def) simp
  qed
qed

text \<open>The numbers below \<open>bits\<close>, by word and bit.\<close>

lemma below_iff:
  "j < 64 \<Longrightarrow> 64 * k + j < bits \<longleftrightarrow> k < BITS_TO_LONGS bits \<and> (bits mod 64 \<noteq> 0 \<and> k = BITS_TO_LONGS bits - 1 \<longrightarrow> j < bits mod 64)"
proof (rule split64[of bits])
  fix q r assume j: "j < 64" and b: "bits = 64 * q + r" "r < 64" "bits div 64 = q" "bits mod 64 = r"
  have l: "BITS_TO_LONGS bits = (if r = 0 then q else q + 1)" using longs[of bits] b by simp
  consider "k < q" | "k = q" | "k > q" by linarith
  then show ?thesis
  proof cases
    case 1
    then show ?thesis using j b l by auto
  next
    case 2
    then show ?thesis using j b l by auto
  next
    case 3
    then have "64 * q + r < 64 * k" using b(2) by linarith
    then show ?thesis using 3 b l by auto
  qed
qed

lemma index_in: "i < bits \<Longrightarrow> i div 64 < BITS_TO_LONGS bits"
  using below_iff[of "i mod 64" "i div 64" bits] by simp

lemma for_each_bit:
  "has_room dst bits \<Longrightarrow> i < bits \<Longrightarrow> bit_at (for_each_word dst (BITS_TO_LONGS bits) f) i = bit (f (i div 64)) (i mod 64)"
  using index_in[of i bits] by (simp add: bit_at_def for_each_word_nth has_room_def)

lemma word_op_bit:
  "has_room dst bits \<Longrightarrow> bits \<le> 64 \<Longrightarrow> i < bits \<Longrightarrow> bit_at (dst[0 := w]) i = bit w i"
  by (simp add: bit_at_def has_room_def)

lemma fill_bit:
  assumes "has_room dst bits" "i < bits"
  obtains bm where "bitmap_fill dst bits = Done bm" "bit_at bm i"
proof -
  let ?n = "BITS_TO_LONGS bits"
  have i: "i div 64 < ?n" "?n \<le> length dst" using assms index_in[OF assms(2)] by (simp_all add: has_room_def)
  have last: "bit (BITMAP_LAST_WORD_MASK bits) (i mod 64)" if "i div 64 = ?n - 1"
  proof -
    have "i mod 64 < bits mod 64" if r: "bits mod 64 \<noteq> 0"
    proof -
      have "i div 64 = bits div 64" using \<open>i div 64 = ?n - 1\<close> longs[of bits] r by simp
      then show ?thesis using assms(2) by (metis div_mult_mod_eq nat_add_left_cancel_less)
    qed
    then show ?thesis by (auto simp: last_mask_eq bit_simps)
  qed
  let ?d = "if ?n > 1 then for_each_word dst (?n - 1) (\<lambda>_. NOT 0) else dst"
  have "bit_at (?d[?n - 1 := BITMAP_LAST_WORD_MASK bits]) i"
    using i last assms(1) by (auto simp: bit_at_def nth_list_update for_each_word_nth bit_simps has_room_def)
  then show thesis using that i(1) by (simp add: bitmap_fill_def Let_def bug_on_def)
qed

lemma complement_bit:
  assumes "has_room dst bits" "i < bits"
  shows "bit_at (bitmap_complement' dst src bits) i = (\<not> bit_at src i)"
proof -
  let ?n = "bits div 64"
  have d: "bitmap_complement' dst src bits = (let dst = for_each_word dst ?n (\<lambda>k. NOT (src ! k)) in
      if bits mod 64 \<noteq> 0 then dst[?n := NOT (src ! ?n) AND mask (bits mod 64)] else dst)"
    by (simp add: bitmap_complement'_def bitmap_word_defs last_mask_eq)
  have n: "?n \<le> length dst" "bits mod 64 \<noteq> 0 \<Longrightarrow> ?n < length dst" "i div 64 < length dst"
    using assms index_in[OF assms(2)] longs[of bits] by (auto simp: has_room_def split: if_splits)
  show ?thesis
  proof (cases "i div 64 < ?n")
    case True
    then show ?thesis using n by (simp add: d bit_at_def for_each_word_nth bit_not_iff Let_def)
  next
    case False
    have "i div 64 \<le> ?n" using assms(2) by (simp add: div_le_mono)
    then have i: "i div 64 = ?n" using False by simp
    then have "i mod 64 < bits mod 64"
      using assms(2) div_mult_mod_eq[of i 64] div_mult_mod_eq[of bits 64] by linarith
    then show ?thesis using n i by (simp add: d bit_at_def bit_simps Let_def)
  qed
qed

section \<open>Shifts\<close>

lemma fold_zero_length [simp]: "length (fold (\<lambda>k dst. dst[k := 0]) xs dst) = length dst"
  by (induction xs arbitrary: dst) simp_all

lemma fold_zero_nth:
  "k < length dst \<Longrightarrow> fold (\<lambda>k dst. dst[k := 0]) xs dst ! k = (if k \<in> set xs then 0 else dst ! k)"
  by (induction xs arbitrary: dst) auto

lemma shift_right_word_bit:
  assumes j: "j < 64" and k: "shift div 64 + k < BITS_TO_LONGS bits"
  shows "bit (shift_right_word src shift bits k) j \<longleftrightarrow>
    64 * k + j + shift < bits \<and> bit_at src (64 * k + j + shift)"
proof -
  let ?lim = "BITS_TO_LONGS bits" and ?left = "bits mod 64"
  obtain off rem where s: "shift = 64 * off + rem" "rem < 64" "shift div 64 = off" "shift mod 64 = rem"
    by (rule split64)
  define up where "up = (if rem = 0 \<or> off + k + 1 \<ge> ?lim then 0
    else if off + k + 1 = ?lim - 1 \<and> ?left \<noteq> 0 then src ! (off + k + 1) AND mask ?left else src ! (off + k + 1))"
  define lo where "lo = (if ?left \<noteq> 0 \<and> off + k = ?lim - 1 then src ! (off + k) AND mask ?left else src ! (off + k))"
  have w: "shift_right_word src shift bits k =
      (let w = push_bit (64 - rem) up OR drop_bit rem lo in if ?left \<noteq> 0 \<and> k = ?lim - 1 then w AND mask ?left else w)"
    unfolding shift_right_word_def bitmap_word_defs s(3,4) left_mask up_def lo_def ..
  have lo: "bit lo b \<longleftrightarrow> 64 * (off + k) + b < bits \<and> bit (src ! (off + k)) b" if "b < 64" for b
    using below_iff[OF that, of "off + k" bits] k s(3) by (auto simp: lo_def bit_simps)
  have up: "bit up b \<longleftrightarrow> rem \<noteq> 0 \<and> 64 * (off + k + 1) + b < bits \<and> bit (src ! (off + k + 1)) b" if "b < 64" for b
    using below_iff[OF that, of "off + k + 1" bits] by (auto simp: up_def bit_simps)
  have main: "bit (push_bit (64 - rem) up OR drop_bit rem lo) j \<longleftrightarrow>
      64 * k + j + shift < bits \<and> bit_at src (64 * k + j + shift)"
  proof (cases "j + rem < 64")
    case True
    have e: "64 * k + j + shift = 64 * (off + k) + (j + rem)" using s(1) by simp
    have "\<not> 64 - rem \<le> j" using True by linarith
    then have "\<not> bit (push_bit (64 - rem) up) j" by (simp add: bit_push_bit_iff)
    then show ?thesis unfolding e bit_at_def using True lo[of "j + rem"] div_mod_64[OF True, of "off + k"]
      by (simp add: bit_or_iff bit_drop_bit_eq add.commute)
  next
    case False
    let ?b = "j + rem - 64"
    have b: "?b < 64" "rem \<noteq> 0" using False j s(2) by auto
    have e: "64 * k + j + shift = 64 * (off + k + 1) + ?b" using s(1) False by simp
    have "\<not> bit (drop_bit rem lo) j"
      using False bit_imp_le_length[of lo "rem + j"] by (auto simp: bit_drop_bit_eq)
    moreover have "bit (push_bit (64 - rem) up) j \<longleftrightarrow> bit up ?b"
      using False j s(2) by (auto simp: bit_simps)
    ultimately show ?thesis unfolding e bit_at_def using up[OF b(1)] b(2) div_mod_64[OF b(1), of "off + k + 1"]
      by (simp add: bit_or_iff)
  qed
  show ?thesis
  proof (cases "?left \<noteq> 0 \<and> k = ?lim - 1 \<and> \<not> j < ?left")
    case True
    have "\<not> 64 * k + j < bits" using below_iff[OF j, of k bits] True k by auto
    then show ?thesis using True unfolding w Let_def by (auto simp: bit_simps)
  next
    case False
    then show ?thesis using main j unfolding w Let_def by (auto simp: bit_simps)
  qed
qed


lemma shift_left_word_bit:
  assumes j: "j < 64" and i: "64 * (k + shift div 64) + j < bits"
  shows "bit (shift_left_word src shift bits k) j \<longleftrightarrow>
    shift \<le> 64 * (k + shift div 64) + j \<and> bit_at src (64 * (k + shift div 64) + j - shift)"
proof -
  let ?lim = "BITS_TO_LONGS bits" and ?left = "bits mod 64"
  obtain off rem where s: "shift = 64 * off + rem" "rem < 64" "shift div 64 = off" "shift mod 64 = rem"
    by (rule split64)
  define lo where "lo = (if rem \<noteq> 0 \<and> k > 0 then src ! (k - 1) else 0)"
  define up where "up = (if ?left \<noteq> 0 \<and> k = ?lim - 1 then src ! k AND mask ?left else src ! k)"
  have w: "shift_left_word src shift bits k =
      (let w = drop_bit (64 - rem) lo OR push_bit rem up in if ?left \<noteq> 0 \<and> k + off = ?lim - 1 then w AND mask ?left else w)"
    unfolding shift_left_word_def bitmap_word_defs s(3,4) left_mask up_def lo_def ..
  have i': "64 * (k + off) + j < bits" using i s(3) by simp
  have up: "bit up b \<longleftrightarrow> bit (src ! k) b" if "b \<le> j" for b
  proof -
    have "64 * k + b < bits" "b < 64" using i' that j by auto
    then show ?thesis using below_iff[of b k bits] by (auto simp: up_def bit_simps)
  qed
  have main: "bit (drop_bit (64 - rem) lo OR push_bit rem up) j \<longleftrightarrow>
      shift \<le> 64 * (k + off) + j \<and> bit_at src (64 * (k + off) + j - shift)"
  proof (cases "rem \<le> j")
    case True
    have e: "64 * (k + off) + j - shift = 64 * k + (j - rem)" "shift \<le> 64 * (k + off) + j" using s(1) True by auto
    have "\<not> bit (drop_bit (64 - rem) lo) j"
    proof (cases "rem = 0")
      case False
      then have "64 \<le> 64 - rem + j" using True by simp
      then show ?thesis using bit_imp_le_length[of lo "64 - rem + j"] by (auto simp: bit_drop_bit_eq)
    qed (simp add: lo_def)
    then show ?thesis
      unfolding e(1) bit_at_def using True j e(2) up[of "j - rem"] div_mod_64[of "j - rem" k]
      by (simp add: bit_or_iff bit_push_bit_iff)
  next
    case False
    have "\<not> bit (push_bit rem up) j" using False by (simp add: bit_push_bit_iff)
    moreover have "bit (drop_bit (64 - rem) lo) j \<longleftrightarrow> k > 0 \<and> bit (src ! (k - 1)) (64 - rem + j)"
      using False by (auto simp: lo_def bit_drop_bit_eq)
    moreover have "shift \<le> 64 * (k + off) + j \<longleftrightarrow> k > 0" using s(1,2) False by auto
    moreover have "64 * (k + off) + j - shift = 64 * (k - 1) + (64 - rem + j)" if "k > 0" using s(1,2) False that by auto
    moreover have "64 - rem + j < 64" using False s(2) by linarith
    ultimately show ?thesis using div_mod_64[of "64 - rem + j" "k - 1"] unfolding bit_at_def bit_or_iff by auto
  qed
  have "?left \<noteq> 0 \<and> k + off = ?lim - 1 \<Longrightarrow> j < ?left" using below_iff[OF j, of "k + off" bits] i' by auto
  then show ?thesis using main j unfolding w Let_def s(3) by (auto simp: bit_simps)
qed

lemma fold_shift_left:
  "fold (\<lambda>k dst. dst[k + off := f k]) (rev [0..<n]) dst ! idx =
     (if off \<le> idx \<and> idx < off + n then f (idx - off) else dst ! idx)" if "off + n \<le> length dst" "idx < length dst"
  using that
proof (induction n arbitrary: dst)
  case (Suc n)
  then show ?case by (cases "idx = n + off") (auto simp: less_Suc_eq)
next
  case 0
  then have "\<not> (off \<le> idx \<and> idx < off + 0)" by linarith
  then show ?case by auto
qed

lemma fold_shift_left_length [simp]: "length (fold (\<lambda>k dst. dst[k + off := f k]) ks dst) = length dst"
  by (induction ks arbitrary: dst) simp_all

lemma shift_right_bits:
  assumes "has_room dst bits" "shift \<le> bits"
  obtains r where "bitmap_shift_right' dst src shift bits = Done r" "length r = length dst"
    "\<And>i. i < bits \<Longrightarrow> bit_at r i \<longleftrightarrow> i + shift < bits \<and> bit_at src (i + shift)"
proof -
  let ?lim = "BITS_TO_LONGS bits" and ?off = "shift div 64"
  have off: "?off \<le> ?lim" "?lim \<le> length dst"
    using assms div_le_mono[of shift bits 64] longs[of bits] by (auto simp: has_room_def split: if_splits)
  let ?r = "fold (\<lambda>k dst. dst[k := 0]) [?lim - ?off..<?lim] (for_each_word dst (?lim - ?off) (shift_right_word src shift bits))"
  have "bit_at ?r i \<longleftrightarrow> i + shift < bits \<and> bit_at src (i + shift)" if i: "i < bits" for i
  proof -
    have k: "i div 64 < ?lim" "i div 64 < length dst" using index_in[OF i] off by auto
    show ?thesis
    proof (cases "?off + i div 64 < ?lim")
      case True
      then show ?thesis
        using shift_right_word_bit[of "i mod 64" shift "i div 64" bits src] k off
        by (auto simp: bit_at_def fold_zero_nth for_each_word_nth)
    next
      case False
      have "\<not> i + shift < bits"
      proof
        assume "i + shift < bits"
        then have "(i + shift) div 64 < ?lim" by (rule index_in)
        moreover have "i div 64 + ?off \<le> (i + shift) div 64" using div_add1_eq[of i shift 64] by linarith
        ultimately show False using False by simp
      qed
      moreover have "i div 64 \<in> {?lim - ?off..<?lim}" using False k by auto
      ultimately show ?thesis using k by (simp add: bit_at_def fold_zero_nth)
    qed
  qed
  then show thesis using that[of ?r] off by (simp add: bitmap_shift_right'_def bitmap_word_defs)
qed

lemma shift_left_bits:
  assumes "has_room dst bits" "shift \<le> bits"
  obtains r where "bitmap_shift_left' dst src shift bits = Done r" "length r = length dst"
    "\<And>i. i < bits \<Longrightarrow> bit_at r i \<longleftrightarrow> shift \<le> i \<and> bit_at src (i - shift)"
proof -
  let ?lim = "BITS_TO_LONGS bits" and ?off = "shift div 64"
  have off: "?off \<le> ?lim" "?lim \<le> length dst"
    using assms div_le_mono[of shift bits 64] longs[of bits] by (auto simp: has_room_def split: if_splits)
  let ?d = "fold (\<lambda>k dst. dst[k + ?off := shift_left_word src shift bits k]) (rev [0..<?lim - ?off]) dst"
  let ?r = "fold (\<lambda>k dst. dst[k := 0]) [0..<?off] ?d"
  have "bit_at ?r i \<longleftrightarrow> shift \<le> i \<and> bit_at src (i - shift)" if i: "i < bits" for i
  proof -
    have k: "i div 64 < ?lim" "i div 64 < length dst" using index_in[OF i] off by auto
    show ?thesis
    proof (cases "?off \<le> i div 64")
      case True
      let ?k = "i div 64 - ?off"
      have e: "64 * (?k + ?off) + i mod 64 = i" using True by simp
      have "?r ! (i div 64) = shift_left_word src shift bits ?k"
        using True k off fold_shift_left[of ?off "?lim - ?off" dst "i div 64" "shift_left_word src shift bits"]
        by (simp add: fold_zero_nth)
      then show ?thesis
        using shift_left_word_bit[of "i mod 64" ?k shift bits src] i unfolding e by (simp add: bit_at_def)
    next
      case False
      then have "\<not> shift \<le> i" using div_le_mono[of shift i 64] by linarith
      then show ?thesis using False k by (simp add: bit_at_def fold_zero_nth)
    qed
  qed
  then show thesis using that[of ?r] off by (simp add: bitmap_shift_left'_def bitmap_word_defs)
qed


section \<open>Regions\<close>

lemma region_mask_eq: "0 < p \<Longrightarrow> region_mask p = mask p"
proof -
  assume "0 < p"
  then have "(2 :: ulong) ^ p = 2 ^ (p - 1) + 2 ^ (p - 1)"
    by (metis Suc_diff_1 mult_2 power_Suc)
  then show ?thesis by (simp add: region_mask_def Let_def push_bit_eq_mult mask_eq_exp_minus_1)
qed

text \<open>An aligned region lies in one word.\<close>

lemma region_bits:
  assumes "order \<le> 6" "2 ^ order dvd i"
  shows "x div 64 = i div 64 \<and> bit (push_bit (i mod 64) (mask (2 ^ order)) :: ulong) (x mod 64) \<longleftrightarrow>
    i \<le> x \<and> x < i + 2 ^ order" (is "?L \<longleftrightarrow> ?R")
proof -
  let ?p = "2 ^ order :: nat"
  obtain q r where i: "i = 64 * q + r" "r < 64" "i div 64 = q" "i mod 64 = r" by (rule split64)
  obtain k b where x: "x = 64 * k + b" "b < 64" "x div 64 = k" "x mod 64 = b" by (rule split64)
  have p64: "?p dvd 64" using le_imp_power_dvd[OF assms(1), of 2] by simp
  then have "?p dvd 64 * q" by simp
  then have pr: "?p dvd r" using assms(2) i(1) by (metis dvd_add_right_iff)
  have rp: "r + ?p \<le> 64"
  proof (rule ccontr)
    assume "\<not> r + ?p \<le> 64"
    moreover obtain c d where "r = ?p * c" "64 = ?p * d" using pr p64 by (auto elim!: dvdE)
    ultimately have "?p * d < ?p * (c + 1)" "?p * c < ?p * d" using i(2) by (auto simp: algebra_simps)
    then show False by (metis Suc_eq_plus1 less_trans_Suc mult_less_cancel1 not_less_eq)
  qed
  have "?L \<longleftrightarrow> k = q \<and> r \<le> b \<and> b < r + ?p"
    using x i by (auto simp: bit_simps)
  moreover have "?R \<longleftrightarrow> k = q \<and> r \<le> b \<and> b < r + ?p"
  proof (cases k q rule: linorder_cases)
    case less
    then have "64 * k + b < 64 * q + r" using x(2) by linarith
    then show ?thesis using less x(1) i(1) by linarith
  next
    case equal
    then show ?thesis using x(1) i(1) by auto
  next
    case greater
    then have "64 * q + 64 \<le> 64 * k" by linarith
    then have "64 * q + r + ?p \<le> 64 * k + b" using rp by linarith
    then show ?thesis using greater x(1) i(1) by linarith
  qed
  ultimately show ?thesis by blast
qed

lemma find_region_spec:
  assumes "order \<le> 6" "has_room bm bits" "2 ^ order dvd i0"
    and "\<forall>i < i0. 2 ^ order dvd i \<longrightarrow> (\<exists>x \<in> {i..<i + 2 ^ order}. bit_at bm x)"
    and "find_region_from bm bits (2 ^ order) i0 = (rc, bm1)"
  shows "(rc = - ENOMEM \<and> bm1 = bm \<and> (\<forall>i < bits. 2 ^ order dvd i \<longrightarrow> (\<exists>x \<in> {i..<i + 2 ^ order}. bit_at bm x))) \<or>
    (\<exists>i < bits. rc = int i \<and> 2 ^ order dvd i \<and> (\<forall>x \<in> {i..<i + 2 ^ order}. \<not> bit_at bm x) \<and>
       (\<forall>k < i. 2 ^ order dvd k \<longrightarrow> (\<exists>x \<in> {k..<k + 2 ^ order}. bit_at bm x)) \<and>
       bm1 = bm[i div 64 := bm ! (i div 64) OR push_bit (i mod 64) (mask (2 ^ order))])"
  using assms(3-5)
proof (induction "bits - i0" arbitrary: i0 rule: less_induct)
  case less
  let ?p = "2 ^ order :: nat" let ?m = "push_bit (i0 mod 64) (mask ?p) :: ulong"
  have off: "i0 - i0 div 64 * 64 = i0 mod 64" by (metis minus_div_mult_eq_mod)
  have free: "bm ! (i0 div 64) AND ?m = 0 \<longleftrightarrow> (\<forall>x \<in> {i0..<i0 + ?p}. \<not> bit_at bm x)"
  proof
    assume z: "bm ! (i0 div 64) AND ?m = 0"
    show "\<forall>x \<in> {i0..<i0 + ?p}. \<not> bit_at bm x"
    proof
      fix x assume "x \<in> {i0..<i0 + ?p}"
      then have "x div 64 = i0 div 64" "bit ?m (x mod 64)" using region_bits[OF assms(1) less.prems(1), of x] by auto
      then show "\<not> bit_at bm x" using z by (metis bit_0_eq bit_and_iff bit_at_def bot_apply bot_bool_def)
    qed
  next
    assume f: "\<forall>x \<in> {i0..<i0 + ?p}. \<not> bit_at bm x"
    show "bm ! (i0 div 64) AND ?m = 0"
      unfolding word_eq_0_bits
    proof (intro allI impI)
      fix j assume j: "j < (64 :: nat)"
      obtain x where x: "x div 64 = i0 div 64" "x mod 64 = j" using div_mod_64[OF j] by blast
      show "\<not> bit (bm ! (i0 div 64) AND ?m) j"
        using f[rule_format, of x] region_bits[OF assms(1) less.prems(1), of x] x by (auto simp: bit_and_iff bit_at_def)
    qed
  qed
  have eq: "find_region_from bm bits ?p i0 =
      (if i0 < bits then if bm ! (i0 div 64) AND ?m = 0 then (int i0, bm[i0 div 64 := bm ! (i0 div 64) OR ?m])
         else find_region_from bm bits ?p (i0 + ?p) else (- ENOMEM, bm))"
    by (subst find_region_from.simps) (simp add: bitmap_word_defs off region_mask_eq)
  show ?case
  proof (cases "i0 < bits")
    case False
    then have "\<forall>i < bits. ?p dvd i \<longrightarrow> (\<exists>x \<in> {i..<i + ?p}. bit_at bm x)" using less.prems(2) by auto
    then show ?thesis using eq False less.prems(3) by simp
  next
    case True
    show ?thesis
    proof (cases "bm ! (i0 div 64) AND ?m = 0")
      case True
      then have "rc = int i0 \<and> bm1 = bm[i0 div 64 := bm ! (i0 div 64) OR ?m]"
        using eq \<open>i0 < bits\<close> less.prems(3) by simp
      then show ?thesis using less.prems(1,2) free True \<open>i0 < bits\<close> by blast
    next
      case False
      have "\<exists>x \<in> {k..<k + ?p}. bit_at bm x" if "k < i0 + ?p" "?p dvd k" for k
      proof (cases "k < i0")
        case False
        then have "?p dvd k - i0" "k - i0 < ?p" using that less.prems(1) by (auto simp: dvd_diff_nat)
        then have "k = i0" using False by (auto dest: dvd_imp_le)
        then show ?thesis using free \<open>bm ! (i0 div 64) AND ?m \<noteq> 0\<close> by blast
      qed (use less.prems(2) that in blast)
      moreover have "0 < ?p" by simp
      then have "bits - (i0 + ?p) < bits - i0" using \<open>i0 < bits\<close> by linarith
      ultimately show ?thesis
        using less.hyps[of "i0 + ?p"] less.prems(1,3) eq \<open>i0 < bits\<close> False by simp
    qed
  qed
qed

lemma region_set:
  assumes "order \<le> 6" "2 ^ order dvd i" "i div 64 < length bm" "x div 64 < length bm"
  shows "bit_at (bm[i div 64 := bm ! (i div 64) OR push_bit (i mod 64) (mask (2 ^ order))]) x \<longleftrightarrow>
    bit_at bm x \<or> i \<le> x \<and> x < i + 2 ^ order"
  using region_bits[OF assms(1,2), of x] assms(3,4) by (cases "x div 64 = i div 64") (auto simp: bit_at_def bit_or_iff)

lemma small_pages:
  assumes "order \<le> 6"
  shows "int_pages order = Done (2 ^ order)" "(2 :: nat) ^ order \<le> 64"
  using assms power_increasing[of order 6 "2 :: nat"] by (simp_all add: int_pages_def)

lemma region_release:
  assumes "order \<le> 6" "2 ^ order dvd i" "\<forall>x \<in> {i..<i + 2 ^ order}. \<not> bit_at bm x"
  shows "bitmap_release_region (bm[i div 64 := bm ! (i div 64) OR push_bit (i mod 64) (mask (2 ^ order))]) i order = Done bm"
proof (cases "i div 64 < length bm")
  case True
  let ?m = "push_bit (i mod 64) (mask (2 ^ order)) :: ulong" and ?w = "bm ! (i div 64)"
  have "(?w OR ?m) AND NOT ?m = ?w"
  proof (rule bit_word_eqI)
    fix j assume "j < LENGTH(64)"
    then have j: "j < 64" by simp
    obtain x where x: "x div 64 = i div 64" "x mod 64 = j" using div_mod_64[OF j] by blast
    have "\<not> (bit ?w j \<and> bit ?m j)"
      using assms(3)[rule_format, of x] region_bits[OF assms(1,2), of x] x by (auto simp: bit_at_def)
    then show "bit ((?w OR ?m) AND NOT ?m) j = bit ?w j" using j by (auto simp: bit_and_iff bit_or_iff bit_not_iff)
  qed
  moreover have "i - i div 64 * 64 = i mod 64" by (metis minus_div_mult_eq_mod)
  ultimately show ?thesis
    using True small_pages[OF assms(1)] by (simp add: bitmap_release_region_def bitmap_word_defs region_mask_eq)
next
  case False
  then show ?thesis
    using small_pages[OF assms(1)] by (simp add: bitmap_release_region_def bitmap_word_defs list_update_beyond)
qed

section \<open>Properties\<close>

text \<open>C33: the tests on bitmaps are the tests on the sets of numbers they stand for. For a size other than 0, and whatever the unused bits of the last word
  hold, empty, full, equal, intersecting and subset look at exactly the bits below the size, in the loops over words and in the
  inline forms for bitmaps of at most one word alike. For size 0 the inline forms look at all 64 bits of the first
  word. The weight is the number of members for every size.\<close>

theorem bitmap_tests:
  "(0 < n \<longrightarrow>
      (bitmap_empty a n \<longleftrightarrow> {i. i < n \<and> bit_at a i} = {}) \<and>
      (bitmap_full a n \<longleftrightarrow> {i. i < n \<and> bit_at a i} = {..<n}) \<and>
      (bitmap_equal a b n \<longleftrightarrow> {i. i < n \<and> bit_at a i} = {i. i < n \<and> bit_at b i}) \<and>
      (bitmap_intersects a b n \<longleftrightarrow> {i. i < n \<and> bit_at a i} \<inter> {i. i < n \<and> bit_at b i} \<noteq> {}) \<and>
      (bitmap_subset a b n \<longleftrightarrow> {i. i < n \<and> bit_at a i} \<subseteq> {i. i < n \<and> bit_at b i})) \<and>
    (bitmap_empty a 0 = bitmap_empty a 64 \<and> bitmap_full a 0 = bitmap_full a 64 \<and> bitmap_equal a b 0 = bitmap_equal a b 64 \<and>
      bitmap_intersects a b 0 = bitmap_intersects a b 64 \<and> bitmap_subset a b 0 = bitmap_subset a b 64) \<and>
    bitmap_weight a n = card {i. i < n \<and> bit_at a i}"
proof (intro conjI impI)
  assume n: "0 < n"
  have t: "bitmap_empty a n \<longleftrightarrow> (\<forall>i < n. \<not> bit_at a i)" "bitmap_full a n \<longleftrightarrow> (\<forall>i < n. bit_at a i)"
    "bitmap_equal a b n \<longleftrightarrow> (\<forall>i < n. bit_at a i = bit_at b i)"
    "bitmap_intersects a b n \<longleftrightarrow> (\<exists>i < n. bit_at a i \<and> bit_at b i)"
    "bitmap_subset a b n \<longleftrightarrow> (\<forall>i < n. bit_at a i \<longrightarrow> bit_at b i)"
    by (cases "n \<le> 64"; simp add: bitmap_empty_def bitmap_full_def bitmap_equal_def bitmap_intersects_def
        bitmap_subset_def BITS_PER_LONG_def tests_word[OF n] tests_words)+
  show "bitmap_empty a n \<longleftrightarrow> {i. i < n \<and> bit_at a i} = {}" using t(1) by auto
  show "bitmap_full a n \<longleftrightarrow> {i. i < n \<and> bit_at a i} = {..<n}" using t(2) by auto
  show "bitmap_equal a b n \<longleftrightarrow> {i. i < n \<and> bit_at a i} = {i. i < n \<and> bit_at b i}" using t(3) by auto
  show "bitmap_intersects a b n \<longleftrightarrow> {i. i < n \<and> bit_at a i} \<inter> {i. i < n \<and> bit_at b i} \<noteq> {}" using t(4) by auto
  show "bitmap_subset a b n \<longleftrightarrow> {i. i < n \<and> bit_at a i} \<subseteq> {i. i < n \<and> bit_at b i}" using t(5) by auto
next
  show "bitmap_weight a n = card {i. i < n \<and> bit_at a i}" by (simp add: bitmap_weight_def bitmap_weight_card)
qed (simp_all add: bitmap_empty_def bitmap_full_def bitmap_equal_def bitmap_intersects_def bitmap_subset_def
    BITMAP_LAST_WORD_MASK_def BITS_PER_LONG_def)

theorem bitmap_tests_witness:
  "0 < (70 :: nat) \<and> (bitmap_empty [0xF0, 0xFF] 70 \<longleftrightarrow> {i. i < 70 \<and> bit_at [0xF0, 0xFF] i} = {})"
  using bitmap_tests[of 70 "[0xF0, 0xFF]" "[]"] by simp

text \<open>C34: the operations on bitmaps with room for their bits are the operations on sets below the size: intersection, union,
  symmetric difference, difference and complement, zeroing, filling and copying. Shifting a bitmap of more than one word by at most its size moves every
  member down or up, with zeros fed in, and never leaves the bitmap.\<close>

theorem bitmap_operations:
  assumes "0 < n" "has_room dst n" "i < n"
  shows "(bit_at (bitmap_and dst a b n) i \<longleftrightarrow> bit_at a i \<and> bit_at b i) \<and>
    (bit_at (bitmap_or dst a b n) i \<longleftrightarrow> bit_at a i \<or> bit_at b i) \<and>
    (bit_at (bitmap_xor dst a b n) i \<longleftrightarrow> bit_at a i \<noteq> bit_at b i) \<and>
    (bit_at (bitmap_andnot dst a b n) i \<longleftrightarrow> bit_at a i \<and> \<not> bit_at b i) \<and>
    (bit_at (bitmap_complement dst a n) i \<longleftrightarrow> \<not> bit_at a i) \<and>
    \<not> bit_at (bitmap_zero dst n) i \<and> (bit_at (bitmap_copy dst a n) i \<longleftrightarrow> bit_at a i) \<and>
    (\<exists>r. bitmap_fill dst n = Done r \<and> bit_at r i) \<and>
    (n > 64 \<and> s \<le> n \<longrightarrow>
      (\<exists>r. bitmap_shift_right dst a s n = Done r \<and> (bit_at r i \<longleftrightarrow> i + s < n \<and> bit_at a (i + s))) \<and>
      (\<exists>r. bitmap_shift_left dst a s n = Done r \<and> (bit_at r i \<longleftrightarrow> s \<le> i \<and> bit_at a (i - s))))"
proof -
  have m: "i mod 64 < 64" by simp
  have w: "bit_at a i = bit (a ! 0) i" "bit_at b i = bit (b ! 0) i" "i < 64" if "n \<le> 64"
    using that assms(3) by (simp_all add: bit_at_def)
  have l: "bit (BITMAP_LAST_WORD_MASK n) i" if "n \<le> 64"
    using that assms(1,3) by (cases "n = 64") (auto simp: last_mask_eq bit_simps)
  note e = for_each_bit[OF assms(2,3)] word_op_bit[OF assms(2) _ assms(3)]
  have "(bit_at (bitmap_and dst a b n) i \<longleftrightarrow> bit_at a i \<and> bit_at b i) \<and>
    (bit_at (bitmap_or dst a b n) i \<longleftrightarrow> bit_at a i \<or> bit_at b i) \<and>
    (bit_at (bitmap_xor dst a b n) i \<longleftrightarrow> bit_at a i \<noteq> bit_at b i) \<and>
    (bit_at (bitmap_andnot dst a b n) i \<longleftrightarrow> bit_at a i \<and> \<not> bit_at b i) \<and>
    (bit_at (bitmap_complement dst a n) i \<longleftrightarrow> \<not> bit_at a i) \<and>
    \<not> bit_at (bitmap_zero dst n) i \<and> (bit_at (bitmap_copy dst a n) i \<longleftrightarrow> bit_at a i)"
  proof (cases "n \<le> 64")
    case True
    then show ?thesis using w l
      by (simp add: e bitmap_and_def bitmap_or_def bitmap_xor_def bitmap_andnot_def bitmap_complement_def
          bitmap_zero_def bitmap_copy_def BITS_PER_LONG_def bit_simps)
  next
    case False
    then show ?thesis using m complement_bit[OF assms(2,3)]
      by (simp add: e bitmap_and_def bitmap_or_def bitmap_xor_def bitmap_andnot_def bitmap_complement_def
          bitmap_and'_def bitmap_or'_def bitmap_xor'_def bitmap_andnot'_def
          bitmap_zero_def bitmap_copy_def BITS_PER_LONG_def bit_at_def[of a] bit_at_def[of b] bit_simps)
  qed
  moreover have "\<exists>r. bitmap_fill dst n = Done r \<and> bit_at r i" using fill_bit[OF assms(2,3)] by metis
  moreover have "\<exists>r. bitmap_shift_right dst a s n = Done r \<and> (bit_at r i \<longleftrightarrow> i + s < n \<and> bit_at a (i + s))"
    if "n > 64" "s \<le> n"
  proof -
    have "bitmap_shift_right dst a s n = bitmap_shift_right' dst a s n"
      using that(1) by (simp add: bitmap_shift_right_def BITS_PER_LONG_def)
    then show ?thesis using assms(3) by (metis shift_right_bits[OF assms(2) that(2), of a])
  qed
  moreover have "\<exists>r. bitmap_shift_left dst a s n = Done r \<and> (bit_at r i \<longleftrightarrow> s \<le> i \<and> bit_at a (i - s))"
    if "n > 64" "s \<le> n"
  proof -
    have "bitmap_shift_left dst a s n = bitmap_shift_left' dst a s n"
      using that(1) by (simp add: bitmap_shift_left_def BITS_PER_LONG_def)
    then show ?thesis using assms(3) by (metis shift_left_bits[OF assms(2) that(2), of a])
  qed
  ultimately show ?thesis by blast
qed

theorem bitmap_operations_witness:
  "has_room [0, 0] 100 \<and> \<not> bit_at (bitmap_complement [0, 0] [8, 1] 100) 3 \<and> bit_at (bitmap_or [0, 0] [8, 1] [2, 0] 100) 1"
proof -
  have "has_room [0, 0] 100" by (simp add: has_room_def BITS_TO_LONGS_def BITS_PER_LONG_def)
  moreover have "bit_at [8, 1] 3" "bit_at [2, 0] 1" by (simp_all add: bit_at_def bit_numeral_rec)
  ultimately show ?thesis
    using bitmap_operations[of 100 "[0, 0]" 3 "[8, 1]" "[]" 0] bitmap_operations[of 100 "[0, 0]" 1 "[8, 1]" "[2, 0]" 0] by simp
qed

text \<open>C10: searching a bitmap for a free region. For an order of at most 6 the search returns the lowest aligned region that starts below the
  size and none of whose bits is set, sets exactly its bits, and releasing the region gives the bitmap back as it was; it returns
  -ENOMEM, with the bitmap unchanged, exactly when every aligned region that starts below the size has a bit set. An order from 7 to 30 is refused with -EINVAL.
  From 31 on the number of bits does not fit into the \<open>int\<close> that is to hold it, and nothing is promised.\<close>

theorem bitmap_find_free_region_spec:
  assumes "has_room bm bits" "order \<le> 30"
  shows "\<exists>rc bm1. bitmap_find_free_region bm bits order = Done (rc, bm1) \<and>
    (order > 6 \<longrightarrow> rc = - EINVAL \<and> bm1 = bm) \<and>
    (order \<le> 6 \<longrightarrow>
      (rc = - ENOMEM \<and> bm1 = bm \<and> (\<forall>i < bits. 2 ^ order dvd i \<longrightarrow> (\<exists>x \<in> {i..<i + 2 ^ order}. bit_at bm x))) \<or>
      (\<exists>i < bits. rc = int i \<and> 2 ^ order dvd i \<and> (\<forall>x \<in> {i..<i + 2 ^ order}. \<not> bit_at bm x) \<and>
         (\<forall>k < i. 2 ^ order dvd k \<longrightarrow> (\<exists>x \<in> {k..<k + 2 ^ order}. bit_at bm x)) \<and>
         (\<forall>x < 64 * length bm. bit_at bm1 x \<longleftrightarrow> bit_at bm x \<or> i \<le> x \<and> x < i + 2 ^ order) \<and>
         bitmap_release_region bm1 i order = Done bm))"
proof (cases "order \<le> 6")
  case True
  obtain rc bm1 where r: "find_region_from bm bits (2 ^ order) 0 = (rc, bm1)" by fastforce
  then have "bitmap_find_free_region bm bits order = Done (rc, bm1)"
    using small_pages[OF True] by (simp add: bitmap_find_free_region_def bitmap_word_defs)
  note f = this find_region_spec[OF True assms(1) _ _ r]
  have "i div 64 < length bm" if "i < bits" for i using index_in[OF that] assms(1) by (simp add: has_room_def)
  moreover have "x div 64 < length bm" if "x < 64 * length bm" for x using that by (simp add: less_mult_imp_div_less mult.commute)
  ultimately show ?thesis using f True region_set[OF True] region_release[OF True] by auto
next
  case False
  then have "(2 :: nat) ^ 7 \<le> 2 ^ order" by (intro power_increasing) auto
  then show ?thesis using assms(2) False by (simp add: bitmap_find_free_region_def int_pages_def bitmap_word_defs)
qed

theorem bitmap_find_free_region_spec_witness:
  "\<exists>bm1. bitmap_find_free_region [0x0F] 64 2 = Done (4, bm1) \<and> bitmap_release_region bm1 4 2 = Done [0x0F]"
proof -
  have room: "has_room [0x0F] 64" by (simp add: has_room_def BITS_TO_LONGS_def BITS_PER_LONG_def)
  have "fst (find_region_from [0x0F] 64 4 0) = 4" by (simp add: bitmap_word_defs find_region_from.simps region_mask_def)
  then have "bitmap_find_free_region [0x0F] 64 2 = Done (rc, bm1) \<Longrightarrow> rc = 4" for rc bm1
    by (auto simp: bitmap_find_free_region_def int_pages_def bitmap_word_defs)
  with bitmap_find_free_region_spec[OF room, of 2] show ?thesis by fastforce
qed

text \<open>C35: the inline right shift of a bitmap of less than a word lets unused bits in. A bit set beyond the size of the source
  appears below the size in the result, although the bitmaps promise that unused bits never affect a result and the
  shift for longer bitmaps masks them.\<close>

theorem bitmap_shift_right_unused:
  assumes "has_room dst n" "n \<le> j" "j < 64" "s \<le> j" "j - s < n" "bit_at a j"
  shows "\<exists>r. bitmap_shift_right dst a s n = Done r \<and> bit_at r (j - s) \<and> \<not> (j - s) + s < n"
proof -
  have "bit (drop_bit s (a ! 0)) (j - s)" using assms(3,4,6) by (simp add: bit_at_def bit_drop_bit_eq)
  then show ?thesis
    using assms word_op_bit[OF assms(1), of "j - s"] by (simp add: bitmap_shift_right_def BITS_PER_LONG_def)
qed

theorem bitmap_shift_right_unused_witness:
  "bitmap_empty [0x100] 8 \<and> (\<exists>r. bitmap_shift_right [0] [0x100] 1 8 = Done r \<and> bit_at r 7)"
proof -
  have "bit_at [0x100] 8" "has_room [0] 8" "bitmap_empty [0x100] 8"
    by (simp_all add: bit_at_def bit_numeral_rec has_room_def BITS_TO_LONGS_def BITS_PER_LONG_def bitmap_empty_def
        BITMAP_LAST_WORD_MASK_def push_bit_eq_mult)
  then show ?thesis using bitmap_shift_right_unused[of "[0]" 8 8 1 "[0x100]"] by auto
qed

end
