(* ===== verification/Xen_String.thy ===== *)
theory Xen_String
  imports Xen_Prelude
begin

text \<open>
  Strings and memory areas: \<open>xen/common/string.c\<close>, with the character classes of
  \<open>xen/include/xen/ctype.h\<close> and \<open>xen/common/lib.c\<close>.

  A pointer to characters is the list of the bytes of its object from there on; a pointer that a function returns is
  an offset, with \<open>None\<close> for \<open>NULL\<close>. A function that reads or writes beyond the end of an object gives \<open>BUG\<close>. The
  generic \<open>memset\<close>, \<open>memcpy\<close> and \<open>memmove\<close> of the file are modelled, which an architecture may replace.
\<close>

section \<open>Character classes\<close>

definition CT_U :: u8 where "CT_U = 0x01"
definition CT_L :: u8 where "CT_L = 0x02"
definition CT_D :: u8 where "CT_D = 0x04"
definition CT_C :: u8 where "CT_C = 0x08"
definition CT_P :: u8 where "CT_P = 0x10"
definition CT_S :: u8 where "CT_S = 0x20"
definition CT_X :: u8 where "CT_X = 0x40"
definition CT_SP :: u8 where "CT_SP = 0x80"

definition ctype_table :: "u8 list" where
  "ctype_table =
     [CT_C, CT_C, CT_C, CT_C, CT_C, CT_C, CT_C, CT_C,
      CT_C, CT_C OR CT_S, CT_C OR CT_S, CT_C OR CT_S, CT_C OR CT_S, CT_C OR CT_S, CT_C, CT_C,
      CT_C, CT_C, CT_C, CT_C, CT_C, CT_C, CT_C, CT_C,
      CT_C, CT_C, CT_C, CT_C, CT_C, CT_C, CT_C, CT_C,
      CT_S OR CT_SP, CT_P, CT_P, CT_P, CT_P, CT_P, CT_P, CT_P,
      CT_P, CT_P, CT_P, CT_P, CT_P, CT_P, CT_P, CT_P,
      CT_D, CT_D, CT_D, CT_D, CT_D, CT_D, CT_D, CT_D,
      CT_D, CT_D, CT_P, CT_P, CT_P, CT_P, CT_P, CT_P,
      CT_P, CT_U OR CT_X, CT_U OR CT_X, CT_U OR CT_X, CT_U OR CT_X, CT_U OR CT_X, CT_U OR CT_X, CT_U,
      CT_U, CT_U, CT_U, CT_U, CT_U, CT_U, CT_U, CT_U,
      CT_U, CT_U, CT_U, CT_U, CT_U, CT_U, CT_U, CT_U,
      CT_U, CT_U, CT_U, CT_P, CT_P, CT_P, CT_P, CT_P,
      CT_P, CT_L OR CT_X, CT_L OR CT_X, CT_L OR CT_X, CT_L OR CT_X, CT_L OR CT_X, CT_L OR CT_X, CT_L,
      CT_L, CT_L, CT_L, CT_L, CT_L, CT_L, CT_L, CT_L,
      CT_L, CT_L, CT_L, CT_L, CT_L, CT_L, CT_L, CT_L,
      CT_L, CT_L, CT_L, CT_P, CT_P, CT_P, CT_P, CT_C,
      0, 0, 0, 0, 0, 0, 0, 0, 0, 0, 0, 0, 0, 0, 0, 0,
      0, 0, 0, 0, 0, 0, 0, 0, 0, 0, 0, 0, 0, 0, 0, 0,
      CT_S OR CT_SP, CT_P, CT_P, CT_P, CT_P, CT_P, CT_P, CT_P, CT_P, CT_P, CT_P, CT_P, CT_P, CT_P, CT_P, CT_P,
      CT_P, CT_P, CT_P, CT_P, CT_P, CT_P, CT_P, CT_P, CT_P, CT_P, CT_P, CT_P, CT_P, CT_P, CT_P, CT_P,
      CT_U, CT_U, CT_U, CT_U, CT_U, CT_U, CT_U, CT_U, CT_U, CT_U, CT_U, CT_U, CT_U, CT_U, CT_U, CT_U,
      CT_U, CT_U, CT_U, CT_U, CT_U, CT_U, CT_U, CT_P, CT_U, CT_U, CT_U, CT_U, CT_U, CT_U, CT_U, CT_L,
      CT_L, CT_L, CT_L, CT_L, CT_L, CT_L, CT_L, CT_L, CT_L, CT_L, CT_L, CT_L, CT_L, CT_L, CT_L, CT_L,
      CT_L, CT_L, CT_L, CT_L, CT_L, CT_L, CT_L, CT_P, CT_L, CT_L, CT_L, CT_L, CT_L, CT_L, CT_L, CT_L]"

definition ismask :: "u8 \<Rightarrow> u8" where
  "ismask x = ctype_table ! unat x"

definition isdigit :: "u8 \<Rightarrow> bool" where
  "isdigit c \<longleftrightarrow> ismask c AND CT_D \<noteq> 0"

definition islower :: "u8 \<Rightarrow> bool" where
  "islower c \<longleftrightarrow> ismask c AND CT_L \<noteq> 0"

definition isupper :: "u8 \<Rightarrow> bool" where
  "isupper c \<longleftrightarrow> ismask c AND CT_U \<noteq> 0"

definition isxdigit :: "u8 \<Rightarrow> bool" where
  "isxdigit c \<longleftrightarrow> ismask c AND (CT_D OR CT_X) \<noteq> 0"

abbreviation ch :: "char \<Rightarrow> u8" where
  "ch \<equiv> of_char"

definition tolower :: "u8 \<Rightarrow> u8" where
  "tolower c = (if isupper c then c - (ch (CHR ''A'') - ch (CHR ''a'')) else c)"

definition toupper :: "u8 \<Rightarrow> u8" where
  "toupper c = (if islower c then c - (ch (CHR ''a'') - ch (CHR ''A'')) else c)"

section \<open>Lengths\<close>

fun strlen :: "u8 list \<Rightarrow> nat outcome" where
  "strlen [] = BUG"
| "strlen (c # s) = (if c = 0 then Done 0 else bind_outcome (strlen s) (\<lambda>n. Done (Suc n)))"

fun strnlen :: "u8 list \<Rightarrow> nat \<Rightarrow> nat outcome" where
  "strnlen s 0 = Done 0"
| "strnlen [] (Suc count) = BUG"
| "strnlen (c # s) (Suc count) = (if c = 0 then Done 0 else bind_outcome (strnlen s count) (\<lambda>n. Done (Suc n)))"

section \<open>Memory areas\<close>

text \<open>The areas of \<open>memmove\<close> may overlap: both are offsets into one memory.\<close>

definition mem_set :: "u8 list \<Rightarrow> nat \<Rightarrow> u8 \<Rightarrow> nat \<Rightarrow> u8 list outcome" where
  "mem_set m s c count =
     bug_on (s + count > length m) (Done (fold (\<lambda>k m. m[s + k := c]) [0..<count] m))"

definition memcpy :: "u8 list \<Rightarrow> nat \<Rightarrow> u8 list \<Rightarrow> nat \<Rightarrow> u8 list outcome" where
  "memcpy dest d src count =
     bug_on (d + count > length dest \<or> count > length src)
       (Done (fold (\<lambda>k m. m[d + k := src ! k]) [0..<count] dest))"

definition memmove :: "u8 list \<Rightarrow> nat \<Rightarrow> nat \<Rightarrow> nat \<Rightarrow> u8 list outcome" where
  "memmove m dest src count =
     bug_on (dest + count > length m \<or> src + count > length m)
       (Done (if dest \<le> src
              then fold (\<lambda>k m. m[dest + k := m ! (src + k)]) [0..<count] m
              else fold (\<lambda>k m. m[dest + k := m ! (src + k)]) (rev [0..<count]) m))"

fun memcmp :: "u8 list \<Rightarrow> u8 list \<Rightarrow> nat \<Rightarrow> int outcome" where
  "memcmp cs ct 0 = Done 0"
| "memcmp (a # cs) (b # ct) (Suc count) =
     (let res = uint a - uint b in if res \<noteq> 0 then Done res else memcmp cs ct count)"
| "memcmp _ _ (Suc count) = BUG"

text \<open>The result is the offset of the first occurrence, or of the byte after the area. The byte is compared with an \<open>int\<close>.\<close>

fun memscan :: "u8 list \<Rightarrow> int \<Rightarrow> nat \<Rightarrow> nat outcome" where
  "memscan p c 0 = Done 0"
| "memscan [] c (Suc n) = BUG"
| "memscan (x # p) c (Suc n) = (if uint x = c then Done 0 else bind_outcome (memscan p c n) (\<lambda>r. Done (Suc r)))"

fun memchr :: "u8 list \<Rightarrow> u8 \<Rightarrow> nat \<Rightarrow> nat option outcome" where
  "memchr p c 0 = Done None"
| "memchr [] c (Suc n) = BUG"
| "memchr (x # p) c (Suc n) =
     (if c = x then Done (Some 0) else bind_outcome (memchr p c n) (\<lambda>r. Done (map_option Suc r)))"

section \<open>Comparing and searching\<close>

text \<open>The loop of \<open>strnicmp\<close>, for a length that is not 0.\<close>

fun strnicmp_loop :: "u8 list \<Rightarrow> u8 list \<Rightarrow> nat \<Rightarrow> int outcome" where
  "strnicmp_loop (c1 # s1) (c2 # s2) len =
     (if c1 = 0 \<or> c2 = 0 then Done (uint c1 - uint c2)
      else if c1 = c2 then (if len - 1 = 0 then Done 0 else strnicmp_loop s1 s2 (len - 1))
      else if tolower c1 \<noteq> tolower c2 then Done (uint (tolower c1) - uint (tolower c2))
      else if len - 1 = 0 then Done 0 else strnicmp_loop s1 s2 (len - 1))"
| "strnicmp_loop _ _ len = BUG"

definition strnicmp :: "u8 list \<Rightarrow> u8 list \<Rightarrow> nat \<Rightarrow> int outcome" where
  "strnicmp s1 s2 len = (if len \<noteq> 0 then strnicmp_loop s1 s2 len else Done 0)"

text \<open>The difference of two characters is kept in a \<open>signed char\<close>.\<close>

fun strcmp :: "u8 list \<Rightarrow> u8 list \<Rightarrow> int outcome" where
  "strcmp (a # cs) (b # ct) =
     (let res = a - b in if res \<noteq> 0 \<or> a = 0 then Done (sint res) else strcmp cs ct)"
| "strcmp _ _ = BUG"

fun strncmp :: "u8 list \<Rightarrow> u8 list \<Rightarrow> nat \<Rightarrow> int outcome" where
  "strncmp cs ct 0 = Done 0"
| "strncmp (a # cs) (b # ct) (Suc count) =
     (let res = a - b in if res \<noteq> 0 \<or> a = 0 then Done (sint res) else strncmp cs ct count)"
| "strncmp _ _ (Suc count) = BUG"

fun strchr :: "u8 list \<Rightarrow> u8 \<Rightarrow> nat option outcome" where
  "strchr [] c = BUG"
| "strchr (x # s) c =
     (if x \<noteq> c then if x = 0 then Done None else bind_outcome (strchr s c) (\<lambda>r. Done (map_option Suc r))
      else Done (Some 0))"

definition strrchr :: "u8 list \<Rightarrow> u8 \<Rightarrow> nat option outcome" where
  "strrchr s c = bind_outcome (strlen s) (\<lambda>n. Done (find (\<lambda>p. s ! p = c) (rev [0..<Suc n])))"

text \<open>The inner loops of \<open>strspn\<close> and \<open>strpbrk\<close>: whether a character other than 0 occurs in a string.\<close>

fun occurs :: "u8 \<Rightarrow> u8 list \<Rightarrow> bool outcome" where
  "occurs c [] = BUG"
| "occurs c (a # s) = (if a = 0 then Done False else if c = a then Done True else occurs c s)"

fun strspn :: "u8 list \<Rightarrow> u8 list \<Rightarrow> nat outcome" where
  "strspn [] accept = BUG"
| "strspn (c # s) accept =
     (if c = 0 then Done 0
      else bind_outcome (occurs c accept) (\<lambda>found.
        if \<not> found then Done 0 else bind_outcome (strspn s accept) (\<lambda>n. Done (Suc n))))"

fun strpbrk :: "u8 list \<Rightarrow> u8 list \<Rightarrow> nat option outcome" where
  "strpbrk [] ct = BUG"
| "strpbrk (c # s) ct =
     (if c = 0 then Done None
      else bind_outcome (occurs c ct) (\<lambda>found.
        if found then Done (Some 0) else bind_outcome (strpbrk s ct) (\<lambda>r. Done (map_option Suc r))))"

text \<open>\<open>strsep\<close> on the string that \<open>*s\<close> points to, if any: the string with the end of the token marked, and the rest that \<open>*s\<close>
  points to afterwards. The token is the string before the mark.\<close>

definition strsep :: "u8 list option \<Rightarrow> u8 list \<Rightarrow> (u8 list option \<times> u8 list option) outcome" where
  "strsep s ct =
     (case s of None \<Rightarrow> Done (None, None)
      | Some sbegin \<Rightarrow>
          bind_outcome (strpbrk sbegin ct) (\<lambda>r.
            case r of Some i \<Rightarrow> Done (Some (sbegin[i := 0]), Some (drop (i + 1) sbegin))
            | None \<Rightarrow> Done (Some sbegin, None)))"

function strstr_loop :: "u8 list \<Rightarrow> u8 list \<Rightarrow> nat \<Rightarrow> nat \<Rightarrow> nat \<Rightarrow> nat option outcome" where
  "strstr_loop s1 s2 l1 l2 i =
     (if l1 \<ge> l2 \<and> l2 > 0 then
        bind_outcome (memcmp (drop i s1) s2 l2) (\<lambda>r.
          if r = 0 then Done (Some i) else strstr_loop s1 s2 (l1 - 1) l2 (i + 1))
      else Done None)"
  by pat_completeness auto
termination
  by (relation "measure (\<lambda>(s1, s2, l1, l2, i). l1)") auto

declare strstr_loop.simps [simp del]

definition strstr :: "u8 list \<Rightarrow> u8 list \<Rightarrow> nat option outcome" where
  "strstr s1 s2 =
     bind_outcome (strlen s2) (\<lambda>l2.
       if l2 = 0 then Done (Some 0)
       else bind_outcome (strlen s1) (\<lambda>l1. strstr_loop s1 s2 l1 l2 0))"

section \<open>Copying into a buffer\<close>

definition strlcpy :: "u8 list \<Rightarrow> u8 list \<Rightarrow> nat \<Rightarrow> (nat \<times> u8 list) outcome" where
  "strlcpy dest src sz =
     bind_outcome (strlen src) (\<lambda>ret.
       if sz \<noteq> 0 then
         let len = (if ret \<ge> sz then sz - 1 else ret) in
         bind_outcome (memcpy dest 0 src len) (\<lambda>dest.
           bug_on (len \<ge> length dest) (Done (ret, dest[len := 0])))
       else Done (ret, dest))"

text \<open>The loop of \<open>strlcat\<close>, from the offset \<open>p\<close>, with the offset at which it ends.\<close>

fun strlcat_loop :: "u8 list \<Rightarrow> nat \<Rightarrow> u8 list \<Rightarrow> nat \<Rightarrow> (u8 list \<times> nat) outcome" where
  "strlcat_loop dest p [] sz = (if p < sz then BUG else Done (dest, p))"
| "strlcat_loop dest p (c # src) sz =
     (if p < sz then
        bug_on (p \<ge> length dest)
          (let dest = dest[p := c] in if c = 0 then Done (dest, p + 1) else strlcat_loop dest (p + 1) src sz)
      else Done (dest, p))"

definition strlcat :: "u8 list \<Rightarrow> u8 list \<Rightarrow> nat \<Rightarrow> (nat \<times> u8 list) outcome" where
  "strlcat dest src sz =
     bind_outcome (strlen src) (\<lambda>slen.
     bind_outcome (strnlen dest sz) (\<lambda>dlen.
     bind_outcome (strlcat_loop dest dlen src sz) (\<lambda>(dest, p).
       Done (slen + dlen, if dlen < sz then dest[p - 1 := 0] else dest))))"

end
