(* ===== verification/Xen_String_Props.thy ===== *)
theory Xen_String_Props
  imports Xen_String
begin

text \<open>
  What the string functions compute on strings that end in a 0 byte: comparison, search, and copies that stay inside
  their buffer.
\<close>

section \<open>First and last occurrences\<close>

primrec first_index :: "('a \<Rightarrow> bool) \<Rightarrow> 'a list \<Rightarrow> nat option" where
  "first_index P [] = None"
| "first_index P (x # xs) = (if P x then Some 0 else map_option Suc (first_index P xs))"

definition first_at :: "(nat \<Rightarrow> bool) \<Rightarrow> nat \<Rightarrow> nat option \<Rightarrow> bool" where
  "first_at P n r = (case r of None \<Rightarrow> \<forall>j<n. \<not> P j | Some i \<Rightarrow> i < n \<and> P i \<and> (\<forall>j<i. \<not> P j))"

definition last_at :: "(nat \<Rightarrow> bool) \<Rightarrow> nat \<Rightarrow> nat option \<Rightarrow> bool" where
  "last_at P n r = (case r of None \<Rightarrow> \<forall>j<n. \<not> P j | Some i \<Rightarrow> i < n \<and> P i \<and> (\<forall>j. i < j \<longrightarrow> j < n \<longrightarrow> \<not> P j))"

lemma first_at_0 [simp]: "first_at P 0 None"
  by (simp add: first_at_def)

lemma first_at_Suc:
  "\<not> P 0 \<Longrightarrow> first_at (\<lambda>j. P (Suc j)) n r \<Longrightarrow> first_at P (Suc n) (map_option Suc r)"
  by (cases r) (auto simp: first_at_def less_Suc_eq_0_disj)

lemma first_at_here: "P 0 \<Longrightarrow> first_at P (Suc n) (Some 0)"
  by (simp add: first_at_def)

lemma first_index_at: "first_at (\<lambda>j. P (xs ! j)) (length xs) (first_index P xs)"
  by (induction xs) (auto intro!: first_at_here first_at_Suc)

lemma find_rev_last: "last_at P n (find P (rev [0..<n]))"
proof (induction n)
  case (Suc n)
  then show ?case
    by (auto simp: last_at_def less_Suc_eq split: option.splits)
qed (simp add: last_at_def)

lemma last_at_cong: "(\<And>j. j < n \<Longrightarrow> P j = Q j) \<Longrightarrow> last_at P n r = last_at Q n r"
  by (cases r) (auto simp: last_at_def)

section \<open>Lengths\<close>

lemma strlen_string: "0 \<notin> set s \<Longrightarrow> strlen (s @ 0 # r) = Done (length s)"
  by (induction s) auto

lemma strnlen_string: "0 \<notin> set s \<Longrightarrow> strnlen (s @ 0 # r) n = Done (min n (length s))"
  by (induction "s @ 0 # r" n arbitrary: s rule: strnlen.induct) (auto simp: Cons_eq_append_conv)

lemma strnlen_full: "0 \<notin> set s \<Longrightarrow> n \<le> length s \<Longrightarrow> strnlen s n = Done n"
  by (induction s n rule: strnlen.induct) auto

section \<open>Comparison\<close>

lemma sint_is_0 [simp]: "sint (a :: u8) = 0 \<longleftrightarrow> a = 0"
proof
  assume "sint a = 0"
  then have "(scast a :: u8) = 0" by (simp only: scast_eq) simp
  then show "a = 0" by simp
qed simp

lemma uint_same [simp]: "uint (a :: u8) = uint b \<longleftrightarrow> a = b" "uint a = 0 \<longleftrightarrow> a = 0" "0 = uint a \<longleftrightarrow> a = 0"
  by (auto simp: word_uint_eq_iff)

lemma strcmp_string:
  assumes "0 \<notin> set s" "0 \<notin> set t"
  shows "\<exists>res. strcmp (s @ 0 # r) (t @ 0 # q) = Done res \<and> (res = 0 \<longleftrightarrow> s = t)"
  using assms
proof (induction s arbitrary: t)
  case Nil
  then show ?case by (cases t) (auto simp: Let_def)
next
  case (Cons a s)
  then show ?case by (cases t) (auto simp: Let_def)
qed

lemma strncmp_string:
  assumes "0 \<notin> set s" "0 \<notin> set t"
  shows "\<exists>res. strncmp (s @ 0 # r) (t @ 0 # q) n = Done res \<and> (res = 0 \<longleftrightarrow> take n s = take n t)"
  using assms
proof (induction s arbitrary: t n)
  case Nil
  then show ?case by (cases t; cases n) (auto simp: Let_def)
next
  case (Cons a s)
  then show ?case by (cases t; cases n) (auto simp: Let_def)
qed

lemma strnicmp_loop_string:
  assumes "0 \<notin> set s" "0 \<notin> set t" "n \<noteq> 0"
  shows "\<exists>res. strnicmp_loop (s @ 0 # r) (t @ 0 # q) n = Done res \<and>
           (res = 0 \<longleftrightarrow> map tolower (take n s) = map tolower (take n t))"
  using assms
proof (induction s arbitrary: t n)
  case Nil
  then show ?case by (cases t; cases n) (auto simp: Let_def)
next
  case (Cons a s)
  obtain m where n: "n = Suc m" using Cons.prems by (cases n) auto
  show ?case
    using Cons.prems Cons.IH [of _ m] by (cases t; cases "m = 0") (auto simp: n)
qed

lemma memcmp_area:
  "n \<le> length a \<Longrightarrow> n \<le> length b \<Longrightarrow>
   \<exists>res. memcmp a b n = Done res \<and>
     (res = 0 \<and> take n a = take n b \<or>
      (\<exists>k<n. take k a = take k b \<and> a ! k \<noteq> b ! k \<and> res = uint (a ! k) - uint (b ! k)))"
proof (induction a b n rule: memcmp.induct)
  case (2 x cs y ct n)
  show ?case
  proof (cases "x = y")
    case True
    then obtain res where r: "memcmp cs ct n = Done res"
      and d: "res = 0 \<and> take n cs = take n ct \<or>
        (\<exists>k<n. take k cs = take k ct \<and> cs ! k \<noteq> ct ! k \<and> res = uint (cs ! k) - uint (ct ! k))"
      using 2 by fastforce
    from d show ?thesis
    proof
      assume "\<exists>k<n. take k cs = take k ct \<and> cs ! k \<noteq> ct ! k \<and> res = uint (cs ! k) - uint (ct ! k)"
      then obtain k where "k < n" "take k cs = take k ct" "cs ! k \<noteq> ct ! k" "res = uint (cs ! k) - uint (ct ! k)"
        by blast
      then show ?thesis using r True by (auto intro!: exI [of _ "Suc k"])
    qed (use r True in auto)
  qed (auto simp: Let_def intro!: exI [of _ 0])
qed auto

lemma memcmp_zero:
  assumes "n \<le> length a" "n \<le> length b"
  obtains res where "memcmp a b n = Done res" "res = 0 \<longleftrightarrow> take n a = take n b"
proof -
  obtain res where r: "memcmp a b n = Done res"
    and d: "res = 0 \<and> take n a = take n b \<or>
      (\<exists>k<n. take k a = take k b \<and> a ! k \<noteq> b ! k \<and> res = uint (a ! k) - uint (b ! k))"
    using memcmp_area [OF assms] by blast
  have "take n a \<noteq> take n b" if "k < n" "a ! k \<noteq> b ! k" for k
    using that by (metis nth_take)
  with d have "res = 0 \<longleftrightarrow> take n a = take n b" by auto
  then show thesis using r that by blast
qed

section \<open>Search\<close>

lemma strchr_string:
  "0 \<notin> set s \<Longrightarrow> c \<noteq> 0 \<Longrightarrow> strchr (s @ 0 # r) c = Done (first_index (\<lambda>x. x = c) s)"
  by (induction s) auto

lemma strchr_end: "0 \<notin> set s \<Longrightarrow> strchr (s @ 0 # r) 0 = Done (Some (length s))"
  by (induction s) auto

lemma strrchr_string:
  assumes "0 \<notin> set s" "c \<noteq> 0"
  shows "\<exists>i. strrchr (s @ 0 # r) c = Done i \<and> last_at (\<lambda>j. s ! j = c) (length s) i"
proof -
  have "last_at (\<lambda>j. (s @ 0 # r) ! j = c) (length s) (find (\<lambda>j. (s @ 0 # r) ! j = c) (rev [0..<length s]))"
    by (rule find_rev_last)
  then have "last_at (\<lambda>j. s ! j = c) (length s) (find (\<lambda>j. (s @ 0 # r) ! j = c) (rev [0..<length s]))"
    by (subst (asm) last_at_cong [of _ _ "\<lambda>j. s ! j = c"]) (simp_all add: nth_append)
  then show ?thesis
    using assms by (simp add: strrchr_def strlen_string)
qed

lemma occurs_string: "0 \<notin> set s \<Longrightarrow> occurs c (s @ 0 # r) = Done (c \<in> set s)"
  by (induction s) auto

lemma strspn_string:
  "0 \<notin> set s \<Longrightarrow> 0 \<notin> set t \<Longrightarrow>
   strspn (s @ 0 # r) (t @ 0 # q) = Done (length (takeWhile (\<lambda>x. x \<in> set t) s))"
  by (induction s) (auto simp: occurs_string)

lemma strpbrk_string:
  "0 \<notin> set s \<Longrightarrow> 0 \<notin> set t \<Longrightarrow>
   strpbrk (s @ 0 # r) (t @ 0 # q) = Done (first_index (\<lambda>x. x \<in> set t) s)"
  by (induction s) (auto simp: occurs_string)

lemma memscan_area:
  "n \<le> length p \<Longrightarrow>
   memscan p (uint c) n = Done (case first_index (\<lambda>x. x = c) (take n p) of None \<Rightarrow> n | Some i \<Rightarrow> i)"
  by (induction p "uint c" n rule: memscan.induct) (auto split: option.splits)

lemma memchr_area: "n \<le> length p \<Longrightarrow> memchr p c n = Done (first_index (\<lambda>x. x = c) (take n p))"
  by (induction p c n rule: memchr.induct) auto

lemma strsep_string:
  assumes "0 \<notin> set s" "0 \<notin> set t"
  shows "strsep (Some (s @ 0 # r)) (t @ 0 # q) =
    Done (case first_index (\<lambda>x. x \<in> set t) s of
            Some i \<Rightarrow> (Some (take i s @ 0 # drop (i + 1) s @ 0 # r), Some (drop (i + 1) s @ 0 # r))
          | None \<Rightarrow> (Some (s @ 0 # r), None))"
proof (cases "first_index (\<lambda>x. x \<in> set t) s")
  case (Some i)
  then have "i < length s"
    using first_index_at [of "\<lambda>x. x \<in> set t" s] by (simp add: first_at_def)
  then show ?thesis
    using assms Some by (simp add: strsep_def strpbrk_string list_update_append upd_conv_take_nth_drop)
next
  case None
  then have "strpbrk (s @ 0 # r) (t @ 0 # q) = Done None"
    using assms by (simp add: strpbrk_string)
  then show ?thesis using None by (simp add: strsep_def)
qed

text \<open>The loop of \<open>strstr\<close> tries the offsets in order, as long as the needle fits.\<close>

lemma strstr_loop_spec:
  assumes "0 \<notin> set s" "l = length t" "0 < l" "i + l1 = length s"
    "\<forall>j<i. take l (drop j s) \<noteq> t"
  shows "\<exists>x. strstr_loop (s @ 0 # r) (t @ 0 # q) l1 l i = Done x \<and>
    first_at (\<lambda>j. take l (drop j s) = t) (Suc (length s)) x"
  using assms(4,5)
proof (induction l1 arbitrary: i rule: less_induct)
  case (less l1)
  show ?case
  proof (cases "l \<le> l1")
    case True
    obtain res where m: "memcmp (drop i (s @ 0 # r)) (t @ 0 # q) l = Done res"
      and z: "res = 0 \<longleftrightarrow> take l (drop i (s @ 0 # r)) = take l (t @ 0 # q)"
      by (rule memcmp_zero [of l "drop i (s @ 0 # r)" "t @ 0 # q"]) (use True less.prems assms in auto)
    have z': "res = 0 \<longleftrightarrow> take l (drop i s) = t"
      using z True less.prems assms by simp
    show ?thesis
    proof (cases "res = 0")
      case True
      then show ?thesis
        using \<open>l \<le> l1\<close> m z' less.prems assms(3)
        by (subst strstr_loop.simps) (simp add: first_at_def)
    next
      case False
      have "\<forall>j<Suc i. take l (drop j s) \<noteq> t"
        using less.prems(2) z' False by (auto simp: less_Suc_eq)
      moreover have "Suc i + (l1 - 1) = length s" "l1 - 1 < l1"
        using True assms(3) less.prems(1) by auto
      ultimately show ?thesis
        using less.IH [of "l1 - 1" "Suc i"] True m False assms(3)
        by (subst strstr_loop.simps) simp
    qed
  next
    case False
    have "take l (drop j s) \<noteq> t" for j
    proof (cases "j < i")
      case ge: False
      then have "length (take l (drop j s)) < l" using False less.prems(1) by auto
      then show ?thesis using assms(2) by auto
    qed (use less.prems(2) in simp)
    then show ?thesis
      using False by (subst strstr_loop.simps) (simp add: first_at_def)
  qed
qed

lemma strstr_string:
  assumes "0 \<notin> set s" "0 \<notin> set t"
  shows "\<exists>x. strstr (s @ 0 # r) (t @ 0 # q) = Done x \<and>
    first_at (\<lambda>j. take (length t) (drop j s) = t) (Suc (length s)) x"
proof (cases "t = []")
  case True
  then show ?thesis by (simp add: strstr_def first_at_def)
next
  case False
  then show ?thesis
    using strstr_loop_spec [OF assms(1) refl, of t 0 "length s" r q] assms
    by (simp add: strstr_def strlen_string)
qed

section \<open>Copies\<close>

lemma length_fold_write [simp]: "length (fold (\<lambda>k m. m[d + k := f k m]) ks m) = length m"
  by (induction ks arbitrary: m) auto

lemma fold_write_nth:
  "d + n \<le> length m \<Longrightarrow> i < length m \<Longrightarrow>
   fold (\<lambda>k m. m[d + k := f k]) [0..<n] m ! i = (if d \<le> i \<and> i < d + n then f (i - d) else m ! i)"
  by (induction n) (auto simp: nth_list_update length_fold_write [where f = "\<lambda>k m. f k"])

lemma fold_up_nth:
  "d \<le> s \<Longrightarrow> s + n \<le> length m \<Longrightarrow> i < length m \<Longrightarrow>
   fold (\<lambda>k m. m[d + k := m ! (s + k)]) [0..<n] m ! i = (if d \<le> i \<and> i < d + n then m ! (s + (i - d)) else m ! i)"
  by (induction n arbitrary: i) (auto simp: nth_list_update length_fold_write [where f = "\<lambda>k m. m ! (s + k)"])

lemma fold_down_nth:
  "s < d \<Longrightarrow> d + n \<le> length m \<Longrightarrow> i < length m \<Longrightarrow>
   fold (\<lambda>k m. m[d + k := m ! (s + k)]) (rev [0..<n]) m ! i =
     (if d \<le> i \<and> i < d + n then m ! (s + (i - d)) else m ! i)"
  by (induction n arbitrary: m) (auto simp: nth_list_update)

lemma nth_area:
  "d + length xs \<le> length m \<Longrightarrow> i < length m \<Longrightarrow>
   (take d m @ xs @ drop (d + length xs) m) ! i = (if d \<le> i \<and> i < d + length xs then xs ! (i - d) else m ! i)"
  by (auto simp: nth_append)

lemma area_eqI:
  assumes "length m' = length m" "d + n \<le> length m" "length xs = n"
    "\<And>i. i < length m \<Longrightarrow> m' ! i = (if d \<le> i \<and> i < d + n then xs ! (i - d) else m ! i)"
  shows "m' = take d m @ xs @ drop (d + n) m"
  using assms nth_area [of d xs m] by (intro nth_equalityI) auto

lemma mem_set_area:
  "s + n \<le> length m \<Longrightarrow> mem_set m s c n = Done (take s m @ replicate n c @ drop (s + n) m)"
  unfolding mem_set_def
  by (auto simp: fold_write_nth length_fold_write [where f = "\<lambda>k m. c"] intro!: area_eqI)

lemma memcpy_area:
  "d + n \<le> length dest \<Longrightarrow> n \<le> length src \<Longrightarrow>
   memcpy dest d src n = Done (take d dest @ take n src @ drop (d + n) dest)"
  unfolding memcpy_def
  by (auto simp: fold_write_nth length_fold_write [where f = "\<lambda>k m. src ! k"] intro!: area_eqI)

lemma memmove_area:
  assumes "d + n \<le> length m" "s + n \<le> length m"
  shows "memmove m d s n = Done (take d m @ take n (drop s m) @ drop (d + n) m)"
proof (cases "d \<le> s")
  case True
  then have "fold (\<lambda>k m. m[d + k := m ! (s + k)]) [0..<n] m = take d m @ take n (drop s m) @ drop (d + n) m"
    using assms by (intro area_eqI) (auto simp: fold_up_nth)
  then show ?thesis using assms True by (simp add: memmove_def)
next
  case False
  then have "fold (\<lambda>k m. m[d + k := m ! (s + k)]) (rev [0..<n]) m = take d m @ take n (drop s m) @ drop (d + n) m"
    using assms by (intro area_eqI) (auto simp: fold_down_nth)
  then show ?thesis using assms False by (simp add: memmove_def)
qed

text \<open>The buffer that holds \<open>s\<close> from the offset \<open>p\<close> on, cut so that it ends before \<open>sz\<close>, with its 0 byte.\<close>

definition placed :: "u8 list \<Rightarrow> nat \<Rightarrow> u8 list \<Rightarrow> nat \<Rightarrow> u8 list" where
  "placed dest p s sz = (let t = take (sz - 1 - p) s in take p dest @ t @ 0 # drop (p + length t + 1) dest)"

lemma length_placed: "p < sz \<Longrightarrow> sz \<le> length dest \<Longrightarrow> length (placed dest p s sz) = length dest"
  by (simp add: placed_def Let_def)

lemma strlcpy_string:
  assumes "0 \<notin> set s" "sz \<le> length dest"
  shows "strlcpy dest (s @ 0 # r) sz = Done (length s, if sz = 0 then dest else placed dest 0 s sz)"
proof (cases "sz = 0")
  case False
  define len where "len = (if length s \<ge> sz then sz - 1 else length s)"
  have len: "len < sz" "len \<le> length s" "take len (s @ 0 # r) = take (sz - 1) s" "length (take (sz - 1) s) = len"
    using False by (auto simp: len_def)
  have "memcpy dest 0 (s @ 0 # r) len = Done (take (sz - 1) s @ drop len dest)"
    using memcpy_area [of 0 len dest "s @ 0 # r"] len assms by simp
  moreover have "(take (sz - 1) s @ drop len dest)[len := 0] = placed dest 0 s sz"
    using len assms by (simp add: placed_def list_update_append Cons_nth_drop_Suc [symmetric])
  ultimately show ?thesis
    using False assms len by (simp add: strlcpy_def strlen_string len_def [symmetric] Let_def)
qed (use assms in \<open>simp add: strlcpy_def strlen_string\<close>)

lemma strlcat_loop_string:
  assumes "0 \<notin> set s" "p < sz" "sz \<le> length dest"
  shows "\<exists>dest' p'. strlcat_loop dest p (s @ 0 # r) sz = Done (dest', p') \<and> dest'[p' - 1 := 0] = placed dest p s sz"
  using assms
proof (induction s arbitrary: dest p)
  case Nil
  then show ?case
    by (simp add: placed_def Let_def upd_conv_take_nth_drop)
next
  case (Cons c s)
  show ?case
  proof (cases "p + 1 < sz")
    case True
    then obtain n where n: "sz = Suc (Suc (p + n))" using less_imp_Suc_add [of "p + 1" sz] by auto
    have "placed (dest[p := c]) (p + 1) s sz = placed dest p (c # s) sz"
      using Cons.prems by (simp add: n placed_def Let_def take_Suc_conv_app_nth)
    then show ?thesis
      using Cons.IH [of "p + 1" "dest[p := c]"] Cons.prems True by (simp add: Let_def)
  next
    case False
    then have sz: "sz = Suc p" using Cons.prems by simp
    have "strlcat_loop (dest[p := c]) (Suc p) (s @ 0 # r) sz = Done (dest[p := c], Suc p)"
      by (cases s) (simp_all add: sz)
    then show ?thesis
      using Cons.prems by (simp add: sz placed_def upd_conv_take_nth_drop Let_def)
  qed
qed

lemma strlcat_string:
  assumes "0 \<notin> set s" "0 \<notin> set d" "length d < sz" "sz \<le> length d + 1 + length e"
  shows "strlcat (d @ 0 # e) (s @ 0 # r) sz = Done (length s + length d, placed (d @ 0 # e) (length d) s sz)"
proof -
  obtain dest' p' where "strlcat_loop (d @ 0 # e) (length d) (s @ 0 # r) sz = Done (dest', p')"
    "dest'[p' - 1 := 0] = placed (d @ 0 # e) (length d) s sz"
    using strlcat_loop_string [of s "length d" sz "d @ 0 # e" r] assms by auto
  then show ?thesis
    using assms by (simp add: strlcat_def strlen_string strnlen_string min_def)
qed

lemma strlcat_full:
  assumes "0 \<notin> set s" "0 \<notin> set dest" "sz \<le> length dest"
  shows "strlcat dest (s @ 0 # r) sz = Done (length s + sz, dest)"
proof -
  have "strlcat_loop dest sz (s @ 0 # r) sz = Done (dest, sz)"
    by (cases s) simp_all
  then show ?thesis
    using assms by (simp add: strlcat_def strlen_string strnlen_full)
qed

section \<open>Properties\<close>

text \<open>C39: On strings that end in a 0 byte, \<open>strcmp\<close> returns 0 exactly when the strings are equal, \<open>strncmp\<close> exactly when
  their first \<open>n\<close> characters are, \<open>strnicmp\<close> exactly when these are equal up to the case of letters; whatever follows
  the 0 byte plays no part. \<open>memcmp\<close> of two areas returns 0 exactly when they are equal, and otherwise the difference of
  the first two bytes that differ, with the sign of their order. None of them reads beyond its operands.
\<close>

theorem string_comparisons:
  assumes "0 \<notin> set s" "0 \<notin> set t" "k \<le> length a" "k \<le> length b"
  shows "(\<exists>res. strcmp (s @ 0 # r) (t @ 0 # q) = Done res \<and> (res = 0 \<longleftrightarrow> s = t)) \<and>
    (\<exists>res. strncmp (s @ 0 # r) (t @ 0 # q) n = Done res \<and> (res = 0 \<longleftrightarrow> take n s = take n t)) \<and>
    (\<exists>res. strnicmp (s @ 0 # r) (t @ 0 # q) n = Done res \<and>
           (res = 0 \<longleftrightarrow> map tolower (take n s) = map tolower (take n t))) \<and>
    (\<exists>res. memcmp a b k = Done res \<and>
           (res = 0 \<and> take k a = take k b \<or>
            (\<exists>i<k. take i a = take i b \<and> a ! i \<noteq> b ! i \<and> res = uint (a ! i) - uint (b ! i))))"
proof (intro conjI)
  show "\<exists>res. strnicmp (s @ 0 # r) (t @ 0 # q) n = Done res \<and>
      (res = 0 \<longleftrightarrow> map tolower (take n s) = map tolower (take n t))"
    using strnicmp_loop_string [OF assms(1,2), of n] by (cases "n = 0") (auto simp: strnicmp_def)
qed (use assms in \<open>blast intro: strcmp_string strncmp_string memcmp_area\<close>)+

theorem string_comparisons_witness:
  "(\<exists>res. strcmp [1, 200, 0, 7] [1, 3, 0] = Done res \<and> res \<noteq> 0) \<and>
   (\<exists>res. strncmp [1, 200, 0, 7] [1, 3, 0] 1 = Done res \<and> res = 0)"
  using string_comparisons [of "[1, 200]" "[1, 3]" 0 "[]" "[]" "[7]" "[]" 1]
  by simp

text \<open>C40: In a string that ends in a 0 byte, \<open>strchr\<close> finds the first and \<open>strrchr\<close> the last place of a character other than 0, \<open>strspn\<close>
  the length of the longest beginning made of given characters, \<open>strpbrk\<close> the first of given characters, \<open>strstr\<close> the
  first place where a string occurs as a part; each returns \<open>NULL\<close> exactly when there is none. \<open>strsep\<close> cuts the string at the
  first separator: the token ends there, the rest starts behind it, and without a separator the whole string is the last
  token. \<open>memchr\<close> and \<open>memscan\<close> find the first place of a byte in an area, and \<open>memscan\<close> returns its end when there is
  none. None of them reads beyond the end of the string or of the area.
\<close>

theorem string_searches:
  assumes "0 \<notin> set s" "0 \<notin> set t" "c \<noteq> 0" "n \<le> length p"
  shows "(\<exists>x. strchr (s @ 0 # r) c = Done x \<and> first_at (\<lambda>j. s ! j = c) (length s) x) \<and>
    (\<exists>x. strrchr (s @ 0 # r) c = Done x \<and> last_at (\<lambda>j. s ! j = c) (length s) x) \<and>
    strspn (s @ 0 # r) (t @ 0 # q) = Done (length (takeWhile (\<lambda>x. x \<in> set t) s)) \<and>
    (\<exists>x. strpbrk (s @ 0 # r) (t @ 0 # q) = Done x \<and> first_at (\<lambda>j. s ! j \<in> set t) (length s) x) \<and>
    (\<exists>x. strstr (s @ 0 # r) (t @ 0 # q) = Done x \<and>
           first_at (\<lambda>j. take (length t) (drop j s) = t) (Suc (length s)) x) \<and>
    (\<exists>x. first_at (\<lambda>j. s ! j \<in> set t) (length s) x \<and>
           strsep (Some (s @ 0 # r)) (t @ 0 # q) =
             Done (case x of
                     Some i \<Rightarrow> (Some (take i s @ 0 # drop (i + 1) s @ 0 # r), Some (drop (i + 1) s @ 0 # r))
                   | None \<Rightarrow> (Some (s @ 0 # r), None))) \<and>
    (\<exists>x. memchr p c n = Done x \<and> first_at (\<lambda>j. take n p ! j = c) n x \<and>
           memscan p (uint c) n = Done (case x of Some i \<Rightarrow> i | None \<Rightarrow> n))"
proof (intro conjI)
  have "first_at (\<lambda>j. take n p ! j = c) n (first_index (\<lambda>x. x = c) (take n p))"
    using first_index_at [of "\<lambda>x. x = c" "take n p"] assms(4) by (simp add: min_absorb2)
  then show "\<exists>x. memchr p c n = Done x \<and> first_at (\<lambda>j. take n p ! j = c) n x \<and>
      memscan p (uint c) n = Done (case x of Some i \<Rightarrow> i | None \<Rightarrow> n)"
    using assms(4) by (auto simp: memchr_area memscan_area split: option.splits)
  show "\<exists>x. first_at (\<lambda>j. s ! j \<in> set t) (length s) x \<and>
      strsep (Some (s @ 0 # r)) (t @ 0 # q) =
        Done (case x of
                Some i \<Rightarrow> (Some (take i s @ 0 # drop (i + 1) s @ 0 # r), Some (drop (i + 1) s @ 0 # r))
              | None \<Rightarrow> (Some (s @ 0 # r), None))"
    using strsep_string [OF assms(1,2)] first_index_at [of "\<lambda>x. x \<in> set t" s] by blast
qed (use assms first_index_at in \<open>auto simp: strchr_string strspn_string strpbrk_string
       intro!: strrchr_string strstr_string\<close>)

theorem string_searches_witness:
  "(\<exists>x. strstr ([1, 2, 1, 3] @ 0 # []) ([1, 3] @ 0 # []) = Done x \<and>
      first_at (\<lambda>j. take (length [1, 3 :: u8]) (drop j [1, 2, 1, 3 :: u8]) = [1, 3]) (Suc (length [1, 2, 1, 3 :: u8])) x) \<and>
   strspn ([1, 2, 1, 3] @ 0 # []) ([2, 1] @ 0 # []) = Done 3"
  using string_searches [of "[1, 2, 1, 3]" "[1, 3]" 1 0 "[]" "[]" "[]"]
    string_searches [of "[1, 2, 1, 3]" "[2, 1]" 1 0 "[]" "[]" "[]"]
  by simp

text \<open>C12: Copies stay inside their buffer. \<open>memmove\<close> moves an area of memory as it was before, also where source and
  destination overlap, and changes nothing else; \<open>memset\<close> and \<open>memcpy\<close> change exactly the bytes they are asked to.
  \<open>strlcpy\<close> into a buffer of size \<open>sz\<close> writes the string, cut to \<open>sz - 1\<close> characters, and a 0 byte behind it, and \<open>strlcat\<close> appends it in the same
  way to the string in the buffer; both return the length that the whole result would have, and nothing is written
  behind the 0 byte. A buffer of size 0, or without a 0 byte, stays as it is.
\<close>

theorem string_copies:
  assumes "0 \<notin> set s" "sz \<le> length dest" "0 \<notin> set d" "length d < n" "n \<le> length (d @ 0 # e)"
    "to + k \<le> length m" "from + k \<le> length m"
  shows "memmove m to from k = Done (take to m @ take k (drop from m) @ drop (to + k) m) \<and>
    mem_set m to c k = Done (take to m @ replicate k c @ drop (to + k) m) \<and>
    memcpy m to (drop from src) k =
           (if k \<le> length src - from then Done (take to m @ take k (drop from src) @ drop (to + k) m) else BUG) \<and>
    strlcpy dest (s @ 0 # r) sz =
           Done (length s, if sz = 0 then dest
                           else take (sz - 1) s @ 0 # drop (min (sz - 1) (length s) + 1) dest) \<and>
    strlcat (d @ 0 # e) (s @ 0 # r) n =
           Done (length s + length d,
                 take (n - 1) (d @ s) @ 0 # drop (min (n - 1) (length d + length s) + 1) (d @ 0 # e)) \<and>
    (0 \<notin> set dest \<longrightarrow> strlcat dest (s @ 0 # r) sz = Done (length s + sz, dest))"
proof (intro conjI)
  show "memcpy m to (drop from src) k =
      (if k \<le> length src - from then Done (take to m @ take k (drop from src) @ drop (to + k) m) else BUG)"
    using assms(6) memcpy_area [of to k m "drop from src"] by (simp add: memcpy_def)
  show "strlcpy dest (s @ 0 # r) sz =
      Done (length s, if sz = 0 then dest else take (sz - 1) s @ 0 # drop (min (sz - 1) (length s) + 1) dest)"
    using strlcpy_string [OF assms(1,2)] by (simp add: placed_def Let_def min.commute)
  obtain j where n: "n = Suc (length d + j)"
    using less_imp_Suc_add [OF assms(4)] by auto
  show "strlcat (d @ 0 # e) (s @ 0 # r) n =
      Done (length s + length d,
            take (n - 1) (d @ s) @ 0 # drop (min (n - 1) (length d + length s) + 1) (d @ 0 # e))"
    using strlcat_string [OF assms(1,3,4)] assms(5)
    by (simp add: n placed_def Let_def min_def)
qed (use assms in \<open>simp_all add: memmove_area mem_set_area strlcat_full\<close>)

theorem string_copies_witness:
  "memmove [1, 2, 3, 4, 5] 1 0 3 = Done [1, 1, 2, 3, 5] \<and>
   strlcpy [9, 9, 9, 9] ([5, 6, 7] @ 0 # []) 3 = Done (3, [5, 6, 0, 9])"
  using string_copies [of "[5, 6, 7]" 3 "[9, 9, 9, 9]" "[]" 1 "[]" 1 3 "[1, 2, 3, 4, 5]" 0 0 "[]" "[]"]
  by simp

end
