(* ===== verification/Vsprintf.thy ===== *)
theory Vsprintf
  imports Xen_String_Props
begin

text \<open>
  Numbers and formatted output: \<open>xen/common/vsprintf.c\<close> without \<open>vsscanf\<close>, and \<open>parse_size_and_unit\<close> of
  \<open>xen/common/lib.c\<close>.

  A function that advances a pointer returns what is left of the string. An argument of a variadic function is its 64-bit
  value, together with the bytes that it points to if it is a pointer. The arithmetic of the \<open>int\<close> variables for widths,
  precisions and the lengths of strings is exact: their overflow is undefined in C and needs a field or a string of 2 GB.
\<close>

section \<open>Reading numbers\<close>

fun strtoul_loop :: "ulong \<Rightarrow> ulong \<Rightarrow> u8 list \<Rightarrow> (ulong \<times> u8 list) outcome" where
  "strtoul_loop base result [] = BUG"
| "strtoul_loop base result (c # cp) =
     (if isxdigit c then
        let value = ucast (if isdigit c then c - ch (CHR ''0'') else toupper c - ch (CHR ''A'') + 10) in
        if value < base then strtoul_loop base (result * base + value) cp
        else Done (result, c # cp)
      else Done (result, c # cp))"

text \<open>The base and the place of the first digit.\<close>

definition strtoul_prefix :: "u8 list \<Rightarrow> ulong \<Rightarrow> (ulong \<times> u8 list) outcome" where
  "strtoul_prefix cp base =
     (if base = 0 then
        (case cp of
           [] \<Rightarrow> BUG
         | c # cp1 \<Rightarrow>
             if c = ch (CHR ''0'') then
               (case cp1 of
                  [] \<Rightarrow> BUG
                | x # cp2 \<Rightarrow>
                    if toupper x = ch (CHR ''X'') then
                      (case cp2 of [] \<Rightarrow> BUG | d # _ \<Rightarrow> if isxdigit d then Done (16, cp2) else Done (8, cp1))
                    else Done (8, cp1))
             else Done (10, cp))
      else if base = 16 then
        (case cp of
           [] \<Rightarrow> BUG
         | c # cp1 \<Rightarrow>
             if c = ch (CHR ''0'') then
               (case cp1 of [] \<Rightarrow> BUG | x # cp2 \<Rightarrow> Done (16, if toupper x = ch (CHR ''X'') then cp2 else cp))
             else Done (16, cp))
      else Done (base, cp))"

definition simple_strtoul :: "u8 list \<Rightarrow> u32 \<Rightarrow> (ulong \<times> u8 list) outcome" where
  "simple_strtoul cp base =
     bind_outcome (strtoul_prefix cp (ucast base)) (\<lambda>(base, cp). strtoul_loop base 0 cp)"

definition simple_strtol :: "u8 list \<Rightarrow> u32 \<Rightarrow> (ulong \<times> u8 list) outcome" where
  "simple_strtol cp base =
     (case cp of
        [] \<Rightarrow> BUG
      | c # cp1 \<Rightarrow>
          if c = ch (CHR ''-'') then bind_outcome (simple_strtoul cp1 base) (\<lambda>(n, cp). Done (- n, cp))
          else simple_strtoul cp base)"

text \<open>\<open>simple_strtoull\<close> asks for the case of a letter before it is changed; the rest is the same.\<close>

fun strtoull_loop :: "ulong \<Rightarrow> ulong \<Rightarrow> u8 list \<Rightarrow> (ulong \<times> u8 list) outcome" where
  "strtoull_loop base result [] = BUG"
| "strtoull_loop base result (c # cp) =
     (if isxdigit c then
        let value = ucast (if isdigit c then c - ch (CHR ''0'')
                           else (if islower c then toupper c else c) - ch (CHR ''A'') + 10) in
        if value < base then strtoull_loop base (result * base + value) cp
        else Done (result, c # cp)
      else Done (result, c # cp))"

definition simple_strtoull :: "u8 list \<Rightarrow> u32 \<Rightarrow> (ulong \<times> u8 list) outcome" where
  "simple_strtoull cp base =
     bind_outcome (strtoul_prefix cp (ucast base)) (\<lambda>(base, cp). strtoull_loop base 0 cp)"

definition simple_strtoll :: "u8 list \<Rightarrow> u32 \<Rightarrow> (ulong \<times> u8 list) outcome" where
  "simple_strtoll cp base =
     (case cp of
        [] \<Rightarrow> BUG
      | c # cp1 \<Rightarrow>
          if c = ch (CHR ''-'') then bind_outcome (simple_strtoull cp1 base) (\<lambda>(n, cp). Done (- n, cp))
          else simple_strtoull cp base)"

definition parse_size_and_unit :: "u8 list \<Rightarrow> (ulong \<times> u8 list) outcome" where
  "parse_size_and_unit s =
     bind_outcome (simple_strtoull s 0) (\<lambda>(ret, s1).
       case s1 of
         [] \<Rightarrow> BUG
       | c # s2 \<Rightarrow>
           if c = ch (CHR ''G'') \<or> c = ch (CHR ''g'') then Done (push_bit 10 (push_bit 10 (push_bit 10 ret)), s2)
           else if c = ch (CHR ''M'') \<or> c = ch (CHR ''m'') then Done (push_bit 10 (push_bit 10 ret), s2)
           else if c = ch (CHR ''K'') \<or> c = ch (CHR ''k'') then Done (push_bit 10 ret, s2)
           else if c = ch (CHR ''B'') \<or> c = ch (CHR ''b'') then Done (ret, s2)
           else Done (push_bit 10 ret, s1))"

fun skip_atoi :: "int \<Rightarrow> u8 list \<Rightarrow> (int \<times> u8 list) outcome" where
  "skip_atoi i [] = BUG"
| "skip_atoi i (c # s) =
     (if isdigit c then skip_atoi (i * 10 + uint c - uint (ch (CHR ''0''))) s else Done (i, c # s))"

section \<open>The output buffer\<close>

text \<open>
  The buffer: the addresses of its first byte, of its last byte and of the next character, and its bytes. A character is
  written unless its place is behind the end.
\<close>

record printer =
  pbuf :: ulong
  pend :: ulong
  pstr :: ulong
  pmem :: "u8 list"

definition putc :: "u8 \<Rightarrow> printer \<Rightarrow> printer outcome" where
  "putc c st =
     (if pstr st \<le> pend st then
        let i = unat (pstr st - pbuf st) in
        bug_on (i \<ge> length (pmem st)) (Done (st\<lparr>pmem := (pmem st)[i := c], pstr := pstr st + 1\<rparr>))
      else Done (st\<lparr>pstr := pstr st + 1\<rparr>))"

primrec put_list :: "u8 list \<Rightarrow> printer \<Rightarrow> printer outcome" where
  "put_list [] st = Done st"
| "put_list (c # cs) st = bind_outcome (putc c st) (put_list cs)"

text \<open>\<open>while (len < n--)\<close> and \<open>while (--n > 0)\<close>, with the value of \<open>n\<close> afterwards.\<close>

function pad_to :: "int \<Rightarrow> u8 \<Rightarrow> int \<Rightarrow> printer \<Rightarrow> (int \<times> printer) outcome" where
  "pad_to len c n st =
     (if len < n then bind_outcome (putc c st) (pad_to len c (n - 1)) else Done (n - 1, st))"
  by pat_completeness auto
termination
  by (relation "measure (\<lambda>(len, c, n, st). nat (n - len))") auto

function pad_pre :: "u8 \<Rightarrow> int \<Rightarrow> printer \<Rightarrow> (int \<times> printer) outcome" where
  "pad_pre c n st =
     (if n - 1 > 0 then bind_outcome (putc c st) (pad_pre c (n - 1)) else Done (n - 1, st))"
  by pat_completeness auto
termination
  by (relation "measure (\<lambda>(c, n, st). nat n)") auto

declare pad_to.simps [simp del] pad_pre.simps [simp del]

section \<open>Printing a number\<close>

definition ZEROPAD :: u32 where "ZEROPAD = 1"
definition SIGN :: u32 where "SIGN = 2"
definition PLUS :: u32 where "PLUS = 4"
definition SPACE :: u32 where "SPACE = 8"
definition LEFT :: u32 where "LEFT = 16"
definition SPECIAL :: u32 where "SPECIAL = 32"
definition LARGE :: u32 where "LARGE = 64"

definition has_flag :: "u32 \<Rightarrow> u32 \<Rightarrow> bool" where
  "has_flag flags f \<longleftrightarrow> flags AND f \<noteq> 0"

definition small_digits :: "u8 list" where
  "small_digits = map ch ''0123456789abcdefghijklmnopqrstuvwxyz''"

definition large_digits :: "u8 list" where
  "large_digits = map ch ''0123456789ABCDEFGHIJKLMNOPQRSTUVWXYZ''"

text \<open>The digits of a number, lowest first: \<open>do_div\<close> divides by the base and returns the remainder.\<close>

fun number_digits :: "u8 list \<Rightarrow> nat \<Rightarrow> nat \<Rightarrow> u8 list" where
  "number_digits digits base num =
     (if num \<noteq> 0 \<and> 2 \<le> base then digits ! (num mod base) # number_digits digits base (num div base) else [])"

declare number_digits.simps [simp del]

definition number_sign :: "ulong \<Rightarrow> int \<Rightarrow> u32 \<Rightarrow> u8 \<times> ulong \<times> int" where
  "number_sign num sz type =
     (if has_flag type SIGN then
        if sint num < 0 then (ch (CHR ''-''), - num, sz - 1)
        else if has_flag type PLUS then (ch (CHR ''+''), num, sz - 1)
        else if has_flag type SPACE then (ch (CHR '' ''), num, sz - 1)
        else (0, num, sz)
      else (0, num, sz))"

text \<open>The size left when the prefix is taken off, and the prefix.\<close>

definition special_size :: "int \<Rightarrow> int \<Rightarrow> u32 \<Rightarrow> int" where
  "special_size base sz type =
     (if has_flag type SPECIAL then if base = 16 then sz - 2 else if base = 8 then sz - 1 else sz else sz)"

definition special_prefix :: "u8 list \<Rightarrow> int \<Rightarrow> u32 \<Rightarrow> u8 list" where
  "special_prefix digits base type =
     (if has_flag type SPECIAL then
        if base = 8 then [ch (CHR ''0'')] else if base = 16 then [ch (CHR ''0''), digits ! 33] else []
      else [])"

text \<open>The digits go through the array \<open>tmp\<close> of 66 characters.\<close>

definition number :: "printer \<Rightarrow> ulong \<Rightarrow> int \<Rightarrow> int \<Rightarrow> int \<Rightarrow> u32 \<Rightarrow> printer outcome" where
  "number st num base sz precision type =
     (let digits = (if has_flag type LARGE then large_digits else small_digits);
          type = (if has_flag type LEFT then type AND NOT ZEROPAD else type) in
      if base < 2 \<or> base > 36 then Done (st\<lparr>pstr := 0\<rparr>)
      else
        let c = (if has_flag type ZEROPAD then ch (CHR ''0'') else ch (CHR '' ''));
            (sign, num, sz) = number_sign num sz type;
            sz = special_size base sz type;
            tmp = (if num = 0 then [ch (CHR ''0'')] else number_digits digits (nat base) (unat num));
            i = int (length tmp);
            precision = (if i > precision then i else precision);
            sz = sz - precision in
        bug_on (length tmp > 66)
          (bind_outcome (if \<not> has_flag type (ZEROPAD + LEFT) then pad_to 0 (ch (CHR '' '')) sz st else Done (sz, st))
             (\<lambda>(sz, st).
           bind_outcome (if sign \<noteq> 0 then putc sign st else Done st) (\<lambda>st.
           bind_outcome (put_list (special_prefix digits base type) st) (\<lambda>st.
           bind_outcome (if \<not> has_flag type LEFT then pad_to 0 c sz st else Done (sz, st)) (\<lambda>(sz, st).
           bind_outcome (pad_to i (ch (CHR ''0'')) precision st) (\<lambda>(precision, st).
           bind_outcome (put_list (rev tmp) st) (\<lambda>st.
           bind_outcome (pad_to 0 (ch (CHR '' '')) sz st) (\<lambda>(sz, st). Done st)))))))))"

section \<open>Directives of a format\<close>

type_synonym va = "ulong \<times> u8 list"

definition va_arg :: "va list \<Rightarrow> (va \<times> va list) outcome" where
  "va_arg args = (case args of [] \<Rightarrow> BUG | a # args \<Rightarrow> Done (a, args))"

definition va_int :: "va \<Rightarrow> int" where
  "va_int a = sint (ucast (fst a) :: u32)"

fun get_flags :: "u8 list \<Rightarrow> u32 \<Rightarrow> (u32 \<times> u8 list) outcome" where
  "get_flags [] flags = BUG"
| "get_flags (c # fmt) flags =
     (if c = ch (CHR ''-'') then get_flags fmt (flags OR LEFT)
      else if c = ch (CHR ''+'') then get_flags fmt (flags OR PLUS)
      else if c = ch (CHR '' '') then get_flags fmt (flags OR SPACE)
      else if c = ch (CHR ''#'') then get_flags fmt (flags OR SPECIAL)
      else if c = ch (CHR ''0'') then get_flags fmt (flags OR ZEROPAD)
      else Done (flags, c # fmt))"

definition get_width :: "u8 list \<Rightarrow> u32 \<Rightarrow> va list \<Rightarrow> (u8 list \<times> u32 \<times> int \<times> va list) outcome" where
  "get_width fmt flags args =
     (case fmt of
        [] \<Rightarrow> BUG
      | c # fmt1 \<Rightarrow>
          if isdigit c then bind_outcome (skip_atoi 0 fmt) (\<lambda>(i, fmt). Done (fmt, flags, i, args))
          else if c = ch (CHR ''*'') then
            bind_outcome (va_arg args) (\<lambda>(a, args).
              if va_int a < 0 then Done (fmt1, flags OR LEFT, - va_int a, args)
              else Done (fmt1, flags, va_int a, args))
          else Done (fmt, flags, -1, args))"

definition get_precision :: "u8 list \<Rightarrow> va list \<Rightarrow> (u8 list \<times> int \<times> va list) outcome" where
  "get_precision fmt args =
     (case fmt of
        [] \<Rightarrow> BUG
      | c # fmt1 \<Rightarrow>
          if c = ch (CHR ''.'') then
            (case fmt1 of
               [] \<Rightarrow> BUG
             | d # fmt2 \<Rightarrow>
                 if isdigit d then
                   bind_outcome (skip_atoi 0 fmt1) (\<lambda>(i, fmt). Done (fmt, if i < 0 then 0 else i, args))
                 else if d = ch (CHR ''*'') then
                   bind_outcome (va_arg args) (\<lambda>(a, args).
                     Done (fmt2, if va_int a < 0 then 0 else va_int a, args))
                 else Done (fmt1, 0, args))
          else Done (fmt, -1, args))"

text \<open>A missing qualifier is 0, which no character of a format is.\<close>

definition get_qualifier :: "u8 list \<Rightarrow> (u8 list \<times> u8) outcome" where
  "get_qualifier fmt =
     (case fmt of
        [] \<Rightarrow> BUG
      | c # fmt1 \<Rightarrow>
          if c = ch (CHR ''h'') \<or> c = ch (CHR ''l'') \<or> c = ch (CHR ''L'') \<or> c = ch (CHR ''Z'') \<or> c = ch (CHR ''z'')
          then
            (case fmt1 of
               [] \<Rightarrow> BUG
             | d # fmt2 \<Rightarrow>
                 if c = ch (CHR ''l'') \<and> d = ch (CHR ''l'') then Done (fmt2, ch (CHR ''L'')) else Done (fmt1, c))
          else Done (fmt, 0))"

section \<open>Conversions\<close>

definition print_char :: "printer \<Rightarrow> u8 \<Rightarrow> u32 \<Rightarrow> int \<Rightarrow> printer outcome" where
  "print_char st c flags field_width =
     bind_outcome (if \<not> has_flag flags LEFT then pad_pre (ch (CHR '' '')) field_width st else Done (field_width, st))
       (\<lambda>(field_width, st).
     bind_outcome (putc c st) (\<lambda>st.
     bind_outcome (pad_pre (ch (CHR '' '')) field_width st) (\<lambda>(field_width, st). Done st)))"

text \<open>A pointer below the first page is printed as \<open><NULL>\<close>. The precision -1 is no limit.\<close>

definition print_string :: "printer \<Rightarrow> va \<Rightarrow> u32 \<Rightarrow> int \<Rightarrow> int \<Rightarrow> printer outcome" where
  "print_string st a flags field_width precision =
     (let s = (if fst a < 4096 then map ch ''<NULL>'' @ [0] else snd a) in
      bind_outcome (strnlen s (unat (of_int precision :: ulong))) (\<lambda>len.
      bind_outcome (if \<not> has_flag flags LEFT then pad_to (int len) (ch (CHR '' '')) field_width st else Done (field_width, st))
        (\<lambda>(field_width, st).
      bind_outcome (put_list (take len s) st) (\<lambda>st.
      bind_outcome (pad_to (int len) (ch (CHR '' '')) field_width st) (\<lambda>(field_width, st). Done st)))))"

definition print_pointer :: "printer \<Rightarrow> va \<Rightarrow> u32 \<Rightarrow> int \<Rightarrow> int \<Rightarrow> printer outcome" where
  "print_pointer st a flags field_width precision =
     (let (field_width, flags) = (if field_width = -1 then (16, flags OR ZEROPAD) else (field_width, flags)) in
      number st (fst a) 16 field_width precision flags)"

definition get_number :: "va \<Rightarrow> u8 \<Rightarrow> u32 \<Rightarrow> ulong" where
  "get_number a qualifier flags =
     (if qualifier = ch (CHR ''L'') \<or> qualifier = ch (CHR ''l'') \<or> qualifier = ch (CHR ''Z'') \<or> qualifier = ch (CHR ''z'')
      then fst a
      else if qualifier = ch (CHR ''h'') then
        (let num = ucast (fst a) :: u16 in if has_flag flags SIGN then scast num else ucast num)
      else
        (let num = ucast (fst a) :: u32 in if has_flag flags SIGN then scast num else ucast num))"

text \<open>
  What \<open>%n\<close> stores is the number of characters so far, in the width of its qualifier; the stores are listed in order.
\<close>

definition count_store :: "printer \<Rightarrow> u8 \<Rightarrow> ulong" where
  "count_store st qualifier =
     (if qualifier = ch (CHR ''l'') \<or> qualifier = ch (CHR ''Z'') \<or> qualifier = ch (CHR ''z'')
      then pstr st - pbuf st
      else ucast (ucast (pstr st - pbuf st) :: u32))"

text \<open>The base of an integer conversion and its flags; \<open>None\<close> for any other character.\<close>

definition integer_format :: "u8 \<Rightarrow> u32 \<Rightarrow> (int \<times> u32) option" where
  "integer_format c flags =
     (if c = ch (CHR ''o'') then Some (8, flags)
      else if c = ch (CHR ''X'') then Some (16, flags OR LARGE)
      else if c = ch (CHR ''x'') then Some (16, flags)
      else if c = ch (CHR ''d'') \<or> c = ch (CHR ''i'') then Some (10, flags OR SIGN)
      else if c = ch (CHR ''u'') then Some (10, flags)
      else None)"

definition convert ::
  "u8 \<Rightarrow> u32 \<Rightarrow> int \<Rightarrow> int \<Rightarrow> u8 \<Rightarrow> va list \<Rightarrow> printer \<Rightarrow> (va list \<times> ulong list \<times> printer) outcome" where
  "convert c flags field_width precision qualifier args st =
     (if c = ch (CHR ''c'') then
        bind_outcome (va_arg args) (\<lambda>(a, args).
        bind_outcome (print_char st (ucast (fst a)) flags field_width) (\<lambda>st. Done (args, [], st)))
      else if c = ch (CHR ''s'') then
        bind_outcome (va_arg args) (\<lambda>(a, args).
        bind_outcome (print_string st a flags field_width precision) (\<lambda>st. Done (args, [], st)))
      else if c = ch (CHR ''p'') then
        bind_outcome (va_arg args) (\<lambda>(a, args).
        bind_outcome (print_pointer st a flags field_width precision) (\<lambda>st. Done (args, [], st)))
      else if c = ch (CHR ''n'') then
        bind_outcome (va_arg args) (\<lambda>(a, args). Done (args, [count_store st qualifier], st))
      else if c = ch (CHR ''%'') then
        bind_outcome (putc (ch (CHR ''%'')) st) (\<lambda>st. Done (args, [], st))
      else
        (case integer_format c flags of
           Some (base, flags) \<Rightarrow>
             bind_outcome (va_arg args) (\<lambda>(a, args).
             bind_outcome (number st (get_number a qualifier flags) base field_width precision flags) (\<lambda>st.
               Done (args, [], st)))
         | None \<Rightarrow>
             bind_outcome (putc (ch (CHR ''%'')) st) (\<lambda>st.
             bind_outcome (if c \<noteq> 0 then putc c st else Done st) (\<lambda>st. Done (args, [], st)))))"

section \<open>The format\<close>

text \<open>What is between the \<open>%\<close> and the conversion character.\<close>

definition get_directive :: "u8 list \<Rightarrow> va list \<Rightarrow> (u8 list \<times> u32 \<times> int \<times> int \<times> u8 \<times> va list) outcome" where
  "get_directive fmt args =
     bind_outcome (get_flags fmt 0) (\<lambda>(flags, fmt).
     bind_outcome (get_width fmt flags args) (\<lambda>(fmt, flags, field_width, args).
     bind_outcome (get_precision fmt args) (\<lambda>(fmt, precision, args).
     bind_outcome (get_qualifier fmt) (\<lambda>(fmt, qualifier).
       Done (fmt, flags, field_width, precision, qualifier, args)))))"

lemma skip_atoi_length: "skip_atoi i s = Done (j, s') \<Longrightarrow> length s' \<le> length s"
  by (induction i s rule: skip_atoi.induct) (auto split: if_splits)

lemma get_flags_length: "get_flags fmt flags = Done (flags', fmt') \<Longrightarrow> length fmt' \<le> length fmt"
  by (induction fmt flags rule: get_flags.induct) (auto split: if_splits)

lemma get_width_length: "get_width fmt flags args = Done (fmt', x) \<Longrightarrow> length fmt' \<le> length fmt"
  by (auto simp: get_width_def bind_outcome_eq_Done split: list.splits if_splits dest: skip_atoi_length)

lemma get_precision_length: "get_precision fmt args = Done (fmt', x) \<Longrightarrow> length fmt' \<le> length fmt"
  by (auto simp: get_precision_def bind_outcome_eq_Done split: list.splits if_splits dest: skip_atoi_length)

lemma get_qualifier_length: "get_qualifier fmt = Done (fmt', x) \<Longrightarrow> length fmt' \<le> length fmt"
  by (auto simp: get_qualifier_def split: list.splits if_splits)

lemma get_directive_length: "get_directive fmt args = Done (fmt', x) \<Longrightarrow> length fmt' \<le> length fmt"
  by (fastforce simp: get_directive_def bind_outcome_eq_Done
        dest!: get_flags_length get_width_length get_precision_length get_qualifier_length)

text \<open>
  The loop over the format, with the values that \<open>%n\<close> stored. When the format ends inside a directive, the loop goes back by
  one character and ends.
\<close>

function vsnprintf_loop :: "u8 list \<Rightarrow> va list \<Rightarrow> printer \<Rightarrow> (ulong list \<times> printer) outcome" where
  "vsnprintf_loop [] args st = BUG"
| "vsnprintf_loop (c # fmt) args st =
     (if c = 0 then Done ([], st)
      else if c \<noteq> ch (CHR ''%'') then bind_outcome (putc c st) (vsnprintf_loop fmt args)
      else
        case get_directive fmt args of
          BUG \<Rightarrow> BUG
        | Done (fmt1, flags, field_width, precision, qualifier, args) \<Rightarrow>
            (case fmt1 of
               [] \<Rightarrow> BUG
             | d # fmt2 \<Rightarrow>
                 bind_outcome (convert d flags field_width precision qualifier args st) (\<lambda>(args, stores, st).
                 bind_outcome (vsnprintf_loop (if d = 0 then fmt1 else fmt2) args st) (\<lambda>(later, st).
                   Done (stores @ later, st)))))"
  by pat_completeness auto
termination
  by (relation "measure (\<lambda>(fmt, args, st). length fmt)") (auto dest!: get_directive_length)

declare vsnprintf_loop.simps [simp del]

text \<open>The 0 byte at the end.\<close>

definition put_end :: "printer \<Rightarrow> ulong \<Rightarrow> printer outcome" where
  "put_end st sz =
     (if pstr st \<le> pend st then putc 0 st
      else if sz > 0 then putc 0 (st\<lparr>pstr := pend st\<rparr>)
      else Done st)"

text \<open>
  The buffer is at the address \<open>buf\<close>. The result is what the function returns, the values that \<open>%n\<close> stored, and the
  bytes of the buffer.
\<close>

definition vsnprintf ::
  "ulong \<Rightarrow> u8 list \<Rightarrow> ulong \<Rightarrow> u8 list \<Rightarrow> va list \<Rightarrow> (int \<times> ulong list \<times> u8 list) outcome" where
  "vsnprintf buf mem sz fmt args =
     bug_on (sint (ucast sz :: u32) < 0 \<or> (ucast (ucast sz :: u32) :: ulong) \<noteq> sz)
       (let endp = buf + sz - 1;
            (endp, sz) = (if endp < buf - 1 then (-1, -1 - buf + 1) else (endp, sz)) in
        bind_outcome (vsnprintf_loop fmt args \<lparr>pbuf = buf, pend = endp, pstr = buf, pmem = mem\<rparr>) (\<lambda>(stores, st).
          let ret = sint (ucast (pstr st - buf) :: u32) in
          bind_outcome (put_end st sz) (\<lambda>st. Done (ret, stores, pmem st))))"

definition scn_result :: "int \<Rightarrow> ulong \<Rightarrow> int" where
  "scn_result i sz =
     (let i = (if (of_int i :: ulong) \<ge> sz then sint (ucast (sz - 1) :: u32) else i) in if i > 0 then i else 0)"

definition vscnprintf ::
  "ulong \<Rightarrow> u8 list \<Rightarrow> ulong \<Rightarrow> u8 list \<Rightarrow> va list \<Rightarrow> (int \<times> ulong list \<times> u8 list) outcome" where
  "vscnprintf buf mem sz fmt args =
     bind_outcome (vsnprintf buf mem sz fmt args) (\<lambda>(i, stores, mem). Done (scn_result i sz, stores, mem))"

definition snprintf ::
  "ulong \<Rightarrow> u8 list \<Rightarrow> ulong \<Rightarrow> u8 list \<Rightarrow> va list \<Rightarrow> (int \<times> ulong list \<times> u8 list) outcome" where
  "snprintf buf mem sz fmt args = vsnprintf buf mem sz fmt args"

definition scnprintf ::
  "ulong \<Rightarrow> u8 list \<Rightarrow> ulong \<Rightarrow> u8 list \<Rightarrow> va list \<Rightarrow> (int \<times> ulong list \<times> u8 list) outcome" where
  "scnprintf buf mem sz fmt args =
     bind_outcome (vsnprintf buf mem sz fmt args) (\<lambda>(i, stores, mem). Done (scn_result i sz, stores, mem))"

end
