(* ===== verification/Vsprintf_Props.thy ===== *)
theory Vsprintf_Props
  imports Vsprintf
begin

text \<open>
  Formatted output: one output for every format, of which a buffer gets what fits, and numbers that are read back as they
  were printed.
\<close>

section \<open>Output as a list of characters\<close>

lemma bind_outcome_assoc [simp]:
  "bind_outcome (bind_outcome m f) g = bind_outcome m (\<lambda>x. bind_outcome (f x) g)"
  by (cases m) auto

lemma bind_outcome_Done_right [simp]: "bind_outcome m Done = m"
  by (cases m) auto

lemma put_list_Nil [simp]: "put_list [] = Done"
  by (simp add: fun_eq_iff)

lemma putc_list: "putc c st = put_list [c] st"
  by (cases "putc c st") simp_all

lemma put_list_append: "put_list (xs @ ys) = (\<lambda>st. bind_outcome (put_list xs st) (put_list ys))"
proof
  show "put_list (xs @ ys) st = bind_outcome (put_list xs st) (put_list ys)" for st
  proof (induction xs arbitrary: st)
    case (Cons c xs)
    then show ?case by (cases "putc c st") simp_all
  qed simp
qed

lemma pad_to_list:
  "pad_to len c n st =
     bind_outcome (put_list (replicate (nat (n - len)) c) st) (\<lambda>st. Done (if len < n then len - 1 else n - 1, st))"
proof (induction "nat (n - len)" arbitrary: n st)
  case 0
  then show ?case by (subst pad_to.simps) simp
next
  case (Suc k)
  then have "len < n" "k = nat (n - 1 - len)" "nat (n - len) = Suc k" by linarith+
  moreover have "(if len < n - 1 then len - 1 else n - 1 - 1) = len - 1"
    using \<open>len < n\<close> by auto
  ultimately show ?case
    using Suc.hyps(1) [of "n - 1"] by (cases "putc c st"; subst pad_to.simps) simp_all
qed

lemma pad_pre_list:
  "pad_pre c n st =
     bind_outcome (put_list (replicate (nat (n - 1)) c) st) (\<lambda>st. Done (if 1 < n then 0 else n - 1, st))"
proof (induction "nat (n - 1)" arbitrary: n st)
  case 0
  then show ?case by (subst pad_pre.simps) simp
next
  case (Suc k)
  then have "1 < n" "k = nat (n - 1 - 1)" "nat (n - 1) = Suc k" by linarith+
  moreover have "(if 1 < n - 1 then 0 else n - 1 - 1) = 0"
    using \<open>1 < n\<close> by auto
  ultimately show ?case
    using Suc.hyps(1) [of "n - 1"] by (cases "putc c st"; subst pad_pre.simps) simp_all
qed

text \<open>A printing function that puts out the same characters whatever the buffer is.\<close>

definition emits :: "(printer \<Rightarrow> printer outcome) \<Rightarrow> bool" where
  "emits f \<longleftrightarrow> (\<exists>cs. \<forall>st. f st = put_list cs st)"

section \<open>Digits\<close>

lemma number_digits_length: "n < b ^ k \<Longrightarrow> length (number_digits ds b n) \<le> k"
proof (induction k arbitrary: n)
  case (Suc k)
  then have "n div b < b ^ k" by (simp add: less_mult_imp_div_less mult.commute)
  then show ?case
    using Suc.IH [of "n div b"] by (subst number_digits.simps) simp
qed (simp add: number_digits.simps)

lemma number_digits_64:
  assumes "2 \<le> b"
  shows "length (number_digits ds b (unat (x :: ulong))) \<le> 64"
proof (rule number_digits_length)
  have "unat x < 2 ^ 64" using unsigned_less [of x] by simp
  also have "(2::nat) ^ 64 \<le> b ^ 64" using assms by (rule power_mono) simp
  finally show "unat x < b ^ 64" .
qed

text \<open>The characters of a number: blanks, sign, prefix, zeros, digits, blanks.\<close>

definition number_chars :: "ulong \<Rightarrow> int \<Rightarrow> int \<Rightarrow> int \<Rightarrow> u32 \<Rightarrow> u8 list" where
  "number_chars num base sz precision type =
     (let digits = (if has_flag type LARGE then large_digits else small_digits);
          left = has_flag type LEFT; zero = has_flag type ZEROPAD \<and> \<not> left;
          (sign, num, sz) = number_sign num sz type;
          tmp = (if num = 0 then [ch (CHR ''0'')] else number_digits digits (nat base) (unat num));
          sz = special_size base sz type - max (int (length tmp)) precision in
      (if left \<or> zero then [] else replicate (nat sz) (ch (CHR '' ''))) @ (if sign = 0 then [] else [sign]) @
      special_prefix digits base type @ (if zero then replicate (nat sz) (ch (CHR ''0'')) else []) @
      replicate (nat (precision - int (length tmp))) (ch (CHR ''0'')) @ rev tmp @
      (if left then replicate (nat sz) (ch (CHR '' '')) else []))"

lemma has_flag_bit: "has_flag t (2 ^ n) \<longleftrightarrow> bit t n"
  by (simp add: has_flag_def bit_iff_and_push_bit_not_eq_0 push_bit_eq_mult)

lemma flag_powers:
  "ZEROPAD = 2 ^ 0" "SIGN = 2 ^ 1" "PLUS = 2 ^ 2" "SPACE = 2 ^ 3" "LEFT = 2 ^ 4" "SPECIAL = 2 ^ 5" "LARGE = 2 ^ 6"
  by (simp_all add: ZEROPAD_def SIGN_def PLUS_def SPACE_def LEFT_def SPECIAL_def LARGE_def)

lemma bit_ZEROPAD [simp]: "bit ZEROPAD n \<longleftrightarrow> n = 0"
  by (auto simp: ZEROPAD_def bit_1_iff)

lemma has_flag_clear [simp]:
  "has_flag (t AND NOT ZEROPAD) SIGN = has_flag t SIGN" "has_flag (t AND NOT ZEROPAD) PLUS = has_flag t PLUS"
  "has_flag (t AND NOT ZEROPAD) SPACE = has_flag t SPACE" "has_flag (t AND NOT ZEROPAD) LEFT = has_flag t LEFT"
  "has_flag (t AND NOT ZEROPAD) SPECIAL = has_flag t SPECIAL" "has_flag (t AND NOT ZEROPAD) LARGE = has_flag t LARGE"
  unfolding flag_powers(2-) by (simp_all only: has_flag_bit bit_and_iff bit_not_iff bit_ZEROPAD)
    auto

lemma has_flag_cleared [simp]: "\<not> has_flag (t AND NOT ZEROPAD) ZEROPAD"
  by (auto simp: has_flag_def bit_eq_iff bit_and_iff bit_not_iff)

lemma has_flag_either: "has_flag t (ZEROPAD + LEFT) \<longleftrightarrow> has_flag t ZEROPAD \<or> has_flag t LEFT"
proof -
  have "ZEROPAD + LEFT = ZEROPAD OR LEFT" by (simp add: ZEROPAD_def LEFT_def)
  then have "t AND (ZEROPAD + LEFT) = (t AND ZEROPAD) OR (t AND LEFT)"
    by (simp add: bit.conj_disj_distrib)
  then show ?thesis by (auto simp: has_flag_def or_eq_0_iff)
qed

lemma number_sign_clear [simp]: "number_sign num sz (t AND NOT ZEROPAD) = number_sign num sz t"
  by (simp add: number_sign_def)

lemma special_clear [simp]:
  "special_size base sz (t AND NOT ZEROPAD) = special_size base sz t"
  "special_prefix digits base (t AND NOT ZEROPAD) = special_prefix digits base t"
  by (simp_all add: special_size_def special_prefix_def)

lemma number_list:
  assumes "2 \<le> base" "base \<le> 36"
  shows "number st num base sz precision type = put_list (number_chars num base sz precision type) st"
proof -
  define digits where "digits = (if has_flag type LARGE then large_digits else small_digits)"
  obtain sign num' sz' where s: "number_sign num sz type = (sign, num', sz')" by (metis prod_cases3)
  define tmp where "tmp = (if num' = 0 then [ch (CHR ''0'')] else number_digits digits (nat base) (unat num'))"
  have "2 \<le> nat base" using assms by linarith
  then have len: "\<not> length tmp > 66"
    using number_digits_64 [of "nat base" digits num'] by (auto simp: tmp_def)
  define p where "p = (if int (length tmp) > precision then int (length tmp) else precision)"
  have p: "max (int (length tmp)) precision = p" "nat (p - int (length tmp)) = nat (precision - int (length tmp))"
    by (auto simp: p_def)
  define sg where "sg = (if sign = 0 then [] else [sign])"
  have sg: "(if sign \<noteq> 0 then putc sign st else Done st) = put_list sg st" for st
    by (simp add: sg_def putc_list del: put_list.simps(2))
  show ?thesis
  proof (cases "has_flag type LEFT")
    case True
    then show ?thesis
      using assms len
      by (simp add: number_def number_chars_def s digits_def [symmetric] tmp_def [symmetric] p_def [symmetric] p
          sg sg_def [symmetric] has_flag_either bug_on_def pad_to_list put_list_append del: put_list.simps(2) not_gr_zero)
  next
    case False
    then show ?thesis
      using assms len
      by (simp add: number_def number_chars_def s digits_def [symmetric] tmp_def [symmetric] p_def [symmetric] p
          sg sg_def [symmetric] has_flag_either bug_on_def pad_to_list put_list_append del: put_list.simps(2) not_gr_zero)
  qed
qed

section \<open>Conversions\<close>

lemma emitsI: "(\<And>st. f st = put_list cs st) \<Longrightarrow> emits f"
  by (auto simp: emits_def)

lemma print_char_emits: "emits (\<lambda>st. print_char st c flags w)"
proof (cases "has_flag flags LEFT")
  case True
  then show ?thesis
    by (intro emitsI [of _ "[c] @ replicate (nat (w - 1)) (ch (CHR '' ''))"])
      (simp only: print_char_def if_not_P bind_outcome.simps prod.case pad_pre_list put_list_append putc_list
        bind_outcome_assoc bind_outcome_Done_right not_not if_False)
next
  case False
  then show ?thesis
    by (intro emitsI [of _ "replicate (nat (w - 1)) (ch (CHR '' '')) @ [c] @
          replicate (nat ((if 1 < w then 0 else w - 1) - 1)) (ch (CHR '' ''))"])
      (simp only: print_char_def bind_outcome.simps prod.case pad_pre_list put_list_append putc_list
        bind_outcome_assoc bind_outcome_Done_right not_False_eq_True if_True)
qed

text \<open>An argument that is a string has a 0 byte.\<close>

definition readable :: "va \<Rightarrow> bool" where
  "readable a \<longleftrightarrow> fst a < 4096 \<or> 0 \<in> set (snd a)"

lemma strnlen_total: "0 \<in> set s \<Longrightarrow> \<exists>n. strnlen s k = Done n"
  by (induction s k rule: strnlen.induct) auto

lemma print_string_emits:
  assumes "readable a"
  shows "emits (\<lambda>st. print_string st a flags w p)"
proof -
  define s where "s = (if fst a < 4096 then map ch ''<NULL>'' @ [0] else snd a)"
  have "0 \<in> set s" using assms by (auto simp: readable_def s_def)
  then obtain len where len: "strnlen s (unat (of_int p :: ulong)) = Done len" using strnlen_total by blast
  show ?thesis
  proof (cases "has_flag flags LEFT")
    case True
    then show ?thesis
      by (intro emitsI [of _ "take len s @ replicate (nat (w - int len)) (ch (CHR '' ''))"])
        (simp add: print_string_def s_def [symmetric] len pad_to_list put_list_append)
  next
    case False
    then show ?thesis
      by (intro emitsI [of _ "replicate (nat (w - int len)) (ch (CHR '' '')) @ take len s"])
        (simp add: print_string_def s_def [symmetric] len pad_to_list put_list_append)
  qed
qed

lemma print_pointer_emits: "emits (\<lambda>st. print_pointer st a flags w p)"
  by (cases "w = -1")
    (auto simp: print_pointer_def number_list intro!: emitsI)

lemma integer_format_base: "integer_format c flags = Some (base, flags') \<Longrightarrow> 2 \<le> base \<and> base \<le> 36"
  by (auto simp: integer_format_def split: if_splits)

text \<open>
  Every conversion puts out characters that do not depend on the buffer, takes at most one argument, and stores a value that
  depends only on the number of characters so far.
\<close>

definition pos :: "printer \<Rightarrow> ulong" where
  "pos st = pstr st - pbuf st"

lemma count_store_pos: "\<exists>f. \<forall>st. count_store st q = f (pos st)"
  by (rule exI [of _ "\<lambda>k. if q = ch (CHR ''l'') \<or> q = ch (CHR ''Z'') \<or> q = ch (CHR ''z'') then k
                          else ucast (ucast k :: u32)"]) (simp add: count_store_def pos_def)

definition converts :: "(printer \<Rightarrow> (va list \<times> ulong list \<times> printer) outcome) \<Rightarrow> va list \<Rightarrow> bool" where
  "converts f args \<longleftrightarrow>
     (\<exists>cs stores. \<forall>st. f st = bind_outcome (put_list cs st) (\<lambda>st'. Done (args, stores (pos st), st')))"

lemma emits_converts:
  assumes "emits f"
  shows "converts (\<lambda>st. bind_outcome (f st) (\<lambda>st. Done (args, [], st))) args"
proof -
  obtain cs where "\<And>st. f st = put_list cs st" using assms by (auto simp: emits_def)
  then show ?thesis unfolding converts_def by (intro exI [of _ cs] exI [of _ "\<lambda>_. []"]) simp
qed

lemma convert_default_emits: "emits (\<lambda>st. bind_outcome (putc x st) (\<lambda>st. if b then putc c st else Done st))"
proof -
  have "(if b then putc c st else Done st) = put_list (if b then [c] else []) st" for st
    by (simp add: putc_list del: put_list.simps(2))
  then show ?thesis
    by (intro emitsI [of _ "x # (if b then [c] else [])"]) simp
qed

text \<open>A conversion of an argument into characters.\<close>

lemma convert_argument:
  assumes "args = a # rest" "readable a"
    and c: "c \<in> {ch (CHR ''c''), ch (CHR ''s''), ch (CHR ''p'')} \<or> integer_format c flags \<noteq> None"
  shows "\<exists>f. emits f \<and> (\<forall>st. convert c flags w p q args st = bind_outcome (f st) (\<lambda>st. Done (rest, [], st)))"
proof (cases "integer_format c flags")
  case None
  define f where "f = (if c = ch (CHR ''c'') then (\<lambda>st. print_char st (ucast (fst a)) flags w)
    else if c = ch (CHR ''s'') then (\<lambda>st. print_string st a flags w p)
    else (\<lambda>st. print_pointer st a flags w p))"
  have "emits f"
    using print_char_emits print_string_emits [OF assms(2)] print_pointer_emits by (simp add: f_def)
  moreover have "convert c flags w p q args st = bind_outcome (f st) (\<lambda>st. Done (rest, [], st))" for st
    using c None by (elim disjE) (auto simp: convert_def f_def va_arg_def assms(1))
  ultimately show ?thesis by blast
next
  case (Some x)
  obtain base fl where x: "x = (base, fl)" by (cases x)
  then have "2 \<le> base" "base \<le> 36" using integer_format_base Some by auto
  then have "emits (\<lambda>st. number st (get_number a q fl) base w p fl)"
    by (auto intro!: emitsI simp: number_list)
  moreover have "convert c flags w p q args st =
      bind_outcome (number st (get_number a q fl) base w p fl) (\<lambda>st. Done (rest, [], st))" for st
    using Some by (auto simp: convert_def integer_format_def va_arg_def assms(1) x split: if_splits)
  ultimately show ?thesis by blast
qed

lemma convert_converts:
  assumes "args = a # rest" "readable a"
  shows "\<exists>args'. (args' = args \<or> args' = rest) \<and> converts (convert c flags w p q args) args'"
proof (cases "c \<in> {ch (CHR ''c''), ch (CHR ''s''), ch (CHR ''p'')} \<or> integer_format c flags \<noteq> None")
  case True
  then obtain f where "emits f"
    "\<And>st. convert c flags w p q args st = bind_outcome (f st) (\<lambda>st. Done (rest, [], st))"
    using convert_argument [OF assms] by blast
  then have "converts (convert c flags w p q args) rest"
    using emits_converts [of f rest] by (simp add: converts_def)
  then show ?thesis by blast
next
  case False
  show ?thesis
  proof (cases "c = ch (CHR ''n'')")
    case True
    obtain f where "\<And>st. count_store st q = f (pos st)" using count_store_pos by blast
    then have "converts (convert c flags w p q args) rest"
      unfolding converts_def
      by (intro exI [of _ "[]"] exI [of _ "\<lambda>k. [f k]"]) (simp add: convert_def True va_arg_def assms(1))
    then show ?thesis by blast
  next
    case n: False
    have none: "integer_format c flags = None" using False by blast
    have "convert c flags w p q args = (\<lambda>st. bind_outcome (bind_outcome (putc (ch (CHR ''%'')) st)
        (\<lambda>st. if c \<noteq> ch (CHR ''%'') \<and> c \<noteq> 0 then putc c st else Done st)) (\<lambda>st. Done (args, [], st)))"
      using False n by (cases "c = ch (CHR ''%'')") (simp_all add: convert_def fun_eq_iff none)
    then have "converts (convert c flags w p q args) args"
      by (simp only:) (rule emits_converts [OF convert_default_emits])
    then show ?thesis by blast
  qed
qed

section \<open>Directives\<close>

text \<open>A format that ends in a 0 byte, with an argument for each of its characters at least, is read without an error.\<close>

definition enough :: "u8 list \<Rightarrow> va list \<Rightarrow> bool" where
  "enough fmt args \<longleftrightarrow> 0 \<in> set fmt \<and> length fmt \<le> length args \<and> (\<forall>a\<in>set args. readable a)"

lemma isdigit_0 [simp]: "\<not> isdigit 0"
  by (simp add: isdigit_def ismask_def ctype_table_def CT_C_def CT_D_def)

lemma skip_atoi_enough:
  "enough fmt args \<Longrightarrow> \<exists>j fmt'. skip_atoi i fmt = Done (j, fmt') \<and> enough fmt' args"
proof (induction i fmt rule: skip_atoi.induct)
  case (2 i c s)
  show ?case
  proof (cases "isdigit c")
    case True
    then have "enough s args" using "2.prems" by (auto simp: enough_def)
    then show ?thesis using "2.IH" True by simp
  qed (use 2 in simp)
qed (simp add: enough_def)

lemma get_flags_enough:
  "enough fmt args \<Longrightarrow> \<exists>fl fmt'. get_flags fmt flags = Done (fl, fmt') \<and> enough fmt' args"
proof (induction fmt flags rule: get_flags.induct)
  case (2 c fmt flags)
  have "enough fmt args" if "c \<noteq> 0" using that "2.prems" by (auto simp: enough_def)
  then show ?case
    using 2 by (auto split: if_splits)
qed (simp add: enough_def)

lemma enough_Cons:
  assumes "enough fmt args"
  obtains c fmt1 a args1 where "fmt = c # fmt1" "args = a # args1" "readable a"
    "c \<noteq> 0 \<Longrightarrow> enough fmt1 args" "c \<noteq> 0 \<Longrightarrow> enough fmt1 args1"
  using assms by (cases fmt; cases args) (auto simp: enough_def)

lemma get_width_enough:
  assumes "enough fmt args"
  shows "\<exists>fmt' fl w args'. get_width fmt flags args = Done (fmt', fl, w, args') \<and> enough fmt' args'"
proof -
  obtain c fmt1 a args1 where f: "fmt = c # fmt1" "args = a # args1"
    "c \<noteq> 0 \<Longrightarrow> enough fmt1 args1" using enough_Cons [OF assms] by metis
  obtain j fmt' where "skip_atoi 0 fmt = Done (j, fmt')" "enough fmt' args"
    using skip_atoi_enough [OF assms] by blast
  then show ?thesis
    using f assms by (auto simp: get_width_def va_arg_def)
qed

lemma get_precision_enough:
  assumes "enough fmt args"
  shows "\<exists>fmt' p args'. get_precision fmt args = Done (fmt', p, args') \<and> enough fmt' args'"
proof -
  obtain c fmt1 where f: "fmt = c # fmt1" "c \<noteq> 0 \<Longrightarrow> enough fmt1 args"
    using enough_Cons [OF assms] by metis
  show ?thesis
  proof (cases "c = ch (CHR ''.'')")
    case True
    then have e: "enough fmt1 args" using f by auto
    obtain d fmt2 a args1 where g: "fmt1 = d # fmt2" "args = a # args1"
      "d \<noteq> 0 \<Longrightarrow> enough fmt2 args1" using enough_Cons [OF e] by metis
    obtain j fmt' where "skip_atoi 0 fmt1 = Done (j, fmt')" "enough fmt' args"
      using skip_atoi_enough [OF e] by blast
    then show ?thesis
      using f g e True by (auto simp: get_precision_def va_arg_def)
  qed (use f assms in \<open>simp add: get_precision_def\<close>)
qed

lemma get_qualifier_enough:
  assumes "enough fmt args"
  shows "\<exists>fmt' q. get_qualifier fmt = Done (fmt', q) \<and> enough fmt' args"
proof -
  obtain c fmt1 where f: "fmt = c # fmt1" "c \<noteq> 0 \<Longrightarrow> enough fmt1 args"
    using enough_Cons [OF assms] by metis
  show ?thesis
  proof (cases "c = 0")
    case False
    then have e: "enough fmt1 args" using f by auto
    obtain d fmt2 where "fmt1 = d # fmt2" "d \<noteq> 0 \<Longrightarrow> enough fmt2 args"
      using enough_Cons [OF e] by metis
    then show ?thesis using f e assms by (auto simp: get_qualifier_def)
  qed (use f assms in \<open>simp add: get_qualifier_def\<close>)
qed

lemma get_directive_enough:
  assumes "enough fmt args"
  obtains fmt' fl w p q args' where "get_directive fmt args = Done (fmt', fl, w, p, q, args')" "enough fmt' args'"
proof -
  obtain fl1 fmt1 where "get_flags fmt 0 = Done (fl1, fmt1)" "enough fmt1 args"
    using get_flags_enough [OF assms] by blast
  moreover from this obtain fmt2 fl w args2 where "get_width fmt1 fl1 args = Done (fmt2, fl, w, args2)" "enough fmt2 args2"
    using get_width_enough by blast
  moreover from this obtain fmt3 p args3 where "get_precision fmt2 args2 = Done (fmt3, p, args3)" "enough fmt3 args3"
    using get_precision_enough by blast
  moreover from this obtain fmt4 q where "get_qualifier fmt3 = Done (fmt4, q)" "enough fmt4 args3"
    using get_qualifier_enough by blast
  ultimately show thesis using that by (simp add: get_directive_def)
qed

section \<open>The loop\<close>

text \<open>Printing the characters \<open>cs\<close> and storing \<open>stores\<close>, from any buffer in which \<open>k\<close> characters have been printed.\<close>

definition prints :: "(printer \<Rightarrow> (ulong list \<times> printer) outcome) \<Rightarrow> ulong \<Rightarrow> u8 list \<Rightarrow> ulong list \<Rightarrow> bool" where
  "prints f k cs stores \<longleftrightarrow>
     (\<forall>st. pos st = k \<longrightarrow> f st = bind_outcome (put_list cs st) (\<lambda>st'. Done (stores, st')))"

lemma putc_pos: "putc c st = Done st' \<Longrightarrow> pos st' = pos st + 1"
  by (auto simp: putc_def pos_def bug_on_def Let_def algebra_simps split: if_splits)

lemma put_list_pos: "put_list cs st = Done st' \<Longrightarrow> pos st' = pos st + of_nat (length cs)"
  by (induction cs arbitrary: st) (auto simp: bind_outcome_eq_Done putc_pos)

lemma prints_put:
  assumes "prints g (k + 1) cs stores"
  shows "prints (\<lambda>st. bind_outcome (putc c st) g) k (c # cs) stores"
  unfolding prints_def
proof (intro allI impI)
  fix st
  assume "pos st = k"
  then show "bind_outcome (putc c st) g = bind_outcome (put_list (c # cs) st) (\<lambda>st'. Done (stores, st'))"
    using assms putc_pos [of c st] by (cases "putc c st") (auto simp: prints_def)
qed

lemma prints_convert:
  assumes "\<And>st. f st = bind_outcome (put_list cs st) (\<lambda>st'. Done (args, stf (pos st), st'))"
    and "prints (g args) (k + of_nat (length cs)) cs' stores"
  shows "prints (\<lambda>st. bind_outcome (f st) (\<lambda>(args, stores, st). bind_outcome (g args st) (\<lambda>(later, st). Done (stores @ later, st))))
           k (cs @ cs') (stf k @ stores)"
  unfolding prints_def
proof (intro allI impI)
  fix st
  assume "pos st = k"
  then show "bind_outcome (f st) (\<lambda>(args, stores, st). bind_outcome (g args st) (\<lambda>(later, st). Done (stores @ later, st))) =
      bind_outcome (put_list (cs @ cs') st) (\<lambda>st'. Done (stf k @ stores, st'))"
    using assms put_list_pos [of cs st] by (cases "put_list cs st") (auto simp: prints_def put_list_append)
qed

text \<open>One directive, when the format behind it prints.\<close>

lemma directive_prints:
  assumes e: "enough fmt args"
    and rest: "\<And>fmt' args' k. length fmt' < length fmt \<Longrightarrow> enough fmt' args' \<Longrightarrow>
      \<exists>cs stores. prints (vsnprintf_loop fmt' args') k cs stores"
  shows "\<exists>cs stores. prints (vsnprintf_loop (ch (CHR ''%'') # fmt) args) k cs stores"
proof -
  obtain fmt2 fl w p q args2 where g: "get_directive fmt args = Done (fmt2, fl, w, p, q, args2)" "enough fmt2 args2"
    using get_directive_enough [OF e] by blast
  obtain d fmt3 a args3 where h: "fmt2 = d # fmt3" "args2 = a # args3" "readable a"
    "d \<noteq> 0 \<Longrightarrow> enough fmt3 args2" "d \<noteq> 0 \<Longrightarrow> enough fmt3 args3"
    using enough_Cons [OF g(2)] by blast
  obtain args' where args': "args' = args2 \<or> args' = args3" "converts (convert d fl w p q args2) args'"
    using convert_converts [OF h(2,3), of d fl w p q] by blast
  then obtain ds stf where c: "\<And>st. convert d fl w p q args2 st =
      bind_outcome (put_list ds st) (\<lambda>st'. Done (args', stf (pos st), st'))"
    unfolding converts_def by blast
  have "\<exists>cs stores. prints (vsnprintf_loop (if d = 0 then fmt2 else fmt3) args') (k + of_nat (length ds)) cs stores"
  proof (cases "d = 0")
    case True
    then have "prints (vsnprintf_loop fmt2 args') (k + of_nat (length ds)) [] []"
      by (simp add: prints_def h vsnprintf_loop.simps)
    then show ?thesis using True by auto
  next
    case False
    have "length fmt3 < length fmt"
      using get_directive_length [OF g(1)] by (simp add: h)
    then show ?thesis
      using rest [of fmt3 args'] False args'(1) h(4,5) by auto
  qed
  then obtain cs stores
    where p: "prints (vsnprintf_loop (if d = 0 then fmt2 else fmt3) args') (k + of_nat (length ds)) cs stores" by blast
  have "vsnprintf_loop (ch (CHR ''%'') # fmt) args = (\<lambda>st. bind_outcome (convert d fl w p q args2 st)
      (\<lambda>(args, stores, st). bind_outcome (vsnprintf_loop (if d = 0 then fmt2 else fmt3) args st)
        (\<lambda>(later, st). Done (stores @ later, st))))"
    by (rule ext, subst vsnprintf_loop.simps(2)) (simp add: g h)
  then have "prints (vsnprintf_loop (ch (CHR ''%'') # fmt) args) k (ds @ cs) (stf k @ stores)"
    using prints_convert [where f = "convert d fl w p q args2" and g = "vsnprintf_loop (if d = 0 then fmt2 else fmt3)",
        OF c p] by (simp only:)
  then show ?thesis by blast
qed

lemma vsnprintf_loop_prints:
  "enough fmt args \<Longrightarrow> \<exists>cs stores. prints (vsnprintf_loop fmt args) k cs stores"
proof (induction "length fmt" arbitrary: fmt args k rule: less_induct)
  case less
  obtain c fmt1 where f: "fmt = c # fmt1" "c \<noteq> 0 \<Longrightarrow> enough fmt1 args"
    using enough_Cons [OF less.prems] by metis
  consider "c = 0" | "c \<noteq> 0" "c \<noteq> ch (CHR ''%'')" | "c = ch (CHR ''%'')" by blast
  then show ?case
  proof cases
    case 1
    then have "prints (vsnprintf_loop fmt args) k [] []"
      by (simp add: prints_def f vsnprintf_loop.simps)
    then show ?thesis by blast
  next
    case 2
    then obtain cs stores where "prints (vsnprintf_loop fmt1 args) (k + 1) cs stores"
      using less.hyps [of fmt1 args "k + 1"] f by auto
    then have "prints (vsnprintf_loop fmt args) k (c # cs) stores"
      using prints_put [of "vsnprintf_loop fmt1 args" k cs stores c] 2 by (simp add: f vsnprintf_loop.simps prints_def)
    then show ?thesis by blast
  next
    case 3
    then show ?thesis
      using directive_prints [of fmt1 args k] less.hyps f by auto
  qed
qed

section \<open>What is in the buffer\<close>

text \<open>A buffer in the address space: \<open>end\<close> is its last byte, or the byte before an empty buffer.\<close>

definition at_pos :: "printer \<Rightarrow> nat \<Rightarrow> bool" where
  "at_pos st i \<longleftrightarrow>
     unat (pend st) + 1 = unat (pbuf st) + length (pmem st) \<and> pstr st = pbuf st + of_nat i \<and>
     unat (pbuf st) + i < 2 ^ 64"

lemma at_pos_unat:
  assumes "at_pos st i"
  shows "unat (pstr st) = unat (pbuf st) + i" "pstr st \<le> pend st \<longleftrightarrow> i < length (pmem st)"
    "unat (pstr st - pbuf st) = i"
proof -
  have i: "i < 2 ^ 64" "unat (of_nat i :: ulong) = i"
    using assms by (auto simp: at_pos_def unsigned_of_nat take_bit_nat_eq_self_iff)
  show *: "unat (pstr st) = unat (pbuf st) + i"
    using assms i by (simp add: at_pos_def unat_word_ariths)
  show "pstr st \<le> pend st \<longleftrightarrow> i < length (pmem st)"
    using assms unfolding word_le_nat_alt * by (auto simp: at_pos_def)
  show "unat (pstr st - pbuf st) = i" using assms i by (simp add: at_pos_def)
qed

lemma putc_at_pos:
  assumes "at_pos st i" "unat (pbuf st) + Suc i < 2 ^ 64"
  obtains st' where "putc c st = Done st'" "at_pos st' (Suc i)" "pbuf st' = pbuf st"
    "pmem st' = (pmem st)[i := c]"
proof (cases "i < length (pmem st)")
  case True
  then show thesis
    using assms at_pos_unat [OF assms(1)]
    by (intro that [of "st\<lparr>pmem := (pmem st)[i := c], pstr := pstr st + 1\<rparr>"]) (auto simp: putc_def bug_on_def at_pos_def)
next
  case False
  then show thesis
    using assms at_pos_unat [OF assms(1)]
    by (intro that [of "st\<lparr>pstr := pstr st + 1\<rparr>"]) (auto simp: putc_def bug_on_def at_pos_def list_update_beyond)
qed

lemma put_list_at_pos:
  assumes "at_pos st i" "unat (pbuf st) + i + length cs < 2 ^ 64"
  obtains st' where "put_list cs st = Done st'" "at_pos st' (i + length cs)" "pbuf st' = pbuf st"
    "pmem st' = take i (pmem st) @ take (length (pmem st) - i) cs @ drop (i + length cs) (pmem st)"
  using assms
proof (induction cs arbitrary: st i thesis)
  case Nil
  then show ?case by simp
next
  case (Cons c cs)
  obtain st1 where 1: "putc c st = Done st1" "at_pos st1 (Suc i)" "pbuf st1 = pbuf st" "pmem st1 = (pmem st)[i := c]"
    using putc_at_pos [OF Cons.prems(2), of c] Cons.prems(3) by auto
  obtain st2 where 2: "put_list cs st1 = Done st2" "at_pos st2 (Suc i + length cs)" "pbuf st2 = pbuf st1"
    "pmem st2 = take (Suc i) (pmem st1) @ take (length (pmem st1) - Suc i) cs @ drop (Suc i + length cs) (pmem st1)"
    using Cons.IH [OF _ 1(2)] Cons.prems(3) 1(3) by auto
  have "pmem st2 = take i (pmem st) @ take (length (pmem st) - i) (c # cs) @ drop (i + length (c # cs)) (pmem st)"
  proof (cases "i < length (pmem st)")
    case True
    then have "length (pmem st) - i = Suc (length (pmem st) - Suc i)" by simp
    then show ?thesis
      using True by (simp add: 2(4) 1(4) take_Suc_conv_app_nth)
  qed (simp add: 2(4) 1(4) list_update_beyond)
  then show ?case using Cons.prems(1) [of st2] 1 2 by simp
qed

text \<open>What a buffer holds that gets as much of the output as fits, and a 0 byte.\<close>

definition cut_to :: "u8 list \<Rightarrow> u8 list \<Rightarrow> u8 list" where
  "cut_to out mem =
     (if mem = [] then [] else
        take (length mem - 1) out @ 0 # drop (min (length mem - 1) (length out) + 1) mem)"

definition buffer_ok :: "ulong \<Rightarrow> u8 list \<Rightarrow> ulong \<Rightarrow> bool" where
  "buffer_ok buf mem sz \<longleftrightarrow> buf \<noteq> 0 \<and> length mem = unat sz \<and> unat sz < 2 ^ 31 \<and> unat buf + unat sz \<le> 2 ^ 64"

lemma buffer_bounds:
  assumes "buffer_ok buf mem sz"
  shows "unat (buf + sz - 1) + 1 = unat buf + unat sz" "\<not> buf + sz - 1 < buf - 1"
    "\<not> sint (ucast sz :: u32) < 0" "(ucast (ucast sz :: u32) :: ulong) = sz"
proof -
  have b: "unat (buf - 1) + 1 = unat buf" "unat buf + unat sz \<le> 2 ^ 64" "unat sz < 2 ^ 31"
    using assms unat_minus_one [of buf] unat_gt_0 [of buf] by (auto simp: buffer_ok_def)
  have "unat ((buf - 1) + sz) = unat (buf - 1) + unat sz"
    using b by (simp add: unat_word_ariths)
  then show 1: "unat (buf + sz - 1) + 1 = unat buf + unat sz"
    using b(1) by (simp add: algebra_simps)
  show "\<not> buf + sz - 1 < buf - 1"
    using 1 b(1) unfolding word_less_nat_alt by linarith
  have u: "unat (ucast sz :: u32) = unat sz"
    using b(3) by (simp add: unsigned_ucast_eq take_bit_nat_eq_self_iff)
  then show "(ucast (ucast sz :: u32) :: ulong) = sz"
    unfolding word_unat_eq_iff by (subst unsigned_ucast_eq) (use b(3) in \<open>simp add: take_bit_nat_eq_self_iff\<close>)
  show "\<not> sint (ucast sz :: u32) < 0"
    using b(3) u by (simp add: sint_small)
qed

lemma ucast_of_nat: "ucast (of_nat n :: ulong) = (of_nat n :: u32)"
  by (simp add: word_unat_eq_iff unsigned_ucast_eq unsigned_of_nat)

lemma put_end_cut:
  assumes a: "at_pos st (length out)" and m: "pmem st = take (length mem) out @ drop (length out) mem"
    and sz: "length mem = unat sz"
  obtains st' where "put_end st sz = Done st'" "pmem st' = cut_to out mem"
proof -
  note u = at_pos_unat [OF a]
  have lm: "length (pmem st) = length mem" by (simp add: m)
  consider "length out < length mem" | k where "length mem \<le> length out" "length mem = Suc k" | "mem = []"
    by (cases mem) (auto simp: not_less [symmetric])
  then show thesis
  proof cases
    case 1
    have "(pmem st)[length out := 0] = cut_to out mem"
      using 1 by (auto simp: cut_to_def m list_update_append Cons_nth_drop_Suc [symmetric] min_def)
    then show thesis
      using that [of "st\<lparr>pmem := (pmem st)[length out := 0], pstr := pstr st + 1\<rparr>"] 1 u lm
      by (simp add: put_end_def putc_def bug_on_def Let_def)
  next
    case 2
    then have "sz > 0" using sz by (cases "sz = 0") (auto simp: word_neq_0_conv)
    have "unat (pbuf st) \<le> unat (pend st)" "unat (pend st) - unat (pbuf st) = k"
      using a 2(2) lm by (auto simp: at_pos_def)
    then have "unat (pend st - pbuf st) = k"
      by (simp add: unat_sub word_le_nat_alt)
    moreover have "(pmem st)[k := 0] = cut_to out mem"
      using 2 by (auto simp: cut_to_def m take_Suc_conv_app_nth list_update_append)
    ultimately show thesis
      using that [of "st\<lparr>pmem := (pmem st)[k := 0], pstr := pend st + 1\<rparr>"] 2 u lm \<open>sz > 0\<close>
      by (simp add: put_end_def putc_def bug_on_def Let_def)
  next
    case 3
    then have "sz = 0" using sz by (simp add: word_unat_eq_iff)
    then show thesis using that [of st] 3 u lm by (simp add: put_end_def cut_to_def)
  qed
qed

text \<open>\<open>vsnprintf\<close> on a format whose loop prints \<open>out\<close>.\<close>

lemma vsnprintf_prints:
  assumes p: "prints (vsnprintf_loop fmt args) 0 out stores"
    and b: "buffer_ok buf mem sz" and len: "unat buf + length out < 2 ^ 64"
  shows "vsnprintf buf mem sz fmt args = Done (sint (of_nat (length out) :: u32), stores, cut_to out mem)"
proof -
  note bb = buffer_bounds [OF b]
  define st where "st = \<lparr>pbuf = buf, pend = buf + sz - 1, pstr = buf, pmem = mem\<rparr>"
  have "at_pos st 0"
    using bb(1) b len by (auto simp: at_pos_def st_def buffer_ok_def)
  then obtain st' where st': "put_list out st = Done st'" "at_pos st' (length out)" "pbuf st' = buf"
    "pmem st' = take (length mem) out @ drop (length out) mem"
    using put_list_at_pos [of st 0 out] len by (auto simp: st_def)
  have loop: "vsnprintf_loop fmt args st = Done (stores, st')"
    using p st'(1) by (simp add: prints_def pos_def st_def)
  obtain st2 where "put_end st' sz = Done st2" "pmem st2 = cut_to out mem"
    using put_end_cut [OF st'(2,4)] b by (auto simp: buffer_ok_def)
  moreover have "sint (ucast (pstr st' - buf) :: u32) = sint (of_nat (length out) :: u32)"
    using st'(2,3) by (simp add: at_pos_def ucast_of_nat)
  ultimately show ?thesis
    using bb loop [unfolded st_def] by (simp add: vsnprintf_def bug_on_def Let_def)
qed

lemma plain_prints:
  "0 \<notin> set s \<Longrightarrow> ch (CHR ''%'') \<notin> set s \<Longrightarrow> prints (vsnprintf_loop (s @ 0 # r) args) k s []"
proof (induction s arbitrary: k)
  case Nil
  then show ?case by (simp add: prints_def vsnprintf_loop.simps)
next
  case (Cons c s)
  then show ?case
    using prints_put [of "vsnprintf_loop (s @ 0 # r) args" k s "[]" c] by (simp add: vsnprintf_loop.simps prints_def)
qed

lemma sint_of_length:
  assumes "n < 2 ^ 31"
  shows "sint (of_nat n :: u32) = int n"
proof -
  have "unat (of_nat n :: u32) = n" using assms by (simp add: unsigned_of_nat take_bit_nat_eq_self_iff)
  then show ?thesis using sint_small [of "of_nat n"] assms by simp
qed

lemma text_unique: "0 \<notin> set s \<Longrightarrow> takeWhile (\<lambda>x. x \<noteq> 0) (s @ (0 :: u8) # r) = s"
  by (induction s) auto

lemma scn_result_cut:
  assumes "n < 2 ^ 31" "unat sz < 2 ^ 31"
  shows "scn_result (int n) sz = int (min n (unat sz - 1))"
proof (cases "sz = 0")
  case True
  have "sint (ucast (-1 :: ulong) :: u32) = -1" by code_simp
  then show ?thesis using True by (simp add: scn_result_def)
next
  case False
  then obtain k where k: "unat sz = Suc k" using unat_gt_0 [of sz] by (cases "unat sz") auto
  have "unat (ucast (sz - 1) :: u32) = k"
    using assms(2) k False by (simp add: unsigned_ucast_eq take_bit_nat_eq_self_iff unat_minus_one)
  then have "sint (ucast (sz - 1) :: u32) = int k"
    using assms(2) k sint_small [of "ucast (sz - 1)"] by simp
  moreover have "sz \<le> (of_int (int n) :: ulong) \<longleftrightarrow> Suc k \<le> n"
    unfolding word_le_nat_alt by (subst unat_of_int) (use assms(1) k in auto)
  ultimately show ?thesis
    unfolding scn_result_def Let_def k by simp
qed

section \<open>Properties\<close>

text \<open>C5: Formatted output never leaves its buffer and never fails. For every format that ends in a 0 byte, with as many
  arguments as it can use and with strings that end in a 0 byte, there is one output, whatever the buffer is, as long as it is not at \<open>NULL\<close>, is smaller than 2 GB, and neither it nor the whole output from its
  start would pass the end of the address space: \<open>vsnprintf\<close> into a buffer of
  \<open>sz\<close> bytes writes its first \<open>sz - 1\<close> characters and a 0 byte behind them, leaves the bytes further on as they were, writes nothing when \<open>sz\<close> is 0,
  returns the length of the whole output, and stores the same counts for \<open>%n\<close>. \<open>vscnprintf\<close> and \<open>scnprintf\<close> return the number of
  characters in the buffer, for an output of less than 2 GB. A format without \<open>%\<close> is its own output.
\<close>

theorem vsnprintf_cuts:
  assumes "enough fmt args"
  shows "\<exists>out stores.
    (\<forall>s r. fmt = s @ 0 # r \<and> 0 \<notin> set s \<and> ch (CHR ''%'') \<notin> set s \<longrightarrow> out = s \<and> stores = []) \<and>
    (\<forall>buf mem sz. buffer_ok buf mem sz \<and> unat buf + length out < 2 ^ 64 \<longrightarrow>
    vsnprintf buf mem sz fmt args = Done (sint (of_nat (length out) :: u32), stores, cut_to out mem) \<and>
    snprintf buf mem sz fmt args = vsnprintf buf mem sz fmt args \<and>
    (length out < 2 ^ 31 \<longrightarrow>
       vscnprintf buf mem sz fmt args = Done (int (min (length out) (unat sz - 1)), stores, cut_to out mem) \<and>
       scnprintf buf mem sz fmt args = vscnprintf buf mem sz fmt args))"
proof -
  obtain out stores where p: "prints (vsnprintf_loop fmt args) 0 out stores"
    and plain: "\<forall>s r. fmt = s @ 0 # r \<and> 0 \<notin> set s \<and> ch (CHR ''%'') \<notin> set s \<longrightarrow> out = s \<and> stores = []"
  proof (cases "\<exists>s r. fmt = s @ 0 # r \<and> 0 \<notin> set s \<and> ch (CHR ''%'') \<notin> set s")
    case True
    then obtain s r where s: "fmt = s @ 0 # r" "0 \<notin> set s" "ch (CHR ''%'') \<notin> set s" by blast
    have "s' = s" if "fmt = s' @ 0 # r'" "0 \<notin> set s'" for s' r'
      using that s(1,2) text_unique by metis
    then show thesis using that [of s "[]"] plain_prints [OF s(2,3)] s(1) by blast
  next
    case False
    then show thesis using vsnprintf_loop_prints [OF assms] that by blast
  qed
  have s: "sint (of_nat (length out) :: u32) = int (length out)" if "length out < 2 ^ 31"
    using that by (rule sint_of_length)
  show ?thesis
    using vsnprintf_prints [OF p] plain s
    by (intro exI [of _ out] exI [of _ stores])
      (auto simp: snprintf_def vscnprintf_def scnprintf_def scn_result_cut buffer_ok_def)
qed

theorem vsnprintf_cuts_witness:
  "\<exists>out stores. vsnprintf 4096 [9, 9, 9, 9] 4 (map ch ''hello'' @ [0]) (replicate 6 (0, [])) =
     Done (sint (of_nat (length out) :: u32), stores, cut_to out [9, 9, 9, 9]) \<and> out = map ch ''hello''"
proof -
  define fmt where "fmt = map ch ''hello'' @ [0]"
  define args :: "va list" where "args = replicate 6 (0, [])"
  have e: "enough fmt args"
    by (auto simp: enough_def readable_def fmt_def args_def)
  obtain out stores where h:
    "\<And>s r. fmt = s @ 0 # r \<and> 0 \<notin> set s \<and> ch (CHR ''%'') \<notin> set s \<Longrightarrow> out = s \<and> stores = []"
    "\<And>buf mem sz. buffer_ok buf mem sz \<and> unat buf + length out < 2 ^ 64 \<Longrightarrow>
      vsnprintf buf mem sz fmt args = Done (sint (of_nat (length out) :: u32), stores, cut_to out mem)"
    using vsnprintf_cuts [OF e] by blast
  have out: "out = map ch ''hello''"
    using h(1) [of "map ch ''hello''" "[]"] by (simp add: fmt_def)
  have "buffer_ok 4096 [9, 9, 9, 9] 4 \<and> unat (4096 :: ulong) + length out < 2 ^ 64"
    by (simp add: buffer_ok_def out)
  from h(2) [OF this] show ?thesis
    using out unfolding fmt_def args_def by blast
qed

end
