(* ===== verification/Number_Props.thy ===== *)
theory Number_Props
  imports Vsprintf_Props
begin

text \<open>
  Numbers that are printed and read back: \<open>vsnprintf\<close> with the functions of the \<open>simple_strtoul\<close> family, and sizes with a unit.
\<close>

section \<open>Digits read back\<close>

definition digit_value :: "u8 \<Rightarrow> ulong" where
  "digit_value c = ucast (if isdigit c then c - ch (CHR ''0'') else toupper c - ch (CHR ''A'') + 10)"

definition reads_as :: "u8 \<Rightarrow> nat \<Rightarrow> bool" where
  "reads_as c v \<longleftrightarrow> isxdigit c \<and> digit_value c = of_nat v \<and> toupper c \<noteq> ch (CHR ''X'') \<and> c \<noteq> ch (CHR ''-'') \<and> c \<noteq> 0 \<and>
     (c = ch (CHR ''0'') \<longleftrightarrow> v = 0)"

lemma digits_read_all:
  "\<forall>v\<in>set [0..<16]. reads_as (small_digits ! v) v" "\<forall>v\<in>set [0..<16]. reads_as (large_digits ! v) v"
  by code_simp+

definition digit_set :: "u8 list \<Rightarrow> bool" where
  "digit_set ds \<longleftrightarrow> (\<forall>v<16. reads_as (ds ! v) v)"

lemma digit_sets [simp]: "digit_set small_digits" "digit_set large_digits"
  using digits_read_all by (auto simp: digit_set_def)

lemma strtoull_loop_eq: "strtoull_loop base result s = strtoul_loop base result s"
  by (induction s arbitrary: result) (simp_all add: toupper_def Let_def)

lemma simple_strtoull_eq [simp]: "simple_strtoull s base = simple_strtoul s base"
  by (simp add: simple_strtoull_def simple_strtoul_def strtoull_loop_eq)

lemma simple_strtoll_eq [simp]: "simple_strtoll s base = simple_strtol s base"
  by (cases s) (simp_all add: simple_strtoll_def simple_strtol_def)

lemma strtoul_loop_Cons:
  "strtoul_loop base result (c # s) =
     (if isxdigit c \<and> digit_value c < base then strtoul_loop base (result * base + digit_value c) s
      else Done (result, c # s))"
  by (simp add: digit_value_def Let_def)

declare strtoul_loop.simps [simp del]

lemma strtoul_loop_digit:
  assumes "reads_as c v" "v < b" "b \<le> 16"
  shows "strtoul_loop (of_nat b) res (c # s) = strtoul_loop (of_nat b) (res * of_nat b + of_nat v) s"
proof -
  have "v < 2 ^ 64" "b < 2 ^ 64" using assms by simp_all
  then have "(of_nat v :: ulong) < of_nat b"
    using assms by (simp add: word_less_nat_alt unsigned_of_nat take_bit_nat_eq_self)
  then show ?thesis using assms by (simp add: strtoul_loop_Cons reads_as_def)
qed

lemma digit_read: "digit_set ds \<Longrightarrow> 2 \<le> b \<Longrightarrow> b \<le> 16 \<Longrightarrow> reads_as (ds ! (n mod b)) (n mod b)"
  unfolding digit_set_def by (metis mod_less_divisor not_numeral_le_zero gr0I order_less_le_trans)

lemma strtoul_loop_digits:
  assumes "digit_set ds" "2 \<le> b" "b \<le> 16"
  shows "strtoul_loop (of_nat b) res (rev (number_digits ds b n) @ r) =
    strtoul_loop (of_nat b) (res * of_nat b ^ length (number_digits ds b n) + of_nat n) r"
proof (induction n arbitrary: r rule: less_induct)
  case (less n)
  show ?case
  proof (cases "n = 0")
    case True
    then show ?thesis by (simp add: number_digits.simps)
  next
    case False
    have d: "reads_as (ds ! (n mod b)) (n mod b)" "n mod b < b"
      using digit_read [OF assms] assms(2) by auto
    have n: "(of_nat n :: ulong) = of_nat (n div b) * of_nat b + of_nat (n mod b)"
      by (metis div_mult_mod_eq of_nat_add of_nat_mult)
    have "number_digits ds b n = ds ! (n mod b) # number_digits ds b (n div b)"
      using False assms by (subst number_digits.simps) simp
    then show ?thesis
      using less [of "n div b"] False assms by (simp add: strtoul_loop_digit [OF d] n algebra_simps)
  qed
qed

text \<open>The digits of a number in a base, highest first.\<close>

definition digits_of :: "u8 list \<Rightarrow> nat \<Rightarrow> ulong \<Rightarrow> u8 list" where
  "digits_of ds b x = rev (if x = 0 then [ch (CHR ''0'')] else number_digits ds b (unat x))"

lemma reads_as_0: "reads_as (ch (CHR ''0'')) 0"
  by code_simp

lemma strtoul_loop_number:
  assumes "digit_set ds" "2 \<le> b" "b \<le> 16"
  shows "strtoul_loop (of_nat b) 0 (digits_of ds b x @ r) = strtoul_loop (of_nat b) x r"
proof (cases "x = 0")
  case True
  then show ?thesis using strtoul_loop_digit [OF reads_as_0, of b 0 r] assms by (simp add: digits_of_def)
next
  case False
  then show ?thesis using strtoul_loop_digits [OF assms, of 0 "unat x" r] by (simp add: digits_of_def)
qed

text \<open>The first digit, which is 0 only for the number 0.\<close>

lemma number_digits_last:
  assumes "digit_set ds" "2 \<le> b" "b \<le> 16" "n \<noteq> 0"
  shows "number_digits ds b n \<noteq> [] \<and> (\<exists>v. v \<noteq> 0 \<and> reads_as (last (number_digits ds b n)) v)"
  using assms(4)
proof (induction n rule: less_induct)
  case (less n)
  have n: "number_digits ds b n = ds ! (n mod b) # number_digits ds b (n div b)"
    using less.prems assms by (subst number_digits.simps) simp
  show ?case
  proof (cases "n < b")
    case True
    then have "number_digits ds b (n div b) = []" by (simp add: number_digits.simps)
    moreover have "reads_as (ds ! n) n" using True assms by (simp add: digit_set_def)
    ultimately show ?thesis using True less.prems n by auto
  next
    case False
    then have "n div b \<noteq> 0" "n div b < n" using assms by (auto simp: div_eq_0_iff)
    then show ?thesis using less.IH [of "n div b"] n by simp
  qed
qed

lemma digits_of_first:
  assumes "digit_set ds" "2 \<le> b" "b \<le> 16"
  obtains c cs v where "digits_of ds b x = c # cs" "reads_as c v" "v = 0 \<longleftrightarrow> x = 0" "x = 0 \<Longrightarrow> cs = []"
proof (cases "x = 0")
  case True
  then show thesis using that [of "ch (CHR ''0'')" "[]" 0] reads_as_0 by (simp add: digits_of_def)
next
  case False
  then have "unat x \<noteq> 0" by (simp add: word_unat_eq_iff)
  then obtain v where v: "number_digits ds b (unat x) \<noteq> []" "v \<noteq> 0" "reads_as (last (number_digits ds b (unat x))) v"
    using number_digits_last [OF assms] by blast
  obtain ys y where ys: "number_digits ds b (unat x) = ys @ [y]" using v(1) by (metis append_butlast_last_id)
  then show thesis
    using that [of y "rev ys" v] v False by (simp add: digits_of_def)
qed

lemma digits_of_length:
  assumes "unat x < b ^ k" "1 \<le> k"
  shows "length (digits_of ds b x) \<le> k"
  using number_digits_length [OF assms(1)] assms(2) by (simp add: digits_of_def)

section \<open>Formats of a number\<close>

text \<open>Without a width and a precision, a number is its sign, its prefix and its digits.\<close>

definition digits_type :: "u32 \<Rightarrow> u8 list" where
  "digits_type type = (if has_flag type LARGE then large_digits else small_digits)"

lemma digit_set_type [simp]: "digit_set (digits_type type)"
  by (simp add: digits_type_def)

lemma number_chars_plain:
  assumes "number_sign x (-1) type = (sign, y, sz)"
  shows "number_chars x base (-1) (-1) type =
    (if sign = 0 then [] else [sign]) @ special_prefix (digits_type type) base type @ digits_of (digits_type type) (nat base) y"
proof -
  have "sz \<le> -1"
    using assms by (auto simp: number_sign_def split: if_splits)
  then have "special_size base sz type \<le> -1"
    by (auto simp: special_size_def)
  then show ?thesis
    using assms by (simp add: number_chars_def digits_type_def digits_of_def Let_def max_def)
qed

lemma not_digit_l [simp]: "\<not> isdigit 108"
  by code_simp

lemma get_directive_plain: "c \<noteq> ch (CHR ''l'') \<Longrightarrow> get_directive (ch (CHR ''l'') # c # r) args = Done (c # r, 0, -1, -1, ch (CHR ''l''), args)"
  by (simp add: get_directive_def get_width_def get_precision_def get_qualifier_def)

lemma get_directive_special:
  "c \<noteq> ch (CHR ''l'') \<Longrightarrow> get_directive (ch (CHR ''#'') # ch (CHR ''l'') # c # r) args = Done (c # r, SPECIAL, -1, -1, ch (CHR ''l''), args)"
  by (simp add: get_directive_def get_width_def get_precision_def get_qualifier_def)

lemma integer_convert:
  assumes "integer_format c fl = Some (base, fl')"
  shows "convert c fl w p (ch (CHR ''l'')) ((x, s) # args) st =
    bind_outcome (put_list (number_chars x base w p fl') st) (\<lambda>st. Done (args, [], st))"
proof -
  have "2 \<le> base" "base \<le> 36" using integer_format_base [OF assms] by auto
  moreover have "get_number (x, s) (ch (CHR ''l'')) fl' = x" by (simp add: get_number_def)
  ultimately show ?thesis
    using assms by (auto simp: convert_def va_arg_def number_list integer_format_def split: if_splits)
qed

lemma integer_prints_then:
  assumes "get_directive (fmt @ c # tail) [(x, s)] = Done (c # tail, fl, -1, -1, ch (CHR ''l''), [(x, s)])"
    and "integer_format c fl = Some (base, fl')"
    and "\<And>k. prints (vsnprintf_loop tail []) k out []"
  shows "prints (vsnprintf_loop (ch (CHR ''%'') # fmt @ c # tail) [(x, s)]) k (number_chars x base (-1) (-1) fl' @ out) []"
proof -
  have "c \<noteq> 0" using assms(2) by (auto simp: integer_format_def)
  then have "vsnprintf_loop (ch (CHR ''%'') # fmt @ c # tail) [(x, s)] = (\<lambda>st. bind_outcome
      (convert c fl (-1) (-1) (ch (CHR ''l'')) [(x, s)] st) (\<lambda>(args, stores, st). bind_outcome (vsnprintf_loop tail args st)
        (\<lambda>(later, st). Done (stores @ later, st))))"
    by (intro ext, subst vsnprintf_loop.simps(2)) (simp add: assms(1))
  then show ?thesis
    using prints_convert [of "convert c fl (-1) (-1) (ch (CHR ''l'')) [(x, s)]" "number_chars x base (-1) (-1) fl'" "[]"
        "\<lambda>_. []" "vsnprintf_loop tail" k out "[]"] integer_convert [OF assms(2)] assms(3)
    by simp
qed

lemma integer_prints:
  assumes "get_directive (fmt @ [c, 0]) [(x, s)] = Done ([c, 0], fl, -1, -1, ch (CHR ''l''), [(x, s)])"
    and "integer_format c fl = Some (base, fl')"
  shows "prints (vsnprintf_loop (ch (CHR ''%'') # fmt @ [c, 0]) [(x, s)]) k (number_chars x base (-1) (-1) fl') []"
  using integer_prints_then [OF assms, of "[]"] plain_prints [of "[]" "[]" "[]"] by simp

section \<open>Round trips\<close>

definition round_trip :: "string \<Rightarrow> (u8 list \<Rightarrow> (ulong \<times> u8 list) outcome) \<Rightarrow> ulong \<Rightarrow> bool" where
  "round_trip fmt read x \<longleftrightarrow>
     (\<exists>out. prints (vsnprintf_loop (map ch fmt @ [0]) [(x, [])]) 0 out [] \<and> length out \<le> 23 \<and>
       (\<forall>rest. read (out @ 0 # rest) = Done (x, 0 # rest)))"

lemma classes_0 [simp]: "\<not> isxdigit 0" "toupper 0 = 0"
  by code_simp+

lemma strtoul_loop_stop [simp]: "strtoul_loop base x (0 # r) = Done (x, 0 # r)"
  by (simp add: strtoul_loop_Cons)

lemmas strtoul_numbers =
  strtoul_loop_number [of _ 8, simplified] strtoul_loop_number [of _ 10, simplified] strtoul_loop_number [of _ 16, simplified]

lemma read_plain:
  assumes "digit_set ds"
  shows "simple_strtoul (digits_of ds 10 x @ 0 # r) 10 = Done (x, 0 # r)"
    and "simple_strtoul (digits_of ds 8 x @ 0 # r) 8 = Done (x, 0 # r)"
  using strtoul_numbers [OF assms] by (simp_all add: simple_strtoul_def strtoul_prefix_def)

lemma read_hex:
  assumes "digit_set ds"
  shows "simple_strtoul (digits_of ds 16 x @ 0 # r) 16 = Done (x, 0 # r)"
proof -
  obtain c cs v where c: "digits_of ds 16 x = c # cs" "reads_as c v" "v = 0 \<longleftrightarrow> x = 0" "x = 0 \<Longrightarrow> cs = []"
    by (rule digits_of_first [OF assms, of 16 x]) auto
  have "strtoul_prefix (c # cs @ 0 # r) 16 = Done (16, c # cs @ 0 # r)"
    using c(2-) by (auto simp: strtoul_prefix_def reads_as_def)
  then show ?thesis
    using strtoul_numbers(3) [OF assms, of x "0 # r"] c(1) by (simp add: simple_strtoul_def)
qed

lemma read_prefixed_hex:
  assumes "digit_set ds" "toupper d = ch (CHR ''X'')"
  shows "simple_strtoul (ch (CHR ''0'') # d # digits_of ds 16 x @ 0 # r) 0 = Done (x, 0 # r)"
proof -
  obtain c cs v where c: "digits_of ds 16 x = c # cs" "reads_as c v"
    by (rule digits_of_first [OF assms(1), of 16 x]) auto
  then have "strtoul_prefix (ch (CHR ''0'') # d # c # cs @ 0 # r) 0 = Done (16, c # cs @ 0 # r)"
    using assms(2) by (simp add: strtoul_prefix_def reads_as_def)
  then show ?thesis
    using strtoul_numbers(3) [OF assms(1), of x "0 # r"] c(1) by (simp add: simple_strtoul_def)
qed

lemma read_prefixed_octal:
  assumes "digit_set ds"
  shows "simple_strtoul (ch (CHR ''0'') # digits_of ds 8 x @ 0 # r) 0 = Done (x, 0 # r)"
proof -
  obtain c cs v where c: "digits_of ds 8 x = c # cs" "reads_as c v"
    by (rule digits_of_first [OF assms, of 8 x]) auto
  then have "strtoul_prefix (ch (CHR ''0'') # c # cs @ 0 # r) 0 = Done (8, c # cs @ 0 # r)"
    by (simp add: strtoul_prefix_def reads_as_def)
  then show ?thesis
    using strtoul_numbers(1) [OF assms, of x "0 # r"] c(1) by (simp add: simple_strtoul_def)
qed

lemma read_signed:
  assumes "digit_set ds"
  shows "simple_strtol (ch (CHR ''-'') # digits_of ds 10 (- x) @ 0 # r) 10 = Done (x, 0 # r)"
    and "simple_strtol (digits_of ds 10 x @ 0 # r) 10 = Done (x, 0 # r)"
proof -
  show "simple_strtol (ch (CHR ''-'') # digits_of ds 10 (- x) @ 0 # r) 10 = Done (x, 0 # r)"
    using read_plain(1) [OF assms, of "- x" r] by (simp add: simple_strtol_def)
  obtain c cs v where "digits_of ds 10 x = c # cs" "reads_as c v"
    by (rule digits_of_first [OF assms, of 10 x]) auto
  then show "simple_strtol (digits_of ds 10 x @ 0 # r) 10 = Done (x, 0 # r)"
    using read_plain(1) [OF assms, of x r] by (simp add: simple_strtol_def reads_as_def)
qed

lemma digits_lengths:
  "length (digits_of ds 8 x) \<le> 22" "length (digits_of ds 10 x) \<le> 20" "length (digits_of ds 16 x) \<le> 16"
proof -
  have "unat x < 2 ^ 64" using unsigned_less [of x] by simp
  then show "length (digits_of ds 8 x) \<le> 22" "length (digits_of ds 10 x) \<le> 20" "length (digits_of ds 16 x) \<le> 16"
    by (auto intro!: digits_of_length)
qed

lemma round_trip_plain:
  assumes "ch c \<noteq> ch (CHR ''l'')" "integer_format (ch c) 0 = Some (base, fl)"
    and "length (number_chars x base (-1) (-1) fl) \<le> 23"
    and "\<And>rest. read (number_chars x base (-1) (-1) fl @ 0 # rest) = Done (x, 0 # rest)"
  shows "round_trip [CHR ''%'', CHR ''l'', c] read x"
  using integer_prints [of "[ch (CHR ''l'')]" "ch c" x "[]" 0 base fl 0] get_directive_plain [OF assms(1)] assms
  by (auto simp: round_trip_def)

lemma round_trip_special:
  assumes "ch c \<noteq> ch (CHR ''l'')" "integer_format (ch c) SPECIAL = Some (base, fl)"
    and "length (number_chars x base (-1) (-1) fl) \<le> 23"
    and "\<And>rest. read (number_chars x base (-1) (-1) fl @ 0 # rest) = Done (x, 0 # rest)"
  shows "round_trip [CHR ''%'', CHR ''#'', CHR ''l'', c] read x"
  using integer_prints [of "[ch (CHR ''#''), ch (CHR ''l'')]" "ch c" x "[]" SPECIAL base fl 0]
    get_directive_special [OF assms(1)] assms
  by (auto simp: round_trip_def)

lemma flags_none [simp]: "\<not> has_flag 0 f"
  by (simp add: has_flag_def)

lemma flags_SPECIAL [simp]:
  "has_flag SPECIAL SPECIAL" "has_flag (SPECIAL OR LARGE) SPECIAL" "\<not> has_flag SPECIAL SIGN" "\<not> has_flag (SPECIAL OR LARGE) SIGN"
  "\<not> has_flag SPECIAL LARGE" "has_flag (SPECIAL OR LARGE) LARGE" "\<not> has_flag LARGE SIGN" "\<not> has_flag LARGE SPECIAL"
  "has_flag SIGN SIGN" "\<not> has_flag SIGN PLUS" "\<not> has_flag SIGN SPACE" "\<not> has_flag SIGN SPECIAL"
  by (simp_all add: has_flag_def SPECIAL_def LARGE_def SIGN_def PLUS_def SPACE_def)

lemma number_chars_types:
  "number_chars x base (-1) (-1) 0 = digits_of small_digits (nat base) x"
  "number_chars x base (-1) (-1) LARGE = digits_of (digits_type LARGE) (nat base) x"
  "number_chars x 16 (-1) (-1) SPECIAL = ch (CHR ''0'') # ch (CHR ''x'') # digits_of small_digits 16 x"
  "number_chars x 16 (-1) (-1) (SPECIAL OR LARGE) = ch (CHR ''0'') # ch (CHR ''X'') # digits_of large_digits 16 x"
  "number_chars x 8 (-1) (-1) SPECIAL = ch (CHR ''0'') # digits_of small_digits 8 x"
  "number_chars x base (-1) (-1) SIGN =
     (if sint x < 0 then ch (CHR ''-'') # digits_of (digits_type SIGN) (nat base) (- x)
      else digits_of (digits_type SIGN) (nat base) x)"
proof -
  have 33: "small_digits ! 33 = ch (CHR ''x'')" "large_digits ! 33 = ch (CHR ''X'')" by code_simp+
  have s: "number_sign x (-1) 0 = (0, x, -1)" "number_sign x (-1) LARGE = (0, x, -1)"
    "number_sign x (-1) SPECIAL = (0, x, -1)" "number_sign x (-1) (SPECIAL OR LARGE) = (0, x, -1)"
    "number_sign x (-1) SIGN = (if sint x < 0 then (ch (CHR ''-''), - x, -2) else (0, x, -1))"
    by (simp_all add: number_sign_def)
  show "number_chars x base (-1) (-1) 0 = digits_of small_digits (nat base) x"
    using number_chars_plain [OF s(1)] by (simp add: special_prefix_def digits_type_def)
  show "number_chars x base (-1) (-1) LARGE = digits_of (digits_type LARGE) (nat base) x"
    using number_chars_plain [OF s(2)] by (simp add: special_prefix_def)
  show "number_chars x 16 (-1) (-1) SPECIAL = ch (CHR ''0'') # ch (CHR ''x'') # digits_of small_digits 16 x"
    "number_chars x 8 (-1) (-1) SPECIAL = ch (CHR ''0'') # digits_of small_digits 8 x"
    using number_chars_plain [OF s(3), of 16] number_chars_plain [OF s(3), of 8] 33
    by (simp_all add: special_prefix_def digits_type_def)
  show "number_chars x 16 (-1) (-1) (SPECIAL OR LARGE) = ch (CHR ''0'') # ch (CHR ''X'') # digits_of large_digits 16 x"
    using number_chars_plain [OF s(4), of 16] 33 by (simp add: special_prefix_def digits_type_def)
  show "number_chars x base (-1) (-1) SIGN =
     (if sint x < 0 then ch (CHR ''-'') # digits_of (digits_type SIGN) (nat base) (- x)
      else digits_of (digits_type SIGN) (nat base) x)"
    using number_chars_plain [of x SIGN _ _ _ base] s(5) by (auto simp: special_prefix_def)
qed

lemma toupper_x [simp]: "toupper 120 = 88" "toupper 88 = 88"
  by code_simp+

text \<open>The formats of a 64-bit number and the functions that read them.\<close>

definition number_formats :: "(string \<times> (u8 list \<Rightarrow> (ulong \<times> u8 list) outcome)) list" where
  "number_formats =
     [(''%lu'', \<lambda>s. simple_strtoul s 10), (''%lo'', \<lambda>s. simple_strtoul s 8), (''%lx'', \<lambda>s. simple_strtoul s 16),
      (''%lX'', \<lambda>s. simple_strtoull s 16), (''%#lx'', \<lambda>s. simple_strtoul s 0), (''%#lX'', \<lambda>s. simple_strtoull s 0),
      (''%#lo'', \<lambda>s. simple_strtoul s 0), (''%ld'', \<lambda>s. simple_strtol s 10), (''%li'', \<lambda>s. simple_strtoll s 10)]"

lemma number_chars_length:
  "length (digits_of ds 8 x) \<le> 23" "length (digits_of ds 10 x) \<le> 23" "length (digits_of ds 16 x) \<le> 23"
  "length (digits_of ds 8 x) \<le> 22" "length (digits_of ds 10 x) \<le> 22" "length (digits_of ds 16 x) \<le> 21"
  using digits_lengths [of ds x] by linarith+

lemmas round_trip_simps =
  integer_format_def number_chars_types number_chars_length read_plain read_hex read_prefixed_hex [simplified]
  read_prefixed_octal [simplified] read_signed [simplified]

lemma round_trips_plain:
  "round_trip ''%lu'' (\<lambda>s. simple_strtoul s 10) x" "round_trip ''%lo'' (\<lambda>s. simple_strtoul s 8) x"
  "round_trip ''%lx'' (\<lambda>s. simple_strtoul s 16) x" "round_trip ''%lX'' (\<lambda>s. simple_strtoull s 16) x"
  by (rule round_trip_plain, simp, simp add: integer_format_def, simp_all add: round_trip_simps [simplified])+

lemma round_trips_special:
  "round_trip ''%#lx'' (\<lambda>s. simple_strtoul s 0) x" "round_trip ''%#lX'' (\<lambda>s. simple_strtoull s 0) x"
  "round_trip ''%#lo'' (\<lambda>s. simple_strtoul s 0) x"
  by (rule round_trip_special, simp, simp add: integer_format_def, simp_all add: round_trip_simps [simplified])+

lemma round_trips_signed:
  "round_trip ''%ld'' (\<lambda>s. simple_strtol s 10) x" "round_trip ''%li'' (\<lambda>s. simple_strtoll s 10) x"
  by (rule round_trip_plain, simp, simp add: integer_format_def, simp_all add: round_trip_simps [simplified])+

lemma number_formats_trip: "(fmt, read) \<in> set number_formats \<Longrightarrow> round_trip fmt read x"
  by (auto simp: number_formats_def intro: round_trips_plain round_trips_special round_trips_signed
      simp del: simple_strtoull_eq simple_strtoll_eq)

section \<open>Sizes with a unit\<close>

definition units :: "(char \<times> nat) list" where
  "units = [(CHR ''G'', 30), (CHR ''g'', 30), (CHR ''M'', 20), (CHR ''m'', 20), (CHR ''K'', 10), (CHR ''k'', 10),
     (CHR ''B'', 0), (CHR ''b'', 0)]"

text \<open>Units are no digits in the bases 8 and 10.\<close>

lemma units_stop:
  "\<forall>(u, k)\<in>set units. toupper (ch u) \<noteq> ch (CHR ''X'') \<and> (isxdigit (ch u) \<longrightarrow> 10 \<le> digit_value (ch u))"
  by code_simp

lemma read_size:
  assumes "toupper u \<noteq> ch (CHR ''X'')" "isxdigit u \<longrightarrow> 10 \<le> digit_value u"
  shows "simple_strtoul (digits_of small_digits 10 x @ u # r) 0 = Done (x, u # r)"
proof -
  obtain c cs v where c: "digits_of small_digits 10 x = c # cs" "reads_as c v" "v = 0 \<longleftrightarrow> x = 0" "x = 0 \<Longrightarrow> cs = []"
    by (rule digits_of_first [of small_digits 10 x]) auto
  have stop: "strtoul_loop b x (u # r) = Done (x, u # r)" if "b \<le> 10" for b
    using assms(2) that by (auto simp: strtoul_loop_Cons)
  show ?thesis
  proof (cases "x = 0")
    case True
    then have "strtoul_prefix (c # cs @ u # r) 0 = Done (8, u # r)"
      using c assms(1) by (simp add: strtoul_prefix_def reads_as_def)
    then show ?thesis using stop [of 8] c(1) True by (simp add: simple_strtoul_def)
  next
    case False
    then have "strtoul_prefix (c # cs @ u # r) 0 = Done (10, c # cs @ u # r)"
      using c by (simp add: strtoul_prefix_def reads_as_def)
    then show ?thesis
      using stop [of 10] c(1) strtoul_numbers(2) [of small_digits x "u # r"] by (simp add: simple_strtoul_def)
  qed
qed

lemma parse_size:
  assumes "(u, k) \<in> set units"
  shows "parse_size_and_unit (digits_of small_digits 10 x @ ch u # r) = Done (x * 2 ^ k, r)"
proof -
  have "simple_strtoul (digits_of small_digits 10 x @ ch u # r) 0 = Done (x, ch u # r)"
    using read_size [of "ch u" x r] units_stop assms by auto
  then show ?thesis
    using assms by (auto simp: units_def parse_size_and_unit_def push_bit_eq_mult mult.assoc)
qed

lemma size_prints:
  assumes "(u, k) \<in> set units"
  shows "prints (vsnprintf_loop (map ch ''%lu'' @ [ch u, 0]) [(x, [])]) 0 (digits_of small_digits 10 x @ [ch u]) []"
proof -
  have "0 \<notin> set [ch u]" "ch (CHR ''%'') \<notin> set [ch u]" using assms by (auto simp: units_def)
  then have "prints (vsnprintf_loop [ch u, 0] []) k [ch u] []" for k
    using plain_prints [of "[ch u]" "[]" "[]"] by simp
  then show ?thesis
    using integer_prints_then [of "[ch (CHR ''l'')]" "ch (CHR ''u'')" "[ch u, 0]" x "[]" 0 10 0 "[ch u]" 0]
      get_directive_plain [of "ch (CHR ''u'')" "[ch u, 0]" "[(x, [])]"]
    by (simp add: integer_format_def number_chars_types)
qed

text \<open>What a buffer of at least 24 bytes holds.\<close>

lemma printed_in_buffer:
  assumes "prints (vsnprintf_loop fmt args) 0 out []" "length out \<le> 23" "buffer_ok buf mem sz" "24 \<le> unat sz"
  shows "\<exists>rest. vsnprintf buf mem sz fmt args = Done (int (length out), [], out @ 0 # rest)"
proof -
  have "length out < length mem" "unat buf + length out < 2 ^ 64"
    using assms(2-4) by (auto simp: buffer_ok_def)
  then have "vsnprintf buf mem sz fmt args = Done (sint (of_nat (length out) :: u32), [], cut_to out mem)"
    "cut_to out mem = out @ 0 # drop (length out + 1) mem"
    using vsnprintf_prints [OF assms(1,3)] by (auto simp: cut_to_def)
  moreover have "length out < 2 ^ 31" using assms(2) by simp
  ultimately show ?thesis by (auto simp: sint_of_length)
qed

section \<open>Properties\<close>

text \<open>C9: Numbers are read back as they were printed. Every 64-bit number that \<open>vsnprintf\<close> prints into a buffer of at least 24
  bytes, in decimal, octal or hexadecimal, with or without the prefix of the base and, for \<open>%ld\<close>, with a sign, is
  what the function of the \<open>simple_strtoul\<close> family for that base reads from the buffer, up to the 0 byte. A decimal number printed
  with one of the units G, M, K and B behind it is read by \<open>parse_size_and_unit\<close> as that many bytes, modulo the width of the
  result.
\<close>

theorem numbers_read_back:
  assumes "buffer_ok buf mem sz" "24 \<le> unat sz"
  shows "(\<forall>(fmt, read)\<in>set number_formats. \<exists>out rest.
      vsnprintf buf mem sz (map ch fmt @ [0]) [(x, [])] = Done (int (length out), [], out @ 0 # rest) \<and>
      read (out @ 0 # rest) = Done (x, 0 # rest)) \<and>
    (\<forall>(u, k)\<in>set units. \<exists>out rest.
      vsnprintf buf mem sz (map ch ''%lu'' @ [ch u, 0]) [(x, [])] = Done (int (length out), [], out @ 0 # rest) \<and>
      parse_size_and_unit (out @ 0 # rest) = Done (x * 2 ^ k, 0 # rest))"
proof (intro conjI)
  show "\<forall>(fmt, read)\<in>set number_formats. \<exists>out rest.
      vsnprintf buf mem sz (map ch fmt @ [0]) [(x, [])] = Done (int (length out), [], out @ 0 # rest) \<and>
      read (out @ 0 # rest) = Done (x, 0 # rest)"
    using number_formats_trip [of _ _ x] printed_in_buffer [OF _ _ assms] unfolding round_trip_def by (fast)
  have "\<exists>out rest. vsnprintf buf mem sz (map ch ''%lu'' @ [ch u, 0]) [(x, [])] = Done (int (length out), [], out @ 0 # rest) \<and>
      parse_size_and_unit (out @ 0 # rest) = Done (x * 2 ^ k, 0 # rest)" if u: "(u, k) \<in> set units" for u k
  proof -
    obtain rest where "vsnprintf buf mem sz (map ch ''%lu'' @ [ch u, 0]) [(x, [])] =
        Done (int (length (digits_of small_digits 10 x @ [ch u])), [], (digits_of small_digits 10 x @ [ch u]) @ 0 # rest)"
      using printed_in_buffer [OF size_prints [OF u] _ assms] number_chars_length(5) [of small_digits x] by auto
    moreover have "parse_size_and_unit ((digits_of small_digits 10 x @ [ch u]) @ 0 # rest) = Done (x * 2 ^ k, 0 # rest)"
      using parse_size [OF u, of x "0 # rest"] by simp
    ultimately show ?thesis by blast
  qed
  then show "\<forall>(u, k)\<in>set units. \<exists>out rest.
      vsnprintf buf mem sz (map ch ''%lu'' @ [ch u, 0]) [(x, [])] = Done (int (length out), [], out @ 0 # rest) \<and>
      parse_size_and_unit (out @ 0 # rest) = Done (x * 2 ^ k, 0 # rest)"
    by blast
qed

theorem numbers_read_back_witness:
  "\<exists>out rest. vsnprintf 4096 (replicate 24 7) 24 (map ch ''%ld'' @ [0]) [(-5, [])] =
       Done (int (length out), [], out @ 0 # rest) \<and> simple_strtol (out @ 0 # rest) 10 = Done (-5, 0 # rest)"
proof -
  have b: "buffer_ok 4096 (replicate 24 7) 24" "24 \<le> unat (24 :: ulong)"
    by (simp_all add: buffer_ok_def)
  have "(''%ld'', \<lambda>s. simple_strtol s 10) \<in> set number_formats"
    by (simp add: number_formats_def)
  from bspec [OF conjunct1 [OF numbers_read_back [OF b, of "-5"]] this] show ?thesis by simp
qed

end
