(* ===== verification/Xmalloc.thy ===== *)
theory Xmalloc
  imports Xen_Prelude
begin

text \<open>
  The allocator for objects of any size: \<open>xen/common/xmalloc.c\<close> and \<open>xen/include/xen/xmalloc.h\<close>, in the build
  without \<open>XMALLOC_DEBUG\<close>.

  Addresses and sizes are natural numbers; where a \<open>size_t\<close> can wrap around, this is written out. A block starts with its
  header, of which the state has the field \<open>size\<close> and whether the list pointers are other than \<open>NULL\<close>. The
  page allocator is a parameter: a function from the order of a request to the address it returns. The state
  keeps the runs of pages that are handed out, with their order; giving back a run that is not one of these is a \<open>BUG\<close>.
  The assertions that the code does not run in an interrupt handler are left out: no operation depends on where it runs.
  An operation holds the lock while it works on the list; the request for pages is made outside the lock, and what
  happens in between does not matter to the new pages.
\<close>

section \<open>State\<close>

definition SMP_CACHE_BYTES :: nat where "SMP_CACHE_BYTES = 128"

text \<open>The header is aligned to a cache line, and so is its size.\<close>

definition HDR :: nat where "HDR = 128"

record xheap =
  freelist :: "nat list"
  hsize :: "nat \<Rightarrow> nat"
  linked :: "nat \<Rightarrow> bool"
  pages :: "(nat \<times> nat) list"

definition set_size :: "xheap \<Rightarrow> nat \<Rightarrow> nat \<Rightarrow> xheap" where
  "set_size st h n = st\<lparr>hsize := (hsize st)(h := n)\<rparr>"

definition unlink :: "xheap \<Rightarrow> nat \<Rightarrow> xheap" where
  "unlink st h = st\<lparr>linked := (linked st)(h := False)\<rparr>"

section \<open>Pages\<close>

function order_loop :: "nat \<Rightarrow> nat" where
  "order_loop n = (if n \<noteq> 0 then Suc (order_loop (n div 2)) else 0)"
  by pat_completeness auto
termination
  by (relation "measure id") auto

declare order_loop.simps [simp del]

definition get_order_from_bytes :: "nat \<Rightarrow> nat" where
  "get_order_from_bytes n = order_loop ((n + (2 ^ 64 - 1)) mod 2 ^ 64 div 2 ^ PAGE_SHIFT)"

text \<open>\<open>free_xenheap_pages\<close> of the page allocator, on the runs that are handed out.\<close>

definition release_pages :: "xheap \<Rightarrow> nat \<Rightarrow> nat \<Rightarrow> xheap outcome" where
  "release_pages st h order =
     bug_on ((h, order) \<notin> set (pages st)) (Done (st\<lparr>pages := remove1 (h, order) (pages st)\<rparr>))"

section \<open>The free list\<close>

text \<open>A deleted entry keeps pointers that are not \<open>NULL\<close>.\<close>

definition add_to_freelist :: "xheap \<Rightarrow> nat \<Rightarrow> xheap" where
  "add_to_freelist st h = st\<lparr>freelist := h # freelist st, linked := (linked st)(h := True)\<rparr>"

definition del_from_freelist :: "xheap \<Rightarrow> nat \<Rightarrow> xheap" where
  "del_from_freelist st h = st\<lparr>freelist := remove1 h (freelist st), linked := (linked st)(h := True)\<rparr>"

definition data_from_header :: "nat \<Rightarrow> nat" where
  "data_from_header h = h + HDR"

definition header_from_data :: "nat \<Rightarrow> nat" where
  "header_from_data p = p - HDR"

section \<open>Allocation\<close>

text \<open>The block is at least as large as the request.\<close>

definition maybe_split :: "xheap \<Rightarrow> nat \<Rightarrow> nat \<Rightarrow> nat \<Rightarrow> xheap" where
  "maybe_split st h n block =
     (let leftover = block - n;
          (st, n) = (if leftover \<ge> 2 * HDR then (add_to_freelist (set_size st (h + n) leftover) (h + n), n)
                     else (st, block))
      in unlink (set_size st h n) h)"

definition xmalloc_new_page :: "(nat \<Rightarrow> nat option) \<Rightarrow> xheap \<Rightarrow> nat \<Rightarrow> nat option \<times> xheap" where
  "xmalloc_new_page alloc st n =
     (case alloc 0 of
        None \<Rightarrow> (None, st)
      | Some h \<Rightarrow>
          (Some (data_from_header h), maybe_split (st\<lparr>pages := (h, 0) # pages st\<rparr>) h n PAGE_SIZE))"

text \<open>The shift is one of \<open>int\<close>, and its result is extended with its sign.\<close>

definition int_shift :: "nat \<Rightarrow> nat" where
  "int_shift n = unat (scast (push_bit n 1 :: u32) :: ulong)"

definition xmalloc_whole_pages :: "(nat \<Rightarrow> nat option) \<Rightarrow> xheap \<Rightarrow> nat \<Rightarrow> nat option \<times> xheap" where
  "xmalloc_whole_pages alloc st n =
     (let pageorder = get_order_from_bytes n in
      case alloc pageorder of
        None \<Rightarrow> (None, st)
      | Some h \<Rightarrow>
          (Some (data_from_header h),
           unlink (set_size (st\<lparr>pages := (h, pageorder) # pages st\<rparr>) h (int_shift (pageorder + PAGE_SHIFT))) h))"

text \<open>For an alignment that is a power of 2.\<close>

definition align_up :: "nat \<Rightarrow> nat \<Rightarrow> nat" where
  "align_up n align = (let m = (n + align - 1) mod 2 ^ 64 in m - m mod align)"

definition xmalloc' :: "(nat \<Rightarrow> nat option) \<Rightarrow> xheap \<Rightarrow> nat \<Rightarrow> nat \<Rightarrow> (nat option \<times> xheap) outcome" where
  "xmalloc' alloc st n align =
     bug_on (align > SMP_CACHE_BYTES)
       (let n = align_up ((n + HDR) mod 2 ^ 64) HDR in
        if n \<ge> PAGE_SIZE then Done (xmalloc_whole_pages alloc st n)
        else
          (case find (\<lambda>i. \<not> hsize st i < n) (freelist st) of
             Some i \<Rightarrow> Done (Some (data_from_header i), maybe_split (del_from_freelist st i) i n (hsize st i))
           | None \<Rightarrow> Done (xmalloc_new_page alloc st n)))"

definition xmalloc_array' :: "(nat \<Rightarrow> nat option) \<Rightarrow> xheap \<Rightarrow> nat \<Rightarrow> nat \<Rightarrow> nat \<Rightarrow> (nat option \<times> xheap) outcome" where
  "xmalloc_array' alloc st n align num =
     (if n \<noteq> 0 \<and> num > (2 ^ 32 - 1) div n then Done (None, st)
      else xmalloc' alloc st (n * num mod 2 ^ 64) align)"

section \<open>Release\<close>

text \<open>
  The walk over the free list, with the header of the block that is freed. The place of that header is read
  once for each entry of the list.
\<close>

fun merge_free :: "xheap \<Rightarrow> nat \<Rightarrow> nat list \<Rightarrow> xheap \<times> nat" where
  "merge_free st hdr [] = (st, hdr)"
| "merge_free st hdr (i # rest) =
     (if i div PAGE_SIZE \<noteq> hdr div PAGE_SIZE then merge_free st hdr rest
      else
        let (st1, hdr1) =
              (if i + hsize st i = hdr
               then (set_size (del_from_freelist st i) i (hsize st i + hsize st hdr), i)
               else (st, hdr));
            st2 =
              (if hdr + hsize st1 hdr1 = i
               then set_size (del_from_freelist st1 i) hdr1 (hsize st1 hdr1 + hsize st1 i)
               else st1)
        in merge_free st2 hdr1 rest)"

definition xfree :: "xheap \<Rightarrow> nat \<Rightarrow> xheap outcome" where
  "xfree st p =
     (if p = 0 then Done st
      else
        let hdr = header_from_data p in
        bug_on (p div PAGE_SIZE \<noteq> hdr div PAGE_SIZE)
         (bug_on (linked st hdr)
           (if hsize st hdr \<ge> PAGE_SIZE then release_pages st hdr (get_order_from_bytes (hsize st hdr))
            else
              let (st, hdr) = merge_free st hdr (freelist st) in
              if hsize st hdr = PAGE_SIZE then
                bug_on (hdr mod PAGE_SIZE \<noteq> 0) (release_pages st hdr 0)
              else Done (add_to_freelist st hdr))))"

end
