(* ===== verification/Xmalloc_Tiles.thy ===== *)
theory Xmalloc_Tiles
  imports Xmalloc
begin

text \<open>
  Pages that are tiled by blocks: what splitting a block, joining two neighbours, and taking and giving back a page do to
  a tiling.
\<close>

section \<open>Places within a page\<close>

lemma within_page:
  fixes b :: nat
  assumes "b mod 4096 + n \<le> 4096" "k < n"
  shows "(b + k) div 4096 = b div 4096" "(b + k) mod 4096 = b mod 4096 + k"
proof -
  have b: "b = 4096 * (b div 4096) + b mod 4096" by simp
  have k: "b mod 4096 + k < 4096" using assms by linarith
  have "b + k = 4096 * (b div 4096) + (b mod 4096 + k)" using b by linarith
  then show "(b + k) div 4096 = b div 4096" "(b + k) mod 4096 = b mod 4096 + k"
    using k by (simp_all only: div_mult_self4 div_less mod_mult_self4 mod_less add_0_right)
qed

section \<open>Tilings\<close>

text \<open>A block of a page: aligned, inside the page, and with room for two headers up to the end of the page.\<close>

definition tile :: "nat set \<Rightarrow> nat \<Rightarrow> nat \<Rightarrow> bool" where
  "tile P b n \<longleftrightarrow> 128 dvd b \<and> 128 dvd n \<and> 0 < n \<and> b mod 4096 + n \<le> 4096 \<and> b mod 4096 + 256 \<le> 4096 \<and> b div 4096 \<in> P"

definition tiled :: "nat set \<Rightarrow> (nat \<rightharpoonup> nat) \<Rightarrow> bool" where
  "tiled P blk \<longleftrightarrow>
     (\<forall>b n. blk b = Some n \<longrightarrow> tile P b n) \<and>
     (\<forall>b n c m. blk b = Some n \<and> blk c = Some m \<and> b \<noteq> c \<longrightarrow> b + n \<le> c \<or> c + m \<le> b) \<and>
     (\<forall>x. x div 4096 \<in> P \<longrightarrow> (\<exists>b n. blk b = Some n \<and> b \<le> x \<and> x < b + n))"

lemma tiledI:
  assumes "\<And>b n. blk b = Some n \<Longrightarrow> tile P b n"
    "\<And>b n c m. blk b = Some n \<Longrightarrow> blk c = Some m \<Longrightarrow> b < c \<Longrightarrow> b + n \<le> c"
    "\<And>x. x div 4096 \<in> P \<Longrightarrow> \<exists>b n. blk b = Some n \<and> b \<le> x \<and> x < b + n"
  shows "tiled P blk"
  unfolding tiled_def using assms by (metis nat_neq_iff)

lemma tiledD:
  assumes "tiled P blk"
  shows "blk b = Some n \<Longrightarrow> tile P b n"
    "blk b = Some n \<Longrightarrow> blk c = Some m \<Longrightarrow> b < c \<Longrightarrow> b + n \<le> c"
    "x div 4096 \<in> P \<Longrightarrow> \<exists>b n. blk b = Some n \<and> b \<le> x \<and> x < b + n"
proof -
  show "blk b = Some n \<Longrightarrow> tile P b n" using assms by (simp add: tiled_def)
  show "x div 4096 \<in> P \<Longrightarrow> \<exists>b n. blk b = Some n \<and> b \<le> x \<and> x < b + n" using assms by (simp add: tiled_def)
  assume b: "blk b = Some n" "blk c = Some m" "b < c"
  then have "b + n \<le> c \<or> c + m \<le> b" using assms unfolding tiled_def by (metis less_irrefl)
  moreover have "0 < m" using assms b(2) by (auto simp: tiled_def tile_def)
  ultimately show "b + n \<le> c" using b(3) by linarith
qed

lemma tiled_empty: "tiled {} Map.empty"
  by (simp add: tiled_def)

lemma tiled_split:
  assumes t: "tiled P blk" and h: "blk h = Some n" and k: "0 < k" "128 dvd k" "k + 256 \<le> n"
  shows "tiled P (blk(h \<mapsto> k, h + k \<mapsto> n - k))"
proof (rule tiledI)
  have th: "tile P h n" by (rule tiledD(1) [OF t h])
  then have p: "(h + k) div 4096 = h div 4096" "(h + k) mod 4096 = h mod 4096 + k"
    using k by (auto simp: tile_def intro!: within_page [of h n])
  fix b m
  assume "(blk(h \<mapsto> k, h + k \<mapsto> n - k)) b = Some m"
  then show "tile P b m"
    using tiledD(1) [OF t, of b m] th k p by (auto simp: tile_def split: if_splits)
next
  fix b m c l
  assume a: "(blk(h \<mapsto> k, h + k \<mapsto> n - k)) b = Some m" "(blk(h \<mapsto> k, h + k \<mapsto> n - k)) c = Some l" "b < c"
  have apart: "d + l' \<le> h \<and> d < h \<or> h + n \<le> d" if "blk d = Some l'" "d \<noteq> h" for d l'
    using tiledD(2) [OF t that(1) h] tiledD(2) [OF t h that(1)] that(2) by (cases "d < h") auto
  show "b + m \<le> c"
    using a apart [of b m] apart [of c l] k tiledD(2) [OF t, of b m c l] by (auto split: if_splits)
next
  fix x
  assume "x div 4096 \<in> P"
  then obtain b m where b: "blk b = Some m" "b \<le> x" "x < b + m" using tiledD(3) [OF t] by blast
  show "\<exists>b m. (blk(h \<mapsto> k, h + k \<mapsto> n - k)) b = Some m \<and> b \<le> x \<and> x < b + m"
  proof (cases "b = h")
    case True
    then show ?thesis
      using b h k by (cases "x < h + k") (auto intro: exI [of _ h] exI [of _ "h + k"])
  next
    case False
    have "b \<noteq> h + k" using tiledD(2) [OF t h b(1)] k by auto
    then show ?thesis using b False by (intro exI [of _ b] exI [of _ m]) auto
  qed
qed

lemma tiled_join:
  assumes t: "tiled P blk" and b: "blk b = Some n" and c: "blk (b + n) = Some m"
    and page: "(b + n) div 4096 = b div 4096"
  shows "tiled P (blk(b \<mapsto> n + m, b + n := None))"
proof (rule tiledI)
  have tb: "tile P b n" and tc: "tile P (b + n) m" using tiledD(1) [OF t] b c by auto
  have "(b + n) mod 4096 = b mod 4096 + n"
  proof -
    have "b + n = 4096 * (b div 4096) + (b mod 4096 + n)" by simp
    then show ?thesis
      using page by (metis add_diff_cancel_left' minus_mult_div_eq_mod)
  qed
  fix a k
  assume "(blk(b \<mapsto> n + m, b + n := None)) a = Some k"
  then show "tile P a k"
    using tiledD(1) [OF t, of a k] tb tc \<open>(b + n) mod 4096 = b mod 4096 + n\<close>
    by (auto simp: tile_def split: if_splits)
next
  fix a k d l
  assume a: "(blk(b \<mapsto> n + m, b + n := None)) a = Some k" "(blk(b \<mapsto> n + m, b + n := None)) d = Some l" "a < d"
  have "0 < n" using tiledD(1) [OF t b] by (simp add: tile_def)
  have "b + n + m \<le> d" if "blk d = Some l'" "b < d" "d \<noteq> b + n" for l'
    using tiledD(2) [OF t b that(1,2)] tiledD(2) [OF t c that(1)] that(3) by linarith
  then show "a + k \<le> d"
    using a tiledD(2) [OF t, of a k d l] tiledD(2) [OF t _ b, of a k] \<open>0 < n\<close> by (auto split: if_splits)
next
  fix x
  assume "x div 4096 \<in> P"
  then obtain a k where a: "blk a = Some k" "a \<le> x" "x < a + k" using tiledD(3) [OF t] by blast
  have "0 < n" using tiledD(1) [OF t b] by (simp add: tile_def)
  show "\<exists>a k. (blk(b \<mapsto> n + m, b + n := None)) a = Some k \<and> a \<le> x \<and> x < a + k"
  proof (cases "a = b \<or> a = b + n")
    case True
    then show ?thesis using a b c \<open>0 < n\<close> by (intro exI [of _ b] exI [of _ "n + m"]) auto
  next
    case False
    then show ?thesis using a by (intro exI [of _ a] exI [of _ k]) auto
  qed
qed

lemma tile_apart:
  assumes "tile P b n" "b div 4096 < c div 4096"
  shows "b + n \<le> c"
proof -
  have "b + n \<le> 4096 * (b div 4096) + 4096"
    using assms(1) mult_div_mod_eq [of 4096 b] unfolding tile_def by linarith
  also have "\<dots> = 4096 * Suc (b div 4096)" by simp
  also have "\<dots> \<le> 4096 * (c div 4096)" using assms(2) by (intro mult_le_mono2) simp
  also have "\<dots> \<le> c" by simp
  finally show ?thesis .
qed

lemma tiled_page:
  assumes t: "tiled P blk" and a: "a mod 4096 = 0" "a div 4096 \<notin> P"
  shows "tiled (insert (a div 4096) P) (blk(a \<mapsto> 4096))"
proof (rule tiledI)
  fix b n
  assume "(blk(a \<mapsto> 4096)) b = Some n"
  moreover have "128 dvd a" using a(1) by (auto simp: mod_eq_0_iff_dvd intro: dvd_trans [of 128 4096])
  ultimately show "tile (insert (a div 4096) P) b n"
    using tiledD(1) [OF t, of b n] a by (auto simp: tile_def split: if_splits)
next
  fix b n c m
  assume b: "(blk(a \<mapsto> 4096)) b = Some n" "(blk(a \<mapsto> 4096)) c = Some m" "b < c"
  have ta: "tile {a div 4096} a 4096"
    using a(1) by (auto simp: tile_def mod_eq_0_iff_dvd intro: dvd_trans [of 128 4096])
  have other: "d div 4096 \<noteq> a div 4096" if "blk d = Some k" for d k
    using tiledD(1) [OF t that] a(2) by (auto simp: tile_def)
  consider "b = a" | "b \<noteq> a" "c = a" | "b \<noteq> a" "c \<noteq> a" by blast
  then show "b + n \<le> c"
  proof cases
    case 1
    then have "b div 4096 < c div 4096" using b other [of c m] div_le_mono [of b c 4096] by auto
    then show ?thesis using tile_apart [OF ta] b 1 by simp
  next
    case 2
    then have "b div 4096 < c div 4096" using b other [of b n] div_le_mono [of b c 4096] by auto
    then show ?thesis using tile_apart [OF tiledD(1) [OF t]] b 2 by simp
  qed (use b tiledD(2) [OF t] in auto)
next
  fix x
  assume "x div 4096 \<in> insert (a div 4096) P"
  then consider "x div 4096 = a div 4096" | "x div 4096 \<in> P" by blast
  then show "\<exists>b n. (blk(a \<mapsto> 4096)) b = Some n \<and> b \<le> x \<and> x < b + n"
  proof cases
    case 1
    then have "a \<le> x" "x < a + 4096"
      using mult_div_mod_eq [of 4096 a] mult_div_mod_eq [of 4096 x] a(1) mod_less_divisor [of 4096 x] by auto
    then show ?thesis by (intro exI [of _ a] exI [of _ 4096]) auto
  next
    case 2
    then obtain b n where b: "blk b = Some n" "b \<le> x" "x < b + n" using tiledD(3) [OF t] by blast
    then have "b \<noteq> a" using tiledD(1) [OF t b(1)] a(2) by (auto simp: tile_def)
    then show ?thesis using b by (intro exI [of _ b] exI [of _ n]) auto
  qed
qed

lemma tiled_drop:
  assumes t: "tiled P blk" and a: "blk a = Some 4096"
  shows "tiled (P - {a div 4096}) (blk(a := None))"
proof (rule tiledI)
  have ta: "a mod 4096 = 0" using tiledD(1) [OF t a] by (simp add: tile_def)
  fix b n
  assume "(blk(a := None)) b = Some n"
  then have b: "blk b = Some n" "b \<noteq> a" by (auto split: if_splits)
  have "b div 4096 \<noteq> a div 4096"
  proof
    assume "b div 4096 = a div 4096"
    then have "a \<le> b" "b < a + 4096"
      using mult_div_mod_eq [of 4096 a] mult_div_mod_eq [of 4096 b] ta mod_less_divisor [of 4096 b] by auto
    then show False using tiledD(2) [OF t a b(1)] b(2) by linarith
  qed
  then show "tile (P - {a div 4096}) b n" using tiledD(1) [OF t b(1)] by (simp add: tile_def)
next
  fix b n c m
  assume "(blk(a := None)) b = Some n" "(blk(a := None)) c = Some m" "b < c"
  then show "b + n \<le> c" using tiledD(2) [OF t] by (auto split: if_splits)
next
  fix x
  assume x: "x div 4096 \<in> P - {a div 4096}"
  then obtain b n where b: "blk b = Some n" "b \<le> x" "x < b + n" using tiledD(3) [OF t] by blast
  have "x div 4096 = a div 4096" if "b = a"
    using within_page(1) [of a 4096 "x - a"] tiledD(1) [OF t a] b that a by (simp add: tile_def)
  then show "\<exists>b n. (blk(a := None)) b = Some n \<and> b \<le> x \<and> x < b + n"
    using b x by (intro exI [of _ b] exI [of _ n]) auto
qed

text \<open>A page that is one block, and no block of its own kind beside it.\<close>

lemma tiled_page_start:
  assumes t: "tiled P blk" and q: "q \<in> P"
  shows "\<exists>n. blk (4096 * q) = Some n"
proof -
  obtain b n where b: "blk b = Some n" "b \<le> 4096 * q" "4096 * q < b + n"
    using tiledD(3) [OF t, of "4096 * q"] q by auto
  have "b = 4096 * q"
  proof (rule ccontr)
    assume "b \<noteq> 4096 * q"
    then have "b div 4096 < (4096 * q) div 4096" using b(2) by (simp add: div_less_iff_less_mult mult.commute)
    then show False using tile_apart [OF tiledD(1) [OF t b(1)]] b(3) by fastforce
  qed
  then show ?thesis using b(1) by blast
qed

end
