(* ===== verification/Xmalloc_Inv.thy ===== *)
theory Xmalloc_Inv
  imports Xmalloc_Tiles
begin

text \<open>
  The invariant of the heap and what every operation does to it: the blocks of the pages in use tile these pages, and no two free
  blocks are neighbours.
\<close>

lemmas xconsts = PAGE_SHIFT_def PAGE_SIZE_def SMP_CACHE_BYTES_def HDR_def

section \<open>The invariant\<close>

definition run_pages :: "nat \<times> nat \<Rightarrow> nat set" where
  "run_pages r = {fst r div 4096 ..< fst r div 4096 + 2 ^ snd r}"

definition blocks :: "xheap \<Rightarrow> nat set \<Rightarrow> nat \<rightharpoonup> nat" where
  "blocks st B b = (if b \<in> B then Some (hsize st b) else None)"

text \<open>The pages that are cut into blocks: those that are not one block themselves.\<close>

definition cut_pages :: "xheap \<Rightarrow> nat set \<Rightarrow> nat set" where
  "cut_pages st G = {a div 4096 | a. (a, 0) \<in> set (pages st) \<and> a \<notin> G}"

definition pages_ok :: "xheap \<Rightarrow> nat set \<Rightarrow> bool" where
  "pages_ok st G \<longleftrightarrow>
     distinct (pages st) \<and>
     (\<forall>r\<in>set (pages st). fst r mod 4096 = 0 \<and> 0 < fst r \<and> (snd r \<noteq> 0 \<longrightarrow> fst r \<in> G)) \<and>
     (\<forall>r\<in>set (pages st). \<forall>r'\<in>set (pages st). r \<noteq> r' \<longrightarrow> run_pages r \<inter> run_pages r' = {}) \<and>
     (\<forall>b\<in>G. \<exists>ord \<le> 18. (b, ord) \<in> set (pages st) \<and> hsize st b = 4096 * 2 ^ ord)"

text \<open>
  The free blocks \<open>F\<close>, the blocks in use \<open>S\<close> within the pages that are cut, and the blocks \<open>G\<close> of whole pages.
\<close>

definition heap_ok :: "xheap \<Rightarrow> nat set \<Rightarrow> nat set \<Rightarrow> bool" where
  "heap_ok st S G \<longleftrightarrow>
     pages_ok st G \<and> distinct (freelist st) \<and> set (freelist st) \<inter> S = {} \<and>
     tiled (cut_pages st G) (blocks st (set (freelist st) \<union> S)) \<and>
     (\<forall>b\<in>S \<union> G. \<not> linked st b) \<and> (\<forall>b\<in>set (freelist st) \<union> S. hsize st b < 4096) \<and>
     (\<forall>b\<in>set (freelist st). \<forall>c\<in>set (freelist st). b + hsize st b = c \<longrightarrow> b div 4096 \<noteq> c div 4096)"

lemma heap_okD:
  assumes "heap_ok st S G"
  shows "pages_ok st G" "distinct (freelist st)" "set (freelist st) \<inter> S = {}"
    "tiled (cut_pages st G) (blocks st (set (freelist st) \<union> S))"
    "b \<in> S \<union> G \<Longrightarrow> \<not> linked st b" "b \<in> set (freelist st) \<union> S \<Longrightarrow> hsize st b < 4096"
    "b \<in> set (freelist st) \<Longrightarrow> c \<in> set (freelist st) \<Longrightarrow> b + hsize st b = c \<Longrightarrow> b div 4096 \<noteq> c div 4096"
  using assms unfolding heap_ok_def by blast+

lemma run_start [simp]: "fst r div 4096 \<in> run_pages r"
  by (simp add: run_pages_def)

lemma pages_unique:
  assumes "pages_ok st G" "(a, k) \<in> set (pages st)" "(b, l) \<in> set (pages st)" "a div 4096 = b div 4096"
  shows "a = b \<and> k = l"
proof -
  have "a div 4096 \<in> run_pages (a, k) \<inter> run_pages (b, l)"
    using run_start [of "(a, k)"] run_start [of "(b, l)"] assms(4) by simp
  then show ?thesis using assms(1-3) unfolding pages_ok_def by blast
qed

text \<open>Blocks of whole pages are not in pages that are cut.\<close>

lemma whole_not_cut:
  assumes "pages_ok st G" "g \<in> G"
  shows "g div 4096 \<notin> cut_pages st G"
proof
  assume "g div 4096 \<in> cut_pages st G"
  then obtain a where a: "(a, 0) \<in> set (pages st)" "a \<notin> G" "a div 4096 = g div 4096"
    by (auto simp: cut_pages_def)
  obtain k where "(g, k) \<in> set (pages st)" using assms by (auto simp: pages_ok_def)
  then show False using pages_unique [OF assms(1) a(1)] a(2,3) assms(2) by auto
qed

lemma block_page:
  assumes "heap_ok st S G" "b \<in> set (freelist st) \<union> S"
  shows "tile (cut_pages st G) b (hsize st b)" "b \<notin> G"
proof -
  show t: "tile (cut_pages st G) b (hsize st b)"
    using tiledD(1) [OF heap_okD(4) [OF assms(1)], of b "hsize st b"] assms(2) by (simp add: blocks_def)
  then show "b \<notin> G" using whole_not_cut [OF heap_okD(1) [OF assms(1)]] by (auto simp: tile_def)
qed

lemma pages_ok_cong:
  assumes "pages st' = pages st" "\<And>g. g \<in> G \<Longrightarrow> hsize st' g = hsize st g"
  shows "pages_ok st' G = pages_ok st G" "cut_pages st' G = cut_pages st G"
  using assms by (auto simp: pages_ok_def cut_pages_def)

section \<open>Splitting a block\<close>

lemma maybe_split_sel:
  "freelist (maybe_split st h n block) = (if n + 256 \<le> block then (h + n) # freelist st else freelist st)"
  "hsize (maybe_split st h n block) = (if n + 256 \<le> block then (hsize st)(h + n := block - n, h := n) else (hsize st)(h := block))"
  "linked (maybe_split st h n block) = (if n + 256 \<le> block then (linked st)(h + n := True, h := False) else (linked st)(h := False))"
  "pages (maybe_split st h n block) = pages st"
  by (auto simp: maybe_split_def Let_def add_to_freelist_def set_size_def unlink_def xconsts)

lemma del_sel [simp]:
  "freelist (del_from_freelist st i) = remove1 i (freelist st)" "hsize (del_from_freelist st i) = hsize st"
  "linked (del_from_freelist st i) = (linked st)(i := True)" "pages (del_from_freelist st i) = pages st"
  by (simp_all add: del_from_freelist_def)

text \<open>The heap while a block is neither free nor in use, and a free block that does not follow another one.\<close>

definition limbo :: "xheap \<Rightarrow> nat set \<Rightarrow> nat set \<Rightarrow> nat \<Rightarrow> bool" where
  "limbo st S G h \<longleftrightarrow>
     pages_ok st G \<and> distinct (freelist st) \<and> set (freelist st) \<inter> S = {} \<and>
     tiled (cut_pages st G) (blocks st (insert h (set (freelist st) \<union> S))) \<and>
     (\<forall>b\<in>S \<union> G. \<not> linked st b) \<and> (\<forall>b\<in>set (freelist st) \<union> S. hsize st b < 4096) \<and>
     (\<forall>b\<in>set (freelist st). \<forall>c\<in>set (freelist st). b + hsize st b = c \<longrightarrow> b div 4096 \<noteq> c div 4096) \<and>
     h \<notin> set (freelist st) \<and> h \<notin> S"

definition not_before :: "xheap \<Rightarrow> nat \<Rightarrow> bool" where
  "not_before st h \<longleftrightarrow> (\<forall>c\<in>set (freelist st). h + hsize st h = c \<longrightarrow> h div 4096 \<noteq> c div 4096)"

lemma limboD:
  assumes "limbo st S G h"
  shows "pages_ok st G" "distinct (freelist st)" "set (freelist st) \<inter> S = {}"
    "tiled (cut_pages st G) (blocks st (insert h (set (freelist st) \<union> S)))"
    "\<forall>b\<in>S \<union> G. \<not> linked st b" "\<forall>b\<in>set (freelist st) \<union> S. hsize st b < 4096"
    "\<forall>b\<in>set (freelist st). \<forall>c\<in>set (freelist st). b + hsize st b = c \<longrightarrow> b div 4096 \<noteq> c div 4096"
    "h \<notin> set (freelist st)" "h \<notin> S"
  using assms unfolding limbo_def by blast+

lemma limbo_tile:
  assumes "limbo st S G h"
  shows "tile (cut_pages st G) h (hsize st h)" "h \<notin> G"
proof -
  show t: "tile (cut_pages st G) h (hsize st h)"
    using tiledD(1) [OF limboD(4) [OF assms], of h] by (simp add: blocks_def)
  then show "h \<notin> G" using whole_not_cut [OF limboD(1) [OF assms]] by (auto simp: tile_def)
qed

lemma maybe_split_set_size: "maybe_split (set_size st h block) h n block = maybe_split st h n block"
  by (cases "n + 256 \<le> block") (simp_all add: maybe_split_def Let_def add_to_freelist_def set_size_def unlink_def xconsts fun_eq_iff)

text \<open>The block is taken into use, and its end goes back to the free list.\<close>

lemma split_ok:
  assumes l: "limbo st S G h" and right: "not_before st h"
    and n: "0 < n" "128 dvd n" "n + 256 \<le> hsize st h"
  shows "heap_ok (maybe_split st h n (hsize st h)) (insert h S) G"
proof -
  note ok = limboD(1-7) [OF l] and h = limboD(8,9) [OF l] limbo_tile(2) [OF l] and th = limbo_tile(1) [OF l]
  define st' where "st' = maybe_split st h n (hsize st h)"
  let ?B = "insert h (set (freelist st) \<union> S)"
  have sel: "freelist st' = (h + n) # freelist st" "hsize st' = (hsize st)(h + n := hsize st h - n, h := n)"
    "linked st' = (linked st)(h + n := True, h := False)" "pages st' = pages st"
    using n by (simp_all add: st'_def maybe_split_sel)
  have pg: "(h + n) div 4096 = h div 4096"
    using th n within_page [of h "hsize st h" n] by (simp add: tile_def)
  have fresh: "h + n \<notin> ?B"
    using tiledD(2) [OF ok(4), of h "hsize st h" "h + n" "hsize st (h + n)"] n by (auto simp: blocks_def)
  have G: "h + n \<notin> G"
    using whole_not_cut [OF ok(1), of "h + n"] th pg by (auto simp: tile_def)
  have "tiled (cut_pages st G) ((blocks st ?B)(h \<mapsto> n, h + n \<mapsto> hsize st h - n))"
    using n by (intro tiled_split [OF ok(4)]) (auto simp: blocks_def)
  moreover have "(blocks st ?B)(h \<mapsto> n, h + n \<mapsto> hsize st h - n) = blocks st' (set (freelist st') \<union> insert h S)"
    using fresh n by (auto simp: blocks_def sel fun_eq_iff)
  moreover have "hsize st' g = hsize st g" if "g \<in> G" for g
    using that G h(3) by (auto simp: sel)
  then have "pages_ok st' G \<and> cut_pages st' G = cut_pages st G"
    using pages_ok_cong [OF sel(4), of G] ok(1) by simp
  moreover have "b + hsize st' b = c \<longrightarrow> b div 4096 \<noteq> c div 4096"
    if b: "b \<in> set (freelist st')" and c: "c \<in> set (freelist st')" for b c
  proof (cases "b = h + n")
    case True
    then show ?thesis using c right pg n by (auto simp: sel not_before_def)
  next
    case False
    then have b': "b \<in> set (freelist st)" "b \<noteq> h" "hsize st' b = hsize st b" using b h by (auto simp: sel)
    have "b + hsize st b \<noteq> h + n"
      using tiledD(2) [OF ok(4), of b "hsize st b" h "hsize st h"] tiledD(2) [OF ok(4), of h "hsize st h" b "hsize st b"] b' n
      by (cases "b < h") (auto simp: blocks_def)
    then show ?thesis using b' c ok(7) by (auto simp: sel)
  qed
  moreover have "hsize st h \<le> 4096" using th by (auto simp: tile_def)
  ultimately show ?thesis
    using ok fresh G h n unfolding st'_def [symmetric] heap_ok_def by (auto simp: sel)
qed

text \<open>The whole block is taken into use.\<close>

lemma take_ok:
  assumes l: "limbo st S G h" and n: "\<not> n + 256 \<le> hsize st h" "hsize st h < 4096"
  shows "heap_ok (maybe_split st h n (hsize st h)) (insert h S) G"
proof -
  define st' where "st' = maybe_split st h n (hsize st h)"
  have sel: "freelist st' = freelist st" "hsize st' = hsize st" "linked st' = (linked st)(h := False)" "pages st' = pages st"
    using n by (auto simp: st'_def maybe_split_sel)
  have "pages_ok st' G = pages_ok st G" "cut_pages st' G = cut_pages st G"
    by (rule pages_ok_cong; simp add: sel)+
  moreover have "blocks st' B = blocks st B" for B
    by (simp add: blocks_def sel fun_eq_iff)
  ultimately show ?thesis
    using l n unfolding st'_def [symmetric] heap_ok_def limbo_def by (auto simp: sel)
qed

lemma free_limbo:
  assumes ok: "heap_ok st S G" and i: "i \<in> set (freelist st)"
  shows "limbo (del_from_freelist st i) S G i" "not_before (del_from_freelist st i) i"
proof -
  have "pages_ok (del_from_freelist st i) G = pages_ok st G" "cut_pages (del_from_freelist st i) G = cut_pages st G"
    by (rule pages_ok_cong; simp)+
  moreover have "blocks (del_from_freelist st i) B = blocks st B" for B
    by (simp add: blocks_def fun_eq_iff)
  moreover have "insert i (set (remove1 i (freelist st)) \<union> S) = set (freelist st) \<union> S"
    using i heap_okD(2) [OF ok] by auto
  ultimately show "limbo (del_from_freelist st i) S G i"
    using ok i block_page(2) [OF ok, of i] unfolding heap_ok_def limbo_def by auto
  show "not_before (del_from_freelist st i) i"
    using heap_okD(2,7) [OF ok] i by (auto simp: not_before_def)
qed

text \<open>A new page, as one block.\<close>

definition fresh_pages :: "xheap \<Rightarrow> (nat \<Rightarrow> nat option) \<Rightarrow> bool" where
  "fresh_pages st alloc \<longleftrightarrow>
     (\<forall>ord a. alloc ord = Some a \<longrightarrow>
        a mod 4096 = 0 \<and> 0 < a \<and> (\<forall>r\<in>set (pages st). run_pages (a, ord) \<inter> run_pages r = {}))"

lemma fresh_pages_not_held:
  assumes "pages_ok st G" "fresh_pages st alloc" "alloc ord = Some a"
  shows "a \<notin> G" "a div 4096 \<notin> cut_pages st G" "(a, k) \<notin> set (pages st)"
proof -
  have no: "b div 4096 \<noteq> a div 4096" if "(b, k) \<in> set (pages st)" for b k
    using assms(2,3) that run_start [of "(b, k)"] run_start [of "(a, ord)"] by (fastforce simp: fresh_pages_def)
  then show "a \<notin> G" "a div 4096 \<notin> cut_pages st G" "(a, k) \<notin> set (pages st)"
    using assms(1) by (fastforce simp: pages_ok_def cut_pages_def)+
qed

lemma pages_ok_add:
  assumes p: "pages_ok st G" "fresh_pages st alloc" "alloc ord = Some a" "ord \<le> 18"
    and st': "pages st' = (a, ord) # pages st" "\<And>g. g \<in> G \<Longrightarrow> hsize st' g = hsize st g"
  shows "ord = 0 \<Longrightarrow> pages_ok st' G" "ord = 0 \<Longrightarrow> cut_pages st' G = insert (a div 4096) (cut_pages st G)"
    "hsize st' a = 4096 * 2 ^ ord \<Longrightarrow> pages_ok st' (insert a G)" "cut_pages st' (insert a G) = cut_pages st G"
proof -
  note no = fresh_pages_not_held [OF p(1-3)]
  have a: "a mod 4096 = 0" "0 < a" "\<forall>r\<in>set (pages st). run_pages (a, ord) \<inter> run_pages r = {}"
    using p(2,3) by (auto simp: fresh_pages_def)
  have g: "\<exists>k\<le>18. (g, k) \<in> set (pages st') \<and> hsize st' g = 4096 * 2 ^ k" if "g \<in> G" for g
    using p(1) st' that by (fastforce simp: pages_ok_def)
  have d: "distinct (pages st')" using p(1) no(3) by (simp add: st' pages_ok_def)
  have r: "\<forall>r\<in>set (pages st'). \<forall>r'\<in>set (pages st'). r \<noteq> r' \<longrightarrow> run_pages r \<inter> run_pages r' = {}"
    using p(1) a(3) unfolding st'(1) pages_ok_def by (simp add: Int_commute)
  have s: "fst r mod 4096 = 0 \<and> 0 < fst r \<and> (snd r \<noteq> 0 \<longrightarrow> fst r \<in> G)" if "r \<in> set (pages st)" for r
    using p(1) that by (auto simp: pages_ok_def)
  show "ord = 0 \<Longrightarrow> pages_ok st' G"
    unfolding pages_ok_def using d r g s a by (auto simp: st'(1))
  show "hsize st' a = 4096 * 2 ^ ord \<Longrightarrow> pages_ok st' (insert a G)"
    unfolding pages_ok_def using d r g s a p(4) by (auto simp: st'(1))
  show "ord = 0 \<Longrightarrow> cut_pages st' G = insert (a div 4096) (cut_pages st G)"
    using no(1) by (auto simp: cut_pages_def st'(1))
  show "cut_pages st' (insert a G) = cut_pages st G"
    using no(3) by (auto simp: cut_pages_def st'(1))
qed

lemma fresh_not_block:
  assumes "heap_ok st S G" "fresh_pages st alloc" "alloc ord = Some a" "b \<in> set (freelist st) \<union> S"
  shows "b div 4096 \<noteq> a div 4096" "b \<noteq> a"
  using block_page(1) [OF assms(1,4)] fresh_pages_not_held(2) [OF heap_okD(1) [OF assms(1)] assms(2,3)]
  by (auto simp: tile_def)

lemma page_limbo:
  assumes ok: "heap_ok st S G" and f: "fresh_pages st alloc" "alloc 0 = Some h"
  defines "st' \<equiv> set_size (st\<lparr>pages := (h, 0) # pages st\<rparr>) h 4096"
  shows "limbo st' S G h" "not_before st' h"
proof -
  note no = fresh_pages_not_held [OF heap_okD(1) [OF ok] f] and nb = fresh_not_block [OF ok f]
  have sel: "freelist st' = freelist st" "hsize st' = (hsize st)(h := 4096)" "linked st' = linked st"
    "pages st' = (h, 0) # pages st"
    by (simp_all add: st'_def set_size_def)
  have g: "\<And>g. g \<in> G \<Longrightarrow> hsize st' g = hsize st g" using no(1) by (auto simp: sel)
  have p: "pages_ok st' G" "cut_pages st' G = insert (h div 4096) (cut_pages st G)"
    using pages_ok_add(1,2) [OF heap_okD(1) [OF ok] f _ sel(4) g] by simp_all
  have "h mod 4096 = 0" using f by (auto simp: fresh_pages_def)
  then have "tiled (cut_pages st' G) ((blocks st (set (freelist st) \<union> S))(h \<mapsto> 4096))"
    using tiled_page [OF heap_okD(4) [OF ok]] no(2) by (simp add: p)
  moreover have "(blocks st (set (freelist st) \<union> S))(h \<mapsto> 4096) = blocks st' (insert h (set (freelist st') \<union> S))"
    by (auto simp: blocks_def sel fun_eq_iff)
  ultimately show "limbo st' S G h"
    using ok nb p(1) unfolding limbo_def heap_ok_def by (auto simp: sel)
  show "not_before st' h" using nb by (auto simp: not_before_def sel)
qed

lemma whole_ok:
  assumes ok: "heap_ok st S G" and f: "fresh_pages st alloc" "alloc ord = Some h" "ord \<le> 18"
    and st': "pages st' = (h, ord) # pages st" "hsize st' = (hsize st)(h := 4096 * 2 ^ ord)"
      "linked st' = (linked st)(h := False)" "freelist st' = freelist st"
  shows "heap_ok st' S (insert h G)"
proof -
  note nb = fresh_not_block [OF ok f(1,2)]
  have "h \<notin> G" using fresh_pages_not_held(1) [OF heap_okD(1) [OF ok] f(1,2)] .
  then have g: "\<And>g. g \<in> G \<Longrightarrow> hsize st' g = hsize st g" by (auto simp: st')
  have p: "pages_ok st' (insert h G)" "cut_pages st' (insert h G) = cut_pages st G"
    using pages_ok_add(3,4) [OF heap_okD(1) [OF ok] f st'(1) g] by (simp_all add: st')
  have "blocks st' (set (freelist st) \<union> S) = blocks st (set (freelist st) \<union> S)"
    using nb by (auto simp: blocks_def st' fun_eq_iff)
  then show ?thesis
    using ok p nb unfolding heap_ok_def by (auto simp: st')
qed

section \<open>Joining free blocks\<close>

text \<open>Two neighbours within a page.\<close>

definition beside :: "xheap \<Rightarrow> nat \<Rightarrow> nat \<Rightarrow> bool" where
  "beside st h j \<longleftrightarrow> h div 4096 = j div 4096 \<and> (h + hsize st h = j \<or> j + hsize st j = h)"

text \<open>
  The state \<open>st'\<close> after the block \<open>h\<close> has been joined with a free neighbour: \<open>b\<close> is the lower of the two and \<open>c\<close> the
  upper one, \<open>i\<close> the one that was free.
\<close>

lemma join_limbo:
  assumes l: "limbo st S G h" and i: "i \<in> set (freelist st)"
    and bc: "{b, c} = {h, i}" "b + hsize st b = c" "b div 4096 = c div 4096"
    and st': "st' = set_size (del_from_freelist st i) b (hsize st b + hsize st c)"
  shows "limbo st' S G b" "hsize st' j = (if j = b then hsize st b + hsize st c else hsize st j)"
    "freelist st' = remove1 i (freelist st)" "pages st' = pages st"
proof -
  show sel: "hsize st' j = (if j = b then hsize st b + hsize st c else hsize st j)"
    "freelist st' = remove1 i (freelist st)" "pages st' = pages st" for j
    by (simp_all add: st' set_size_def)
  note ok = limboD [OF l]
  have hi: "h \<noteq> i" using i ok(8) by auto
  have nS: "h \<notin> S" "i \<notin> S" using ok(3,9) i by auto
  have "tile (cut_pages st G) i (hsize st i)"
    using tiledD(1) [OF ok(4), of i] i by (simp add: blocks_def)
  then have "i \<notin> G" using whole_not_cut [OF ok(1)] by (auto simp: tile_def)
  then have nG: "b \<notin> G" using limbo_tile(2) [OF l] bc(1) by auto
  have g: "hsize st' g = hsize st g" if "g \<in> G" for g using nG that by (auto simp: sel)
  have p: "pages_ok st' G" "cut_pages st' G = cut_pages st G"
    using pages_ok_cong [OF sel(3) g] ok(1) by simp_all
  let ?B = "insert h (set (freelist st) \<union> S)"
  have "tiled (cut_pages st G) ((blocks st ?B)(b \<mapsto> hsize st b + hsize st c, b + hsize st b := None))"
    using bc i by (intro tiled_join [OF ok(4)]) (auto simp: blocks_def doubleton_eq_iff)
  moreover have "(blocks st ?B)(b \<mapsto> hsize st b + hsize st c, b + hsize st b := None) =
      blocks st' (insert b (set (freelist st') \<union> S))"
    using bc hi nS ok(2,8) i unfolding sel(2) by (auto simp: blocks_def sel(1) fun_eq_iff doubleton_eq_iff)
  moreover have "b \<notin> set (freelist st')" "b \<notin> S" "set (freelist st') \<subseteq> set (freelist st)" "distinct (freelist st')"
    using bc(1) nS ok(2,8) unfolding sel(2) by (auto simp: doubleton_eq_iff)
  moreover have "\<forall>a\<in>S \<union> G. \<not> linked st' a"
    using ok(5) nS \<open>i \<notin> G\<close> by (auto simp: st' set_size_def)
  ultimately show "limbo st' S G b"
    using ok p unfolding limbo_def by (auto simp: sel(1))
qed

text \<open>What a step of the walk keeps: the entries that have been passed are no neighbours of the block.\<close>

definition merged :: "xheap \<Rightarrow> nat set \<Rightarrow> nat set \<Rightarrow> nat \<Rightarrow> nat list \<Rightarrow> bool" where
  "merged st S G h rest \<longleftrightarrow>
     limbo st S G h \<and> distinct rest \<and> set rest \<subseteq> set (freelist st) \<and>
     (\<forall>j\<in>set (freelist st) - set rest. \<not> beside st h j)"

lemma merged_join:
  assumes m: "merged st S G h (i # rest)"
    and bc: "{b, c} = {h, i}" "b + hsize st b = c" "b div 4096 = c div 4096"
    and st': "st' = set_size (del_from_freelist st i) b (hsize st b + hsize st c)"
  shows "merged st' S G b rest"
proof -
  have l: "limbo st S G h" and i: "i \<in> set (freelist st)"
    and r: "distinct rest" "i \<notin> set rest" "set rest \<subseteq> set (freelist st)"
    and nb: "\<And>j. j \<in> set (freelist st) \<Longrightarrow> j \<notin> set (i # rest) \<Longrightarrow> \<not> beside st h j"
    using m by (auto simp: merged_def)
  note j = join_limbo [OF l i bc st'] and ok = limboD [OF l]
  have F: "set (freelist st') = set (freelist st) - {i}" using ok(2) by (simp add: j)
  have "\<not> beside st' b x" if x: "x \<in> set (freelist st')" "x \<notin> set rest" for x
  proof -
    have x': "x \<in> set (freelist st)" "x \<noteq> i" "x \<noteq> b" "\<not> beside st h x"
      using x F nb [of x] limboD(8) [OF j(1)] by auto
    have "i + hsize st i = x \<Longrightarrow> i div 4096 \<noteq> x div 4096" "x + hsize st x = i \<Longrightarrow> x div 4096 \<noteq> i div 4096"
      using ok(7) i x'(1) by auto
    then show ?thesis
      using x'(3,4) bc unfolding beside_def j(2) by (auto simp: doubleton_eq_iff)
  qed
  then show ?thesis using j(1) r F by (auto simp: merged_def)
qed

lemma merge_free_ok:
  assumes "merged st S G h rest" "merge_free st h rest = (st', h')"
  shows "merged st' S G h' [] \<and> pages st' = pages st \<and> (\<forall>b\<in>S \<union> G. hsize st' b = hsize st b)"
  using assms
proof (induction rest arbitrary: st h)
  case (Cons i rest)
  have l: "limbo st S G h" and i: "i \<in> set (freelist st)" using Cons.prems(1) by (auto simp: merged_def)
  consider "i div 4096 \<noteq> h div 4096 \<or> \<not> beside st h i" | "i div 4096 = h div 4096" "i + hsize st i = h"
    | "i div 4096 = h div 4096" "i + hsize st i \<noteq> h" "h + hsize st h = i"
    unfolding beside_def by metis
  then show ?case
  proof cases
    case 1
    then have "merged st S G h rest"
      using Cons.prems(1) by (auto simp: merged_def beside_def)
    moreover have "merge_free st h (i # rest) = merge_free st h rest"
      using 1 by (auto simp: beside_def PAGE_SIZE_def)
    ultimately show ?thesis using Cons.IH Cons.prems(2) by simp
  next
    case 2
    define st1 where "st1 = set_size (del_from_freelist st i) i (hsize st i + hsize st h)"
    have sel: "hsize st1 = (hsize st)(i := hsize st i + hsize st h)" "pages st1 = pages st"
      by (simp_all add: st1_def set_size_def)
    have m: "merged st1 S G i rest"
      by (rule merged_join [OF Cons.prems(1) _ _ _ st1_def]) (use 2 in auto)
    have "0 < hsize st i"
      using tiledD(1) [OF limboD(4) [OF l], of i] i by (simp add: blocks_def tile_def)
    then have "h + (hsize st i + hsize st h) \<noteq> i" using 2(2) by linarith
    then have "merge_free st h (i # rest) = merge_free st1 i rest"
      using 2 by (simp add: PAGE_SIZE_def st1_def [symmetric] sel)
    moreover have "i \<notin> S \<union> G" using limboD(9) [of st1 S G i] limbo_tile(2) [of st1 S G i] m by (auto simp: merged_def)
    ultimately show ?thesis using Cons.IH [OF m] Cons.prems(2) by (auto simp: sel)
  next
    case 3
    define st1 where "st1 = set_size (del_from_freelist st i) h (hsize st h + hsize st i)"
    have sel: "hsize st1 = (hsize st)(h := hsize st h + hsize st i)" "pages st1 = pages st"
      by (simp_all add: st1_def set_size_def)
    have m: "merged st1 S G h rest"
      by (rule merged_join [OF Cons.prems(1) _ _ _ st1_def]) (use 3 in auto)
    have "merge_free st h (i # rest) = merge_free st1 h rest"
      using 3 by (simp add: PAGE_SIZE_def st1_def [symmetric])
    moreover have "h \<notin> S \<union> G" using limboD(9) [OF l] limbo_tile(2) [OF l] by auto
    ultimately show ?thesis using Cons.IH [OF m] Cons.prems(2) by (auto simp: sel)
  qed
qed simp

lemma pages_ok_remove:
  assumes p: "pages_ok st G" and r: "(a, k) \<in> set (pages st)"
    and st': "pages st' = remove1 (a, k) (pages st)" "hsize st' = hsize st"
  shows "pages_ok st' (G - {a})" "set (pages st') = set (pages st) - {(a, k)}"
    "(b, l) \<in> set (pages st') \<Longrightarrow> b div 4096 \<noteq> a div 4096"
proof -
  show s: "set (pages st') = set (pages st) - {(a, k)}"
    using p by (simp add: st' pages_ok_def)
  show other: "b div 4096 \<noteq> a div 4096" if b: "(b, l) \<in> set (pages st')" for b l
  proof
    assume "b div 4096 = a div 4096"
    moreover have b': "(b, l) \<in> set (pages st)" "(b, l) \<noteq> (a, k)" using b unfolding s by blast+
    ultimately show False using pages_unique [OF p r b'(1)] b'(2) by simp
  qed
  have "distinct (pages st')" using p by (simp add: st' pages_ok_def)
  moreover have "fst x mod 4096 = 0 \<and> 0 < fst x \<and> (snd x \<noteq> 0 \<longrightarrow> fst x \<in> G - {a})" if "x \<in> set (pages st')" for x
    using p that s other [of "fst x" "snd x"] by (auto simp: pages_ok_def)
  moreover have "\<exists>l\<le>18. (b, l) \<in> set (pages st') \<and> hsize st' b = 4096 * 2 ^ l" if "b \<in> G - {a}" for b
    using p that s unfolding pages_ok_def st'(2) by blast
  ultimately show "pages_ok st' (G - {a})"
    using p s unfolding pages_ok_def by blast
qed

text \<open>The end of the walk: the block goes to the free list, or its page goes back.\<close>

lemma add_ok:
  assumes m: "merged st S G h []" and n: "hsize st h < 4096"
  shows "heap_ok (add_to_freelist st h) S G"
proof -
  have l: "limbo st S G h" and nb: "\<forall>j\<in>set (freelist st). \<not> beside st h j"
    using m by (auto simp: merged_def)
  have sel: "freelist (add_to_freelist st h) = h # freelist st" "hsize (add_to_freelist st h) = hsize st"
    "linked (add_to_freelist st h) = (linked st)(h := True)" "pages (add_to_freelist st h) = pages st"
    by (simp_all add: add_to_freelist_def)
  have p: "pages_ok (add_to_freelist st h) G = pages_ok st G" "cut_pages (add_to_freelist st h) G = cut_pages st G"
    by (rule pages_ok_cong; simp add: sel)+
  have b: "blocks (add_to_freelist st h) B = blocks st B" for B
    by (simp add: blocks_def sel fun_eq_iff)
  have "0 < hsize st h" using limbo_tile(1) [OF l] by (simp add: tile_def)
  then have "\<forall>b\<in>set (h # freelist st). \<forall>c\<in>set (h # freelist st). b + hsize st b = c \<longrightarrow> b div 4096 \<noteq> c div 4096"
    using limboD(7) [OF l] nb by (auto simp: beside_def)
  then show ?thesis
    using limboD [OF l] limbo_tile(2) [OF l] n unfolding heap_ok_def by (auto simp: sel p b)
qed

lemma drop_ok:
  assumes l: "limbo st S G h" and n: "hsize st h = 4096"
  shows "h mod 4096 = 0" "(h, 0) \<in> set (pages st)" "heap_ok (st\<lparr>pages := remove1 (h, 0) (pages st)\<rparr>) S G"
proof -
  note ok = limboD [OF l] and t = limbo_tile [OF l]
  show h0: "h mod 4096 = 0" using t(1) n by (simp add: tile_def)
  obtain a where a: "(a, 0) \<in> set (pages st)" "a \<notin> G" "a div 4096 = h div 4096"
    using t(1) by (auto simp: tile_def cut_pages_def)
  then have "a = h"
    using h0 ok(1) mult_div_mod_eq [of 4096 a] mult_div_mod_eq [of 4096 h] by (force simp: pages_ok_def)
  then show h: "(h, 0) \<in> set (pages st)" using a(1) by simp
  define st' where "st' = st\<lparr>pages := remove1 (h, 0) (pages st)\<rparr>"
  note r = pages_ok_remove [OF ok(1) h, of st']
  have p: "pages_ok st' G" using r(1) t(2) by (simp add: st'_def)
  have c: "cut_pages st' G = cut_pages st G - {h div 4096}"
    using r(2,3) by (auto simp: cut_pages_def st'_def)
  have "tiled (cut_pages st' G) ((blocks st (insert h (set (freelist st) \<union> S)))(h := None))"
    unfolding c by (rule tiled_drop [OF ok(4)]) (simp add: blocks_def n)
  moreover have "(blocks st (insert h (set (freelist st) \<union> S)))(h := None) = blocks st' (set (freelist st') \<union> S)"
    using ok(8,9) by (auto simp: blocks_def st'_def fun_eq_iff)
  ultimately show "heap_ok (st\<lparr>pages := remove1 (h, 0) (pages st)\<rparr>) S G"
    using ok p unfolding st'_def [symmetric] heap_ok_def by (auto simp: st'_def)
qed

lemma whole_drop_ok:
  assumes ok: "heap_ok st S G" and g: "g \<in> G" "(g, k) \<in> set (pages st)"
  shows "heap_ok (st\<lparr>pages := remove1 (g, k) (pages st)\<rparr>) S (G - {g})"
proof -
  define st' where "st' = st\<lparr>pages := remove1 (g, k) (pages st)\<rparr>"
  note p = heap_okD(1) [OF ok]
  note r = pages_ok_remove [OF p g(2), of st']
  have "pages_ok st' (G - {g})" using r(1) by (simp add: st'_def)
  moreover have "cut_pages st' (G - {g}) = cut_pages st G"
    using r(2,3) g(1) by (auto simp: cut_pages_def st'_def)
  moreover have "blocks st' B = blocks st B" for B by (simp add: blocks_def st'_def fun_eq_iff)
  ultimately show ?thesis
    using ok unfolding st'_def [symmetric] heap_ok_def by (auto simp: st'_def)
qed

end
