(* ===== verification/Xmalloc_Props.thy ===== *)
theory Xmalloc_Props
  imports Xmalloc_Inv
begin

text \<open>
  The allocator as its users see it: areas that are aligned, large enough and disjoint, no failure on release, and no
  page that is kept in vain.
\<close>

section \<open>Sizes\<close>

lemma order_loop_less: "m < 2 ^ order_loop m"
proof (induction m rule: order_loop.induct)
  case (1 m)
  show ?case
  proof (cases "m = 0")
    case False
    then have "m div 2 < 2 ^ order_loop (m div 2)" using 1 by simp
    then have "m < 2 * 2 ^ order_loop (m div 2)" by linarith
    then show ?thesis using False by (subst order_loop.simps) simp
  qed (simp add: order_loop.simps)
qed

lemma order_loop_le: "m < 2 ^ k \<Longrightarrow> order_loop m \<le> k"
proof (induction k arbitrary: m)
  case 0
  then show ?case by (simp add: order_loop.simps)
next
  case (Suc k)
  then have "m div 2 < 2 ^ k" by simp
  then show ?case using Suc.IH [of "m div 2"] by (subst order_loop.simps) simp
qed

lemma get_order:
  assumes "0 < n" "n \<le> 2 ^ 30"
  shows "n \<le> 4096 * 2 ^ get_order_from_bytes n" "n \<le> 4096 * 2 ^ k \<Longrightarrow> get_order_from_bytes n \<le> k"
proof -
  have "(n + (2 ^ 64 - 1)) mod 2 ^ 64 = n - 1"
  proof -
    have "n + (2 ^ 64 - 1) = (n - 1) + 2 ^ 64" using assms(1) by simp
    then show ?thesis using assms(2) by (simp only: mod_add_self2) simp
  qed
  then have o: "get_order_from_bytes n = order_loop ((n - 1) div 4096)"
    by (simp add: get_order_from_bytes_def PAGE_SHIFT_def)
  have "(n - 1) div 4096 < 2 ^ get_order_from_bytes n" unfolding o by (rule order_loop_less)
  then have "n - 1 < 4096 * 2 ^ get_order_from_bytes n" by (simp add: div_less_iff_less_mult mult.commute)
  then show "n \<le> 4096 * 2 ^ get_order_from_bytes n" by linarith
  assume "n \<le> 4096 * 2 ^ k"
  then have "n - 1 < 2 ^ k * 4096" using assms(1) by linarith
  then have "(n - 1) div 4096 < 2 ^ k" by (simp add: div_less_iff_less_mult)
  then show "get_order_from_bytes n \<le> k" unfolding o by (rule order_loop_le)
qed

lemma get_order_whole:
  assumes "k \<le> 18"
  shows "get_order_from_bytes (4096 * 2 ^ k) = k"
proof -
  have le: "(4096::nat) * 2 ^ k \<le> 2 ^ 30"
  proof -
    have "(2::nat) ^ k \<le> 2 ^ 18" using assms by (intro power_increasing) auto
    then show ?thesis by simp
  qed
  have "(4096::nat) * 2 ^ k \<le> 4096 * 2 ^ get_order_from_bytes (4096 * 2 ^ k)" by (rule get_order(1)) (use le in auto)
  then have "k \<le> get_order_from_bytes (4096 * 2 ^ k)" by simp
  moreover have "get_order_from_bytes (4096 * 2 ^ k) \<le> k" by (rule get_order(2)) (use le in auto)
  ultimately show ?thesis by simp
qed

lemma int_shift_power:
  assumes "k \<le> 30"
  shows "int_shift k = 2 ^ k"
proof -
  have p: "(2::nat) ^ k \<le> 2 ^ 30" using assms by (intro power_increasing) auto
  have "(push_bit k 1 :: u32) = of_nat (2 ^ k)" by (simp add: push_bit_eq_mult)
  moreover have "unat (of_nat (2 ^ k) :: u32) = 2 ^ k"
    using assms by (subst unsigned_of_nat) (simp add: take_bit_nat_eq_self_iff)
  ultimately have "unat (push_bit k 1 :: u32) = 2 ^ k" by (simp only:)
  then have "sint (push_bit k 1 :: u32) = int (2 ^ k)"
    using p sint_small [of "push_bit k 1"] by simp
  then have "int_shift k = unat (of_int (int (2 ^ k)) :: ulong)"
    unfolding int_shift_def scast_eq by simp
  also have "\<dots> = 2 ^ k" using p by (intro unat_of_int) simp
  finally show ?thesis .
qed

lemma padded:
  assumes "n + 128 \<le> 2 ^ 30"
  defines "m \<equiv> align_up ((n + HDR) mod 2 ^ 64) HDR"
  shows "n + 128 \<le> m" "m \<le> 2 ^ 30" "128 dvd m" "0 < m"
proof -
  have "(n + 128) mod 2 ^ 64 = n + 128" "(n + 128 + 128 - 1) mod 2 ^ 64 = n + 255"
    using assms(1) by simp_all
  then have m: "m = (n + 255) - (n + 255) mod 128"
    by (simp add: m_def align_up_def HDR_def Let_def)
  define r where "r = (n + 255) mod 128"
  have "r < 128" by (simp add: r_def)
  then show "n + 128 \<le> m" "0 < m" unfolding m r_def [symmetric] by auto
  have "(n + 255) div 128 \<le> (2 ^ 30 + 127) div 128" using assms(1) by (intro div_le_mono) simp
  moreover have "m = 128 * ((n + 255) div 128)" unfolding m by (rule minus_mod_eq_mult_div)
  ultimately show "m \<le> 2 ^ 30" by simp
  show "128 dvd m" unfolding m by (rule dvd_minus_mod)
qed

section \<open>Allocation and release\<close>

text \<open>The invariant for a set of blocks in use, which are told apart by their size.\<close>

definition heap_inv :: "xheap \<Rightarrow> nat set \<Rightarrow> bool" where
  "heap_inv st L \<longleftrightarrow> heap_ok st {b \<in> L. hsize st b < 4096} {b \<in> L. \<not> hsize st b < 4096}"

lemma whole_size: "heap_ok st S G \<Longrightarrow> g \<in> G \<Longrightarrow> \<not> hsize st g < 4096"
  by (fastforce simp: heap_ok_def pages_ok_def)

lemma heap_invI:
  assumes "heap_ok st S G"
  shows "heap_inv st (S \<union> G)"
proof -
  have "{b \<in> S \<union> G. hsize st b < 4096} = S" "{b \<in> S \<union> G. \<not> hsize st b < 4096} = G"
    using heap_okD(6) [OF assms] whole_size [OF assms] by auto
  then show ?thesis using assms by (simp add: heap_inv_def)
qed

lemma heap_invE:
  assumes "heap_inv st L"
  obtains S G where "heap_ok st S G" "L = S \<union> G" "S \<inter> G = {}"
  using assms that [of "{b \<in> L. hsize st b < 4096}" "{b \<in> L. \<not> hsize st b < 4096}"] by (auto simp: heap_inv_def)

text \<open>What an allocation promises: a new block of at least \<open>n\<close> bytes, and all others as they were.\<close>

definition given :: "xheap \<Rightarrow> nat set \<Rightarrow> nat \<Rightarrow> nat \<Rightarrow> xheap \<Rightarrow> bool" where
  "given st L n h st' \<longleftrightarrow> h \<notin> L \<and> heap_inv st' (insert h L) \<and> n \<le> hsize st' h \<and> (\<forall>b\<in>L. hsize st' b = hsize st b)"

lemma given_small:
  assumes l: "limbo st0 S G h" "not_before st0 h" and n: "0 < n" "128 dvd n" "n \<le> hsize st0 h" "hsize st0 h < 4096 \<or> n + 256 \<le> hsize st0 h"
    and same: "\<And>b. b \<in> S \<union> G \<Longrightarrow> hsize st0 b = hsize st b"
  shows "given st (S \<union> G) n h (maybe_split st0 h n (hsize st0 h))"
proof -
  define st' where "st' = maybe_split st0 h n (hsize st0 h)"
  have ok: "heap_ok st' (insert h S) G"
    using split_ok [OF l n(1,2)] take_ok [OF l(1), of n] n(4) unfolding st'_def by blast
  have h: "h \<notin> S \<union> G" using limboD(9) [OF l(1)] limbo_tile(2) [OF l(1)] by auto
  have "hsize st' b = hsize st0 b" if b: "b \<in> S \<union> G" for b
  proof (cases "n + 256 \<le> hsize st0 h")
    case True
    then have "h + n \<in> set (freelist st')" by (simp add: st'_def maybe_split_sel)
    then have "b \<noteq> h + n" using b heap_okD(3) [OF ok] block_page(2) [OF ok] by auto
    then show ?thesis using b h True by (auto simp: st'_def maybe_split_sel)
  next
    case False
    then show ?thesis using b h by (auto simp: st'_def maybe_split_sel)
  qed
  moreover have "n \<le> hsize st' h" using n by (auto simp: st'_def maybe_split_sel)
  ultimately show ?thesis
    using heap_invI [OF ok] h same unfolding st'_def [symmetric] given_def by simp
qed

lemma given_whole:
  assumes ok: "heap_ok st S G" and f: "fresh_pages st alloc" "alloc ord = Some h" "ord \<le> 18"
    and st': "pages st' = (h, ord) # pages st" "hsize st' = (hsize st)(h := 4096 * 2 ^ ord)"
      "linked st' = (linked st)(h := False)" "freelist st' = freelist st"
    and n: "n \<le> 4096 * 2 ^ ord"
  shows "given st (S \<union> G) n h st'"
proof -
  have h: "h \<notin> S \<union> G"
    using fresh_not_block [OF ok f(1,2)] fresh_pages_not_held(1) [OF heap_okD(1) [OF ok] f(1,2)] by auto
  have "heap_inv st' (S \<union> insert h G)" by (rule heap_invI [OF whole_ok [OF ok f st']])
  then show ?thesis using h n by (auto simp: given_def st')
qed

lemma new_page_given:
  assumes ok: "heap_ok st S G" and f: "fresh_pages st alloc" "alloc 0 = Some h"
    and n: "0 < n" "128 dvd n" "n < 4096"
  shows "xmalloc_new_page alloc st n = (Some (h + 128), maybe_split (st\<lparr>pages := (h, 0) # pages st\<rparr>) h n 4096)"
    "given st (S \<union> G) n h (maybe_split (st\<lparr>pages := (h, 0) # pages st\<rparr>) h n 4096)"
proof -
  let ?st = "st\<lparr>pages := (h, 0) # pages st\<rparr>"
  show "xmalloc_new_page alloc st n = (Some (h + 128), maybe_split ?st h n 4096)"
    using f(2) by (simp add: xmalloc_new_page_def data_from_header_def xconsts)
  show "given st (S \<union> G) n h (maybe_split ?st h n 4096)"
  proof (cases "n + 256 \<le> 4096")
    case True
    have "hsize (set_size ?st h 4096) b = hsize st b" if "b \<in> S \<union> G" for b
      using that fresh_not_block [OF ok f, of b] fresh_pages_not_held(1) [OF heap_okD(1) [OF ok] f]
      by (auto simp: set_size_def)
    then have "given st (S \<union> G) n h (maybe_split (set_size ?st h 4096) h n (hsize (set_size ?st h 4096) h))"
      using n True by (intro given_small [OF page_limbo [OF ok f]]) (auto simp: set_size_def)
    then show ?thesis using maybe_split_set_size [of ?st h 4096 n] by (simp add: set_size_def)
  next
    case False
    then show ?thesis
      using n by (intro given_whole [OF ok f]) (auto simp: maybe_split_sel)
  qed
qed

lemma whole_pages_given:
  assumes ok: "heap_ok st S G" and f: "fresh_pages st alloc" "alloc (get_order_from_bytes n) = Some h"
    and n: "0 < n" "n \<le> 2 ^ 30"
  obtains st' where "xmalloc_whole_pages alloc st n = (Some (h + 128), st')" "given st (S \<union> G) n h st'"
proof -
  define ord where "ord = get_order_from_bytes n"
  have ord: "n \<le> 4096 * 2 ^ ord" "ord \<le> 18"
    using get_order(1) [OF n] get_order(2) [OF n, of 18] n(2) by (auto simp: ord_def)
  have "int_shift (ord + PAGE_SHIFT) = 4096 * 2 ^ ord"
    using ord(2) by (simp add: PAGE_SHIFT_def int_shift_power power_add)
  then show thesis
    using that [of "unlink (set_size (st\<lparr>pages := (h, ord) # pages st\<rparr>) h (4096 * 2 ^ ord)) h"] f(2)
      given_whole [OF ok f(1) f(2) [folded ord_def] ord(2) _ _ _ _ ord(1)]
    by (auto simp: xmalloc_whole_pages_def data_from_header_def xconsts ord_def [symmetric] unlink_def set_size_def)
qed

text \<open>An allocation gives a block, or \<open>NULL\<close> when the page allocator has no pages.\<close>

lemma xmalloc_given:
  assumes inv: "heap_inv st L" and f: "fresh_pages st alloc" and n: "n + 128 \<le> 2 ^ 30" "align \<le> 128"
  shows "(xmalloc' alloc st n align = Done (None, st) \<and> (\<exists>ord. alloc ord = None)) \<or>
    (\<exists>h st'. xmalloc' alloc st n align = Done (Some (h + 128), st') \<and> given st L (n + 128) h st')"
proof -
  obtain S G where ok: "heap_ok st S G" and L: "L = S \<union> G" using heap_invE [OF inv] by metis
  define m where "m = align_up ((n + HDR) mod 2 ^ 64) HDR"
  have m: "n + 128 \<le> m" "m \<le> 2 ^ 30" "128 dvd m" "0 < m" using padded [OF n(1)] by (auto simp: m_def)
  have weaken: "given st L m h st' \<Longrightarrow> given st L (n + 128) h st'" for h st' using m(1) by (auto simp: given_def)
  have x: "xmalloc' alloc st n align =
      (if 4096 \<le> m then Done (xmalloc_whole_pages alloc st m)
       else case find (\<lambda>i. \<not> hsize st i < m) (freelist st) of
         Some i \<Rightarrow> Done (Some (i + 128), maybe_split (del_from_freelist st i) i m (hsize st i))
       | None \<Rightarrow> Done (xmalloc_new_page alloc st m))"
    unfolding xmalloc'_def m_def [symmetric] Let_def using n(2) by (simp add: xconsts data_from_header_def split: option.split)
  consider "4096 \<le> m" | i where "m < 4096" "find (\<lambda>i. \<not> hsize st i < m) (freelist st) = Some i"
    | "m < 4096" "find (\<lambda>i. \<not> hsize st i < m) (freelist st) = None" by fastforce
  then show ?thesis
  proof cases
    case 1
    show ?thesis
    proof (cases "alloc (get_order_from_bytes m)")
      case None
      then show ?thesis using x 1 by (auto simp: xmalloc_whole_pages_def)
    next
      case (Some h)
      obtain st' where "xmalloc_whole_pages alloc st m = (Some (h + 128), st')" "given st L m h st'"
        using whole_pages_given [OF ok f Some m(4,2)] by (metis L)
      then show ?thesis using x 1 weaken by auto
    qed
  next
    case 2
    then have i: "i \<in> set (freelist st)" "m \<le> hsize st i" by (auto simp: find_Some_iff)
    have "given st L m i (maybe_split (del_from_freelist st i) i m (hsize (del_from_freelist st i) i))"
      unfolding L using heap_okD(6) [OF ok, of i] i m by (intro given_small [OF free_limbo [OF ok i(1)]]) auto
    then show ?thesis using x 2 weaken by auto
  next
    case 3
    show ?thesis
    proof (cases "alloc 0")
      case None
      then show ?thesis using x 3 by (auto simp: xmalloc_new_page_def)
    next
      case (Some h)
      then show ?thesis using x 3 weaken new_page_given [OF ok f Some m(4,3)] by (auto simp: L)
    qed
  qed
qed

text \<open>The release of a block in use never fails.\<close>

lemma used_limbo:
  assumes ok: "heap_ok st S G" and h: "h \<in> S"
  shows "merged st (S - {h}) G h (freelist st)"
proof -
  have "set (freelist st) \<union> S = insert h (set (freelist st) \<union> (S - {h}))" using h by auto
  then have "limbo st (S - {h}) G h"
    using ok h block_page(2) [OF ok, of h] unfolding heap_ok_def limbo_def by auto
  then show ?thesis using heap_okD(2) [OF ok] by (simp add: merged_def)
qed

lemma xfree_small:
  assumes ok: "heap_ok st S G" and h: "h \<in> S"
  obtains st' where "xfree st (h + 128) = Done st'" "heap_ok st' (S - {h}) G" "\<forall>b\<in>S - {h} \<union> G. hsize st' b = hsize st b"
proof -
  have t: "tile (cut_pages st G) h (hsize st h)" and n: "hsize st h < 4096" "\<not> linked st h"
    using block_page(1) [OF ok] heap_okD(5,6) [OF ok, of h] h by auto
  have "(h + 128) div 4096 = h div 4096"
    using t within_page(1) [of h 256 128] by (simp add: tile_def)
  moreover obtain st1 h1 where m: "merge_free st h (freelist st) = (st1, h1)" by (cases "merge_free st h (freelist st)")
  ultimately have x: "xfree st (h + 128) =
      (if hsize st1 h1 = 4096 then bug_on (h1 mod 4096 \<noteq> 0) (release_pages st1 h1 0) else Done (add_to_freelist st1 h1))"
    using n by (simp add: xfree_def header_from_data_def xconsts)
  have m1: "merged st1 (S - {h}) G h1 []" "\<forall>b\<in>S - {h} \<union> G. hsize st1 b = hsize st b"
    using merge_free_ok [OF used_limbo [OF ok h] m] by auto
  then have l: "limbo st1 (S - {h}) G h1" by (simp add: merged_def)
  show thesis
  proof (cases "hsize st1 h1 = 4096")
    case True
    note d = drop_ok [OF l True]
    have "xfree st (h + 128) = Done (st1\<lparr>pages := remove1 (h1, 0) (pages st1)\<rparr>)"
      using True d(1,2) by (simp add: x release_pages_def)
    then show thesis using that d(3) m1(2) by simp
  next
    case False
    then have "hsize st1 h1 < 4096" using limbo_tile(1) [OF l] by (auto simp: tile_def)
    then show thesis
      using that [of "add_to_freelist st1 h1"] add_ok [OF m1(1)] m1(2) False x by (simp add: add_to_freelist_def)
  qed
qed

lemma xfree_whole:
  assumes ok: "heap_ok st S G" and g: "g \<in> G"
  obtains st' where "xfree st (g + 128) = Done st'" "heap_ok st' S (G - {g})" "hsize st' = hsize st"
proof -
  obtain k where k: "k \<le> 18" "(g, k) \<in> set (pages st)" "hsize st g = 4096 * 2 ^ k"
    using heap_okD(1) [OF ok] g by (auto simp: pages_ok_def)
  have "g mod 4096 = 0" using heap_okD(1) [OF ok] k(2) by (auto simp: pages_ok_def)
  then have "(g + 128) div 4096 = g div 4096" using within_page(1) [of g 256 128] by simp
  then have "xfree st (g + 128) = Done (st\<lparr>pages := remove1 (g, k) (pages st)\<rparr>)"
    using heap_okD(5) [OF ok, of g] g k(2) get_order_whole [OF k(1)]
    by (simp add: xfree_def header_from_data_def xconsts release_pages_def k(3))
  then show thesis using that whole_drop_ok [OF ok g k(2)] by simp
qed

lemma xfree_taken:
  assumes inv: "heap_inv st L" and h: "h \<in> L"
  shows "\<exists>st'. xfree st (h + 128) = Done st' \<and> heap_inv st' (L - {h}) \<and> (\<forall>b\<in>L - {h}. hsize st' b = hsize st b)"
proof -
  obtain S G where ok: "heap_ok st S G" and L: "L = S \<union> G" "S \<inter> G = {}" using heap_invE [OF inv] by metis
  show ?thesis
  proof (cases "h \<in> S")
    case True
    obtain st' where st': "xfree st (h + 128) = Done st'" "heap_ok st' (S - {h}) G" "\<forall>b\<in>S - {h} \<union> G. hsize st' b = hsize st b"
      by (rule xfree_small [OF ok True])
    moreover have "L - {h} = S - {h} \<union> G" using L True by auto
    ultimately show ?thesis using heap_invI [OF st'(2)] by auto
  next
    case False
    then have g: "h \<in> G" using h L by auto
    obtain st' where st': "xfree st (h + 128) = Done st'" "heap_ok st' S (G - {h})" "hsize st' = hsize st"
      by (rule xfree_whole [OF ok g])
    moreover have "L - {h} = S \<union> (G - {h})" using L False by auto
    ultimately show ?thesis using heap_invI [OF st'(2)] by auto
  qed
qed

section \<open>Areas\<close>

definition bytes :: "xheap \<Rightarrow> nat \<Rightarrow> nat set" where
  "bytes st h = {h ..< h + hsize st h}"

definition run_bytes :: "nat \<times> nat \<Rightarrow> nat set" where
  "run_bytes r = {fst r ..< fst r + 4096 * 2 ^ snd r}"

lemma run_bytes_pages:
  assumes "fst r mod 4096 = 0"
  shows "x \<in> run_bytes r \<longleftrightarrow> x div 4096 \<in> run_pages r"
proof -
  define q where "q = fst r div 4096"
  have q: "fst r = 4096 * q" using assms by (auto simp: q_def)
  have "fst r \<le> x \<longleftrightarrow> q \<le> x div 4096"
    by (simp add: q less_eq_div_iff_mult_less_eq mult.commute)
  moreover have "x < fst r + 4096 * 2 ^ snd r \<longleftrightarrow> x div 4096 < q + 2 ^ snd r"
    by (simp add: q div_less_iff_less_mult algebra_simps)
  ultimately show ?thesis by (simp add: run_bytes_def run_pages_def q_def)
qed

lemma small_bytes:
  assumes ok: "heap_ok st S G" and b: "b \<in> set (freelist st) \<union> S"
  obtains a where "(a, 0) \<in> set (pages st)" "a \<notin> G" "a div 4096 = b div 4096" "bytes st b \<subseteq> run_bytes (a, 0)"
proof -
  have t: "tile (cut_pages st G) b (hsize st b)" by (rule block_page(1) [OF ok b])
  then obtain a where a: "(a, 0) \<in> set (pages st)" "a \<notin> G" "a div 4096 = b div 4096"
    by (auto simp: tile_def cut_pages_def)
  have a0: "a mod 4096 = 0" using heap_okD(1) [OF ok] a(1) by (auto simp: pages_ok_def)
  have "x \<in> run_bytes (a, 0)" if "x \<in> bytes st b" for x
    using that t within_page(1) [of b "hsize st b" "x - b"] a(3) run_bytes_pages [of "(a, 0)" x] a0
    by (auto simp: bytes_def tile_def run_pages_def)
  then show thesis using that a by blast
qed

lemma whole_bytes:
  assumes ok: "heap_ok st S G" and g: "g \<in> G"
  obtains k where "(g, k) \<in> set (pages st)" "bytes st g = run_bytes (g, k)"
  using heap_okD(1) [OF ok] g by (auto simp: pages_ok_def bytes_def run_bytes_def)

lemma runs_disjoint:
  assumes "pages_ok st G" "r \<in> set (pages st)" "r' \<in> set (pages st)" "r \<noteq> r'"
  shows "run_bytes r \<inter> run_bytes r' = {}"
proof -
  have r: "fst r mod 4096 = 0" "fst r' mod 4096 = 0" "run_pages r \<inter> run_pages r' = {}"
    using assms unfolding pages_ok_def by blast+
  have "x \<notin> run_bytes r'" if "x \<in> run_bytes r" for x
    using that r run_bytes_pages [of r x] run_bytes_pages [of r' x] by auto
  then show ?thesis by blast
qed

text \<open>The run of pages that a block in use lies in.\<close>

lemma block_run:
  assumes ok: "heap_ok st S G" and h: "h \<in> S \<union> G"
  obtains r where "r \<in> set (pages st)" "bytes st h \<subseteq> run_bytes r" "h \<in> G \<longleftrightarrow> fst r \<in> G" "h \<in> G \<Longrightarrow> fst r = h"
proof (cases "h \<in> G")
  case True
  obtain k where "(h, k) \<in> set (pages st)" "bytes st h = run_bytes (h, k)" using whole_bytes [OF ok True] .
  then show thesis using that [of "(h, k)"] True by simp
next
  case False
  then have "h \<in> set (freelist st) \<union> S" using h by simp
  then obtain a where "(a, 0) \<in> set (pages st)" "a \<notin> G" "bytes st h \<subseteq> run_bytes (a, 0)"
    using small_bytes [OF ok] by metis
  then show thesis using that [of "(a, 0)"] False by simp
qed

lemma areas_disjoint:
  assumes inv: "heap_inv st L" and h: "h \<in> L" "g \<in> L" "h \<noteq> g"
  shows "bytes st h \<inter> bytes st g = {}"
proof -
  obtain S G where ok: "heap_ok st S G" and L: "L = S \<union> G" using heap_invE [OF inv] by metis
  show ?thesis
  proof (cases "h \<in> S \<and> g \<in> S")
    case True
    then show ?thesis
      using tiledD(2) [OF heap_okD(4) [OF ok], of h "hsize st h" g "hsize st g"]
        tiledD(2) [OF heap_okD(4) [OF ok], of g "hsize st g" h "hsize st h"] h(3)
      by (cases "h < g") (auto simp: blocks_def bytes_def)
  next
    case False
    obtain r r' where r: "r \<in> set (pages st)" "bytes st h \<subseteq> run_bytes r" "h \<in> G \<longleftrightarrow> fst r \<in> G" "h \<in> G \<Longrightarrow> fst r = h"
      and r': "r' \<in> set (pages st)" "bytes st g \<subseteq> run_bytes r'" "g \<in> G \<longleftrightarrow> fst r' \<in> G" "g \<in> G \<Longrightarrow> fst r' = g"
      using block_run [OF ok, of h] block_run [OF ok, of g] h L by metis
    have "r \<noteq> r'" using r(3,4) r'(3,4) h False L by auto
    then show ?thesis using runs_disjoint [OF heap_okD(1) [OF ok] r(1) r'(1)] r(2) r'(2) by blast
  qed
qed

text \<open>A page without a block in use would be one free block.\<close>

lemma page_in_use:
  assumes ok: "heap_ok st S G" and q: "q \<in> cut_pages st G"
  shows "\<exists>b\<in>S. b div 4096 = q"
proof (rule ccontr)
  assume none: "\<not> (\<exists>b\<in>S. b div 4096 = q)"
  let ?blk = "blocks st (set (freelist st) \<union> S)"
  note t = heap_okD(4) [OF ok]
  have free: "c \<in> set (freelist st)" if "?blk c = Some n" "c div 4096 = q" for c n
    using that none by (auto simp: blocks_def split: if_splits)
  obtain n where n: "?blk (4096 * q) = Some n" using tiled_page_start [OF t q] by blast
  then have f: "4096 * q \<in> set (freelist st)" "hsize st (4096 * q) = n" "n < 4096" "0 < n"
    using free [OF n] heap_okD(6) [OF ok, of "4096 * q"] tiledD(1) [OF t n] by (auto simp: blocks_def tile_def split: if_splits)
  have pg: "(4096 * q + n) div 4096 = q" using f(3) by simp
  then obtain c m where c: "?blk c = Some m" "c \<le> 4096 * q + n" "4096 * q + n < c + m"
    using tiledD(3) [OF t, of "4096 * q + n"] q by auto
  have "c = 4096 * q + n"
    using tiledD(2) [OF t n c(1)] tiledD(2) [OF t c(1) n] c n f(4) by (cases c "4096 * q" rule: linorder_cases) auto
  then show False
    using heap_okD(7) [OF ok f(1) free [OF c(1)]] pg f(2) by auto
qed

lemma pages_in_use:
  assumes inv: "heap_inv st L" and r: "r \<in> set (pages st)"
  shows "\<exists>h\<in>L. bytes st h \<subseteq> run_bytes r"
proof -
  obtain S G where ok: "heap_ok st S G" and L: "L = S \<union> G" using heap_invE [OF inv] by metis
  note p = heap_okD(1) [OF ok]
  show ?thesis
  proof (cases "fst r \<in> G")
    case True
    obtain k where k: "(fst r, k) \<in> set (pages st)" "bytes st (fst r) = run_bytes (fst r, k)"
      using whole_bytes [OF ok True] .
    moreover have "k = snd r" using pages_unique [OF p k(1), of "fst r" "snd r"] r by simp
    ultimately show ?thesis using True L by auto
  next
    case False
    then have r0: "snd r = 0" using p r by (auto simp: pages_ok_def)
    then have "fst r div 4096 \<in> cut_pages st G"
      using r False by (auto simp: cut_pages_def intro!: exI [of _ "fst r"]) (metis prod.collapse)
    then obtain b where b: "b \<in> S" "b div 4096 = fst r div 4096" using page_in_use [OF ok] by blast
    obtain a where a: "(a, 0) \<in> set (pages st)" "a div 4096 = b div 4096" "bytes st b \<subseteq> run_bytes (a, 0)"
      using small_bytes [OF ok, of b] b(1) by blast
    have "(a, 0) = r" using pages_unique [OF p a(1), of "fst r" "snd r"] r a(2) b(2) by (cases r) simp
    then show ?thesis using a(3) b(1) L by blast
  qed
qed

section \<open>Runs of the heap\<close>

text \<open>
  The state with the headers of the blocks that are in use. Users free only what they were given, once. Pages come
  from a page allocator that hands out aligned runs which it has not handed out already.
\<close>

definition heap_init :: "xheap \<times> nat set \<Rightarrow> bool" where
  "heap_init s \<longleftrightarrow> freelist (fst s) = [] \<and> pages (fst s) = [] \<and> snd s = {}"

inductive heap_step :: "xheap \<times> nat set \<Rightarrow> xheap \<times> nat set \<Rightarrow> bool" where
  alloc: "fresh_pages st alloc \<Longrightarrow> n + 128 \<le> 2 ^ 30 \<Longrightarrow> align \<le> SMP_CACHE_BYTES \<Longrightarrow>
    xmalloc' alloc st n align = Done (Some p, st') \<Longrightarrow> heap_step (st, L) (st', insert (header_from_data p) L)"
| no_memory: "fresh_pages st alloc \<Longrightarrow> n + 128 \<le> 2 ^ 30 \<Longrightarrow> align \<le> SMP_CACHE_BYTES \<Longrightarrow>
    xmalloc' alloc st n align = Done (None, st') \<Longrightarrow> heap_step (st, L) (st', L)"
| free: "h \<in> L \<Longrightarrow> xfree st (data_from_header h) = Done st' \<Longrightarrow> heap_step (st, L) (st', L - {h})"
| free_null: "xfree st 0 = Done st' \<Longrightarrow> heap_step (st, L) (st', L)"

inductive_cases heap_stepE: "heap_step s s'"

lemma heap_step_inv:
  assumes "heap_inv (fst s) (snd s)" "heap_step s s'"
  shows "heap_inv (fst s') (snd s')"
  using assms(2,1)
proof cases
  case (alloc st al n align p st' L)
  then obtain h where "p = h + 128" "given st L (n + 128) h st'"
    using xmalloc_given [of st L al n align] assms(1) by (auto simp: xconsts)
  then show ?thesis using alloc by (simp add: given_def header_from_data_def xconsts)
next
  case (no_memory st al n align st' L)
  then show ?thesis using xmalloc_given [of st L al n align] assms(1) by (auto simp: xconsts)
next
  case (free h L st st')
  then show ?thesis using xfree_taken [of st L h] assms(1) by (auto simp: data_from_header_def xconsts)
next
  case (free_null st st' L)
  then show ?thesis using assms(1) by (simp add: xfree_def)
qed

lemma heap_init_inv: "heap_init s \<Longrightarrow> heap_inv (fst s) (snd s)"
  using heap_invI [of "fst s" "{}" "{}"] tiled_empty
  by (simp add: heap_init_def heap_ok_def pages_ok_def cut_pages_def blocks_def [abs_def])

interpretation heap_runs: invariant_steps heap_init heap_step "\<lambda>s. heap_inv (fst s) (snd s)"
  by unfold_locales (auto intro: heap_init_inv heap_step_inv)

lemma xmalloc_array_is:
  assumes "n * num < 2 ^ 32"
  shows "xmalloc_array' alloc st n align num = xmalloc' alloc st (n * num) align"
proof -
  have "\<not> (n \<noteq> 0 \<and> num > (2 ^ 32 - 1) div n)"
    using assms less_eq_div_iff_mult_less_eq [of n num "2 ^ 32 - 1"] by (auto simp: mult.commute not_less)
  then show ?thesis using assms by (auto simp: xmalloc_array'_def)
qed

lemma area_place:
  assumes "heap_inv st L" "h \<in> L"
  shows "128 dvd h" "128 \<le> hsize st h" "\<exists>r\<in>set (pages st). bytes st h \<subseteq> run_bytes r"
proof -
  obtain S G where ok: "heap_ok st S G" and L: "L = S \<union> G" using heap_invE [OF assms(1)] by metis
  show "\<exists>r\<in>set (pages st). bytes st h \<subseteq> run_bytes r" using block_run [OF ok, of h] assms(2) L by metis
  have "128 dvd h \<and> 128 \<le> hsize st h"
  proof (cases "h \<in> S")
    case True
    then show ?thesis using block_page(1) [OF ok, of h] by (auto simp: tile_def dvd_imp_le)
  next
    case False
    then have g: "h \<in> G" using assms(2) L by auto
    then have "h mod 4096 = 0" using heap_okD(1) [OF ok] by (fastforce simp: pages_ok_def)
    then show ?thesis using whole_size [OF ok g] by (auto simp: mod_eq_0_iff_dvd intro: dvd_trans [of 128 4096])
  qed
  then show "128 dvd h" "128 \<le> hsize st h" by auto
qed

section \<open>Properties\<close>

text \<open>C4: The heap stays well formed. In every state reached from the empty heap by releases of areas in use and by allocations that, with
  their header of 128 bytes, take at most 1 GB, each area in use is aligned to a cache line, lies inside the pages taken
  from the page allocator, and overlaps no other area in use; and every run of pages that is held has an area in use, so no
  page is kept in vain. In each such state a further allocation within that limit, with an alignment of at most a
  cache line, from a page allocator that hands out aligned runs it has not handed out already, either returns
  a new area of at least the size asked for and leaves the others as they are, or returns \<open>NULL\<close> with nothing changed, when
  there are no pages; an array whose size overflows 32 bits gets \<open>NULL\<close>. The release of an area in use never stops the machine.
  A larger allocation takes 2 GB or more in one block, whose size overflows in the code.
\<close>

theorem heap_objects:
  assumes "heap_init s0" "heap_step\<^sup>*\<^sup>* s0 (st, L)"
  shows "(\<forall>h\<in>L. 128 dvd data_from_header h \<and> (\<exists>r\<in>set (pages st). bytes st h \<subseteq> run_bytes r)) \<and>
    (\<forall>h\<in>L. \<forall>g\<in>L. h \<noteq> g \<longrightarrow> bytes st h \<inter> bytes st g = {}) \<and>
    (\<forall>r\<in>set (pages st). \<exists>h\<in>L. bytes st h \<subseteq> run_bytes r) \<and>
    (\<forall>alloc n align num. fresh_pages st alloc \<and> n * num + 128 \<le> 2 ^ 30 \<and> align \<le> SMP_CACHE_BYTES \<longrightarrow>
       xmalloc_array' alloc st n align num = xmalloc' alloc st (n * num) align \<and>
       (xmalloc' alloc st (n * num) align = Done (None, st) \<and> (\<exists>ord. alloc ord = None) \<or>
        (\<exists>h st'. xmalloc' alloc st (n * num) align = Done (Some (data_from_header h), st') \<and> h \<notin> L \<and>
           {data_from_header h ..< data_from_header h + n * num} \<subseteq> bytes st' h \<and> (\<forall>b\<in>L. bytes st' b = bytes st b)))) \<and>
    (\<forall>alloc n align num. 2 ^ 32 \<le> n * num \<longrightarrow> xmalloc_array' alloc st n align num = Done (None, st)) \<and>
    (\<forall>h\<in>L. \<exists>st'. xfree st (data_from_header h) = Done st')"
proof -
  have inv: "heap_inv st L" using heap_runs.run_inv [OF assms] by simp
  have "xmalloc_array' alloc st n align num = Done (None, st)" if "2 ^ 32 \<le> n * num" for alloc n align num
  proof -
    have "0 < n" using that by (cases n) auto
    then have "num > (2 ^ 32 - 1) div n" using that by (auto simp: div_less_iff_less_mult mult.commute)
    then show ?thesis using \<open>0 < n\<close> by (simp add: xmalloc_array'_def)
  qed
  moreover have "xmalloc' alloc st m align = Done (None, st) \<and> (\<exists>ord. alloc ord = None) \<or>
      (\<exists>h st'. xmalloc' alloc st m align = Done (Some (data_from_header h), st') \<and> h \<notin> L \<and>
         {data_from_header h ..< data_from_header h + m} \<subseteq> bytes st' h \<and> (\<forall>b\<in>L. bytes st' b = bytes st b))"
    if "fresh_pages st alloc" "m + 128 \<le> 2 ^ 30" "align \<le> SMP_CACHE_BYTES" for alloc m align
    using xmalloc_given [OF inv that(1,2), of align] that(3)
    by (fastforce simp: given_def data_from_header_def xconsts bytes_def)
  moreover have "\<exists>st'. xfree st (data_from_header h) = Done st'" if "h \<in> L" for h
    using xfree_taken [OF inv that] by (auto simp: data_from_header_def xconsts)
  moreover have "128 dvd data_from_header h" if "h \<in> L" for h
    using area_place(1) [OF inv that] by (simp add: data_from_header_def xconsts)
  ultimately show ?thesis
    using area_place(3) [OF inv] areas_disjoint [OF inv] pages_in_use [OF inv] xmalloc_array_is by simp
qed

theorem heap_objects_witness:
  "\<exists>st'. xfree \<lparr>freelist = [4352], hsize = (\<lambda>_. 0)(4352 := 3840, 4096 := 256), linked = (\<lambda>_. False)(4352 := True, 4096 := False),
     pages = [(4096, 0)]\<rparr> 4224 = Done st'"
proof -
  define st0 where "st0 = \<lparr>freelist = [], hsize = \<lambda>_. 0, linked = \<lambda>_. False, pages = []\<rparr>"
  define st where "st = \<lparr>freelist = [4352], hsize = (\<lambda>_. 0)(4352 := 3840, 4096 := 256),
    linked = (\<lambda>_. False)(4352 := True, 4096 := False), pages = [(4096, 0)]\<rparr>"
  have "xmalloc' (\<lambda>_. Some 4096) st0 100 8 = Done (Some 4224, st)"
    by (simp add: xmalloc'_def st0_def st_def align_up_def xmalloc_new_page_def maybe_split_def add_to_freelist_def set_size_def
        unlink_def data_from_header_def xconsts)
  then have "heap_step (st0, {}) (st, {4096})"
    using heap_step.alloc [of st0 "\<lambda>_. Some 4096" 100 8 4224 st "{}"]
    by (simp add: fresh_pages_def st0_def header_from_data_def xconsts)
  then have "heap_step\<^sup>*\<^sup>* (st0, {}) (st, {4096})" by blast
  moreover have "heap_init (st0, {})" by (simp add: heap_init_def st0_def)
  ultimately show ?thesis
    using heap_objects [of "(st0, {})" st "{4096}"] by (simp add: st_def data_from_header_def xconsts)
qed

end
