(* ===== verification/Spec2Isabelle.thy ===== *)
theory Spec2Isabelle
  imports Event_Channel_Props Timer_Props Bitmap_Props Number_Props Xmalloc_Props
begin

text \<open>
  A verification development of the common parts of the Xen hypervisor, version 3.3.1, as it is built for
  x86-64. The sources are under \<open>src/xen\<close>.

  \<^bold>\<open>The program and its parts.\<close> The hypervisor runs domains, each with its virtual CPUs. Domains talk to
  each other and to the hypervisor through event channels (\<open>common/event_channel.c\<close>), which end in the delivery of
  an upcall to a virtual CPU (\<open>common/domain.c\<close>, \<open>common/schedule.c\<close>). What hardware a domain may touch is kept
  in rangesets (\<open>common/rangeset.c\<close>) behind the macros of \<open>include/xen/iocap.h\<close>. Time is driven by
  timers (\<open>common/timer.c\<close>). Below these are the services every part uses: memory for objects of any size
  (\<open>common/xmalloc.c\<close>), bit operations and bitmaps (\<open>include/xen/bitops.h\<close>, \<open>common/bitmap.c\<close>), strings
  (\<open>common/string.c\<close>), and the reading and printing of numbers and formats (\<open>common/vsprintf.c\<close>).

  \<^bold>\<open>How the code is modelled.\<close> A C structure is a record, a linked list is a list, an array is a list or a function of the index,
  and a pointer is the number or the position of what it points to, with \<open>None\<close> for \<open>NULL\<close>. A function of the
  source is a definition of the same name (with a prime where the name starts with underscores or is taken) that returns its result together with the new state. A
  \<open>BUG_ON\<close>, a failed \<open>ASSERT\<close>, the use of \<open>NULL\<close>, an undefined shift of a bitmap and a read or write outside an object give \<open>BUG\<close> of the type
  \<open>outcome\<close> (theory \<open>Xen_Prelude\<close>). Two assertions are not branches of the model: that the bounds of a request to a rangeset are in
  order is a hypothesis of the theorems on rangesets, and that the heap is not used inside an interrupt handler is left out, because
  no interrupts are modelled. Integers whose width matters are words; others are natural numbers or integers with the reduction written
  out. An operation that holds its lock from start to end is one step; where the code gives up a lock, what other CPUs do in
  the gap is an argument of the definition. The theorems on event channels allow others to do anything in a gap that leaves the system in order,
  which includes every operation of the hypercall, the creation of domains and the destruction of the channels of a dying
  domain; what they rely on is that domains and virtual CPUs stay in existence, that ports of a living domain stay valid, that a dying domain stays so and gets no new channel, and that no step of the table is taken
  that the specification does not have (\<open>interference\<close> in \<open>Event_Channel_Ops\<close>). Those on timers allow a callback to do anything that
  keeps the queues in order and every active timer covered by a deadline (\<open>callbacks_keep\<close>). Loops are
  recursive functions that are proved to terminate; the loops of the timer softirq, which a callback can keep running, are partial functions, and that
  they end is a property.

  \<^bold>\<open>The theories.\<close>

  \<^item> \<open>Xen_Prelude\<close>: machine types, error codes, outcomes, lemmas on words and lists, and the locale
  \<open>invariant_steps\<close> for runs of a component.

  \<^item> \<open>Rangeset\<close> models \<open>rangeset.c\<close> and \<open>iocap.h\<close>. A rangeset is an ordered list of ranges that are disjoint and not
  adjacent, and stands for a set of numbers. Adding is union, the query is inclusion, and both keep
  the order. Removal is exact under conditions that are stated; two properties show what it does outside of them. The locale \<open>range_capability\<close> has the laws that
  permissions of a domain rest on, and is interpreted on the rangesets.

  \<^item> \<open>Domain\<close> models the fields of \<open>struct domain\<close>, \<open>struct vcpu\<close> and \<open>struct evtchn\<close> that event delivery uses, and
  \<open>vcpu_wake\<close>, \<open>vcpu_unblock\<close>, \<open>vcpu_kick\<close>, and the lookup of a domain with its privilege check.

  \<^item> \<open>Event_Channel\<close> models every function of \<open>event_channel.c\<close>, the hypercall \<open>do_event_channel_op\<close> included.
  \<open>Event_Channel_Inv\<close> has the invariant of a domain and the abstract table of channels with its step relation;
  \<open>Event_Channel_Ops\<close> shows that each operation keeps the invariant and refines the table, whatever others do while
  no lock is held; \<open>Event_Channel_Life\<close> has the creation and the destruction of a domain's channels and the reachable systems;
  \<open>Event_Channel_Props\<close> has the properties: refinement, the invariants of reachable systems, the effect of each
  operation, delivery, confinement of a domain without privilege, and two faults.

  \<^item> \<open>Timer\<close> models \<open>timer.c\<close>. \<open>Timer_Heap\<close> is about sifting in the binary heap, \<open>Timer_Queue\<close> about the
  queue of one CPU (heap and overflow list), \<open>Timer_Ops\<close> about the operations, and \<open>Timer_Softirq\<close> about the softirq. \<open>Timer_Props\<close>
  shows that every active timer is queued where it says, that none is forgotten by the programmed deadline, and that
  the softirq ends and runs what is due.

  \<^item> \<open>Bitops\<close>, \<open>Bitmap\<close> and \<open>Bitmap_Props\<close>: searches and counts agree with a scan of the word; operations on
  bitmaps are operations on sets of numbers; the allocation of regions is exact and can be undone.

  \<^item> \<open>Xen_String\<close> and \<open>Xen_String_Props\<close> model \<open>string.c\<close>: comparisons, searches and copies do what they promise on
  strings that end in a 0 byte, and touch nothing outside of their operands.

  \<^item> \<open>Vsprintf\<close> models the number functions and \<open>vsnprintf\<close> with every directive, and \<open>parse_size_and_unit\<close> of
  \<open>lib.c\<close>. \<open>Vsprintf_Props\<close> shows that the output of a format does not depend on the buffer, which gets what fits
  of it; \<open>Number_Props\<close> that numbers are read back as they were printed.

  \<^item> \<open>Xmalloc\<close> models \<open>xmalloc.c\<close> without \<open>XMALLOC_DEBUG\<close>. \<open>Xmalloc_Tiles\<close> is about pages tiled by blocks,
  \<open>Xmalloc_Inv\<close> has the invariant of the heap and its preservation, \<open>Xmalloc_Props\<close> what users rely on: areas that are aligned, disjoint and large enough, and releases
  that never fail.

  \<^bold>\<open>Parameters and bounds.\<close> Taken as arguments, because they are outside of the modelled files: whether memory is
  found, security hooks, the binding of physical interrupts, copies from and to a guest, the current time and
  the programming of the hardware timer, the callbacks of timers, and the pages given to the heap. What is required of them is a hypothesis with a name, such as
  \<open>fresh_pages\<close>. The theorem on the heap is for requests that take at most 1 GB with their header, because the size of a larger
  block overflows in the code; the theorem on regions of a bitmap is for orders of at most 30, because the number of bits of a region overflows beyond; the read back of sizes is for numbers that do not overflow with their unit.

  \<^bold>\<open>Not modelled.\<close> Output to the console (\<open>rangeset_printk\<close>, \<open>dump_timerq\<close>) has no effect on the state.
  \<open>vsscanf\<close>, the conversions of bitmaps to text, and the atomic and string instructions in inline assembly. The page
  allocator, which is a parameter of the heap. Grant
  tables, the schedulers, and the memory management of x86 with its shadow page tables keep their state in page tables, reference counts and per-CPU hardware
  that the sources change by inline assembly and in ways that depend on the TLB. The instruction
  emulator, the virtual machine extensions, device drivers, ACPI, the policy engines of the
  security modules, the ia64 port, and all of \<open>src/tools\<close>, \<open>src/extras\<close> and the other
  programs around the hypervisor.
\<close>

end
